(* ===== verification/Prelude.thy ===== *)
theory Prelude
  imports Main "HOL-Library.Word"
begin

text \<open>
  Shared vocabulary of the development: bytes, \<open>size_t\<close> arithmetic with its wrap-around,
  the faults a C++ operation can end in, sequencing of fallible operations, and memory blocks
  with bounds-checked reads, writes and moves. The lemmas collected in
  \<open>size_arith\<close>, \<open>mem_simps\<close> and \<open>res_simps\<close> carry the proofs of the components.
\<close>

named_theorems size_arith \<open>size_t arithmetic where no wrap-around happens\<close>
named_theorems mem_simps \<open>reads, writes and moves inside a block of memory\<close>
named_theorems res_simps \<open>sequencing of fallible operations\<close>

section \<open>Types of the model\<close>

text \<open>
  A \<open>char\<close> is an 8-bit word. \<open>size_t\<close> is a natural number below \<open>2 ^ 64\<close>; its
  addition and subtraction are \<open>size_add\<close> and \<open>size_sub\<close>, which wrap around.
\<close>

type_synonym byte = "8 word"
type_synonym size_t = nat
type_synonym fd = int
type_synonym tid = int
type_synonym errno = int

text \<open>
  What ends an operation abnormally: \<open>std::abort\<close>, an exception of the standard library that
  the repository never catches, and the undefined behaviours that the code can run into.
\<close>

datatype fault =
    OutOfBounds
  | OverlappingRanges
  | LengthError
  | Abort
  | BadFunctionCall
  | NullDereference
  | UseAfterFree
  | SignedOverflow
  | BadAnyCast
  | InvalidArgument

type_synonym 'a res = "fault + 'a"

section \<open>Fallible operations\<close>

definition bind_res :: "'a res \<Rightarrow> ('a \<Rightarrow> 'b res) \<Rightarrow> 'b res" where
  "bind_res m f = (case m of Inl e \<Rightarrow> Inl e | Inr x \<Rightarrow> f x)"

definition is_ok :: "'a res \<Rightarrow> bool" where
  "is_ok m = (case m of Inl _ \<Rightarrow> False | Inr _ \<Rightarrow> True)"

lemma bind_res_Inl [simp, res_simps]: "bind_res (Inl e) f = Inl e"
  by (simp add: bind_res_def)

lemma bind_res_Inr [simp, res_simps]: "bind_res (Inr x) f = f x"
  by (simp add: bind_res_def)

lemma bind_res_eq_Inr [res_simps]:
  "bind_res m f = Inr y \<longleftrightarrow> (\<exists>x. m = Inr x \<and> f x = Inr y)"
  by (cases m) auto

lemma bind_res_assoc: "bind_res (bind_res m f) g = bind_res m (\<lambda>x. bind_res (f x) g)"
  by (cases m) auto

lemma is_ok_simps [simp, res_simps]: "\<not> is_ok (Inl e)" "is_ok (Inr x)"
  by (simp_all add: is_ok_def)

lemma is_ok_iff: "is_ok m \<longleftrightarrow> (\<exists>x. m = Inr x)"
  by (cases m) auto

section \<open>Arithmetic of \<open>size_t\<close>\<close>

definition size_add :: "size_t \<Rightarrow> size_t \<Rightarrow> size_t" where
  "size_add a b = (a + b) mod 2 ^ 64"

definition size_sub :: "size_t \<Rightarrow> size_t \<Rightarrow> size_t" where
  "size_sub a b = (a + (2 ^ 64 - b)) mod 2 ^ 64"

lemma size_add_exact [size_arith]: "a + b < 2 ^ 64 \<Longrightarrow> size_add a b = a + b"
  by (simp add: size_add_def)

lemma size_sub_exact [size_arith]: "b \<le> a \<Longrightarrow> a < 2 ^ 64 \<Longrightarrow> size_sub a b = a - b"
proof -
  assume "b \<le> a" and "a < 2 ^ 64"
  then have eq: "a + (2 ^ 64 - b) = (a - b) + 2 ^ 64" by simp
  show ?thesis unfolding size_sub_def eq using \<open>a < 2 ^ 64\<close> by simp
qed

lemma size_sub_wraps: "a < b \<Longrightarrow> b \<le> 2 ^ 64 \<Longrightarrow> size_sub a b = 2 ^ 64 - (b - a)"
  by (simp add: size_sub_def)

lemma size_add_bound [simp]: "size_add a b < 2 ^ 64" "size_sub a b < 2 ^ 64"
  by (simp_all add: size_add_def size_sub_def)

section \<open>Blocks of memory\<close>

text \<open>
  A block is the storage of one allocation (\<open>std::vector<char>\<close>, \<open>std::array<char, N>\<close>).
  An access outside of it is undefined behaviour in C++ and the fault \<open>OutOfBounds\<close> here.
  \<open>mem_move\<close> is \<open>std::move(first, last, d_first)\<close> within one block: undefined when
  \<open>d_first\<close> lies in the source range.
\<close>

definition VECTOR_MAX :: nat where
  "VECTOR_MAX = 2 ^ 63 - 1"

definition mslice :: "nat \<Rightarrow> nat \<Rightarrow> 'a list \<Rightarrow> 'a list" where
  "mslice off n m = take n (drop off m)"

definition mem_read :: "byte list \<Rightarrow> nat \<Rightarrow> nat \<Rightarrow> byte list res" where
  "mem_read m off n = (if off + n \<le> length m then Inr (mslice off n m) else Inl OutOfBounds)"

definition mem_write :: "byte list \<Rightarrow> nat \<Rightarrow> byte list \<Rightarrow> byte list res" where
  "mem_write m off d =
     (if off + length d \<le> length m then Inr (take off m @ d @ drop (off + length d) m)
      else Inl OutOfBounds)"

definition mem_move :: "byte list \<Rightarrow> nat \<Rightarrow> nat \<Rightarrow> nat \<Rightarrow> byte list res" where
  "mem_move m first lst d_first =
     (if first \<le> d_first \<and> d_first < lst then Inl OverlappingRanges
      else bind_res (mem_read m first (lst - first)) (\<lambda>d. mem_write m d_first d))"

definition vec_resize :: "byte list \<Rightarrow> nat \<Rightarrow> byte list res" where
  "vec_resize m n =
     (if n \<le> VECTOR_MAX then Inr (take n m @ replicate (n - length m) 0) else Inl LengthError)"

lemma length_mslice [simp, mem_simps]: "off + n \<le> length m \<Longrightarrow> length (mslice off n m) = n"
  by (simp add: mslice_def)

lemma mslice_0 [simp]: "mslice off 0 m = []"
  by (simp add: mslice_def)

lemma drop_mslice [mem_simps]: "k \<le> n \<Longrightarrow> drop k (mslice off n m) = mslice (off + k) (n - k) m"
  by (simp add: mslice_def drop_take add.commute)

lemma take_mslice [mem_simps]: "k \<le> n \<Longrightarrow> take k (mslice off n m) = mslice off k m"
  by (simp add: mslice_def min_absorb1)

lemma mslice_append_split:
  "mslice off (k + n) m = mslice off k m @ mslice (off + k) n m"
  by (simp add: mslice_def take_add add.commute)

lemma mslice_whole [simp]: "mslice 0 (length m) m = m"
  by (simp add: mslice_def)

lemma mslice_of_append1 [mem_simps]:
  "off + n \<le> length xs \<Longrightarrow> mslice off n (xs @ ys) = mslice off n xs"
  by (simp add: mslice_def)

lemma mslice_of_append2 [mem_simps]:
  "length xs \<le> off \<Longrightarrow> mslice off n (xs @ ys) = mslice (off - length xs) n ys"
  by (simp add: mslice_def)

lemma mem_read_in [mem_simps]: "off + n \<le> length m \<Longrightarrow> mem_read m off n = Inr (mslice off n m)"
  by (simp add: mem_read_def)

lemma mem_write_in [mem_simps]:
  "off + length d \<le> length m \<Longrightarrow>
   mem_write m off d = Inr (take off m @ d @ drop (off + length d) m)"
  by (simp add: mem_write_def)

lemma mem_write_length [mem_simps]: "mem_write m off d = Inr m' \<Longrightarrow> length m' = length m"
  by (auto simp: mem_write_def split: if_splits)

lemma mem_write_mslice_same [mem_simps]:
  "mem_write m off d = Inr m' \<Longrightarrow> mslice off (length d) m' = d"
  by (auto simp: mem_write_def mslice_def split: if_splits)

lemma mem_write_mslice_before [mem_simps]:
  "mem_write m off d = Inr m' \<Longrightarrow> i + n \<le> off \<Longrightarrow> mslice i n m' = mslice i n m"
  by (auto simp: mem_write_def mslice_def drop_take min_def split: if_splits)

lemma mem_write_mslice_after [mem_simps]:
  "mem_write m off d = Inr m' \<Longrightarrow> off + length d \<le> i \<Longrightarrow> mslice i n m' = mslice i n m"
  by (auto simp: mem_write_def mslice_def split: if_splits)

lemma vec_resize_grow [mem_simps]:
  "length m \<le> n \<Longrightarrow> n \<le> VECTOR_MAX \<Longrightarrow> vec_resize m n = Inr (m @ replicate (n - length m) 0)"
  by (simp add: vec_resize_def)

lemma last_nth: "i < length xs \<Longrightarrow> last xs = xs ! (length xs - 1)"
  by (cases xs) (simp_all add: last_conv_nth)

lemma replicate_num: "replicate (numeral k) x = x # replicate (pred_numeral k) x"
  by (simp add: numeral_eq_Suc)

section \<open>Decimal numerals\<close>

text \<open>\<open>std::to_string\<close> and the conversion \<open>%d\<close> of \<open>snprintf\<close>.\<close>

definition digit :: "nat \<Rightarrow> char" where
  "digit d = char_of (48 + d)"

fun dec_nat :: "nat \<Rightarrow> string" where
  "dec_nat n = (if n < 10 then [digit n] else dec_nat (n div 10) @ [digit (n mod 10)])"

declare dec_nat.simps [simp del]

definition dec_int :: "int \<Rightarrow> string" where
  "dec_int i = (if i < 0 then CHR ''-'' # dec_nat (nat (- i)) else dec_nat (nat i))"

definition undec :: "string \<Rightarrow> nat" where
  "undec s = foldl (\<lambda>n c. 10 * n + (of_char c - 48)) 0 s"

lemma of_char_digit: "d < 10 \<Longrightarrow> (of_char (digit d) :: nat) = 48 + d"
  by (simp add: digit_def of_char_of)

lemma undec_dec_nat: "undec (dec_nat n) = n"
proof (induction n rule: dec_nat.induct)
  case (1 n)
  show ?case
  proof (cases "n < 10")
    case True
    then show ?thesis by (simp add: dec_nat.simps [of n] undec_def of_char_digit)
  next
    case False
    with 1 show ?thesis by (simp add: dec_nat.simps [of n] undec_def of_char_digit)
  qed
qed

lemma dec_nat_inj [simp]: "dec_nat m = dec_nat n \<longleftrightarrow> m = n"
  by (metis undec_dec_nat)

lemma dec_int_inj: "0 \<le> i \<Longrightarrow> 0 \<le> j \<Longrightarrow> dec_int i = dec_int j \<longleftrightarrow> i = j"
  by (simp add: dec_int_def) linarith

end
