(* ===== verification/Buffer.thy ===== *)
theory Buffer
  imports Prelude
begin

text \<open>
  The application buffer of \<open>net/Buffer.cpp\<close>: a vector with a read and a write cursor,
  kept as they are in the code. The memory a member function touches through a raw pointer is
  accessed with the bounds-checked operations of the prelude, so that an access outside the
  vector is a fault. The abstraction of a buffer is \<open>contents\<close>, the readable bytes.
  The interface \<open>byte_buffer\<close> states what the clients of a buffer rely on (the connection,
  the codec); it is interpreted on the operations of this file.
\<close>

section \<open>State and operations\<close>

definition CHEAP_PREPEND :: size_t where
  "CHEAP_PREPEND = 8"

definition INITIALIZE_SIZE :: size_t where
  "INITIALIZE_SIZE = 1024"

definition EXTRA_SIZE :: size_t where
  "EXTRA_SIZE = 65536"

record buffer =
  storage :: "byte list"
  write_index :: size_t
  read_index :: size_t

definition Buffer_new :: "size_t \<Rightarrow> buffer res" where
  "Buffer_new initialize_size =
     bind_res (vec_resize [] (size_add CHEAP_PREPEND initialize_size))
       (\<lambda>m. Inr \<lparr>storage = m, write_index = CHEAP_PREPEND, read_index = CHEAP_PREPEND\<rparr>)"

definition readableBytes :: "buffer \<Rightarrow> size_t" where
  "readableBytes b = size_sub (write_index b) (read_index b)"

definition writableBytes :: "buffer \<Rightarrow> size_t" where
  "writableBytes b = size_sub (length (storage b)) (write_index b)"

definition prependableBytes :: "buffer \<Rightarrow> size_t" where
  "prependableBytes b = read_index b"

text \<open>Reading \<open>n\<close> bytes through the pointer \<open>peek() + off\<close>.\<close>

definition peek_at :: "buffer \<Rightarrow> size_t \<Rightarrow> size_t \<Rightarrow> byte list res" where
  "peek_at b off n = mem_read (storage b) (read_index b + off) n"

definition retrieveAll :: "buffer \<Rightarrow> buffer" where
  "retrieveAll b = b\<lparr>write_index := CHEAP_PREPEND, read_index := CHEAP_PREPEND\<rparr>"

definition retrieve :: "size_t \<Rightarrow> buffer \<Rightarrow> buffer" where
  "retrieve len b =
     (if len \<ge> readableBytes b then retrieveAll b
      else b\<lparr>read_index := size_add (read_index b) len\<rparr>)"

definition retrieveAsString :: "size_t \<Rightarrow> buffer \<Rightarrow> (byte list \<times> buffer) res" where
  "retrieveAsString len b =
     bind_res (peek_at b 0 len) (\<lambda>msg. Inr (msg, retrieve len b))"

definition retrieveAllAsString :: "buffer \<Rightarrow> (byte list \<times> buffer) res" where
  "retrieveAllAsString b =
     bind_res (peek_at b 0 (readableBytes b)) (\<lambda>msg. Inr (msg, retrieveAll b))"

definition makeSpace :: "size_t \<Rightarrow> buffer \<Rightarrow> buffer res" where
  "makeSpace len b =
     (let space_left = size_add (writableBytes b) (size_sub (read_index b) CHEAP_PREPEND)
      in if space_left \<ge> len then
           (let len_data = readableBytes b
            in bind_res (mem_move (storage b) (read_index b) (read_index b + len_data) CHEAP_PREPEND)
                 (\<lambda>m. Inr (b\<lparr>storage := m, read_index := CHEAP_PREPEND,
                              write_index := size_add CHEAP_PREPEND len_data\<rparr>)))
         else bind_res (vec_resize (storage b) (size_add (write_index b) len))
                 (\<lambda>m. Inr (b\<lparr>storage := m\<rparr>)))"

definition ensureWritableBytes :: "size_t \<Rightarrow> buffer \<Rightarrow> buffer res" where
  "ensureWritableBytes len b = (if writableBytes b \<ge> len then Inr b else makeSpace len b)"

text \<open>
  A write of \<open>d\<close> through the pointer \<open>beginWrite() + off\<close> (the codec serialises a frame
  this way), and the cursor update that publishes it.
\<close>

definition write_at :: "size_t \<Rightarrow> byte list \<Rightarrow> buffer \<Rightarrow> buffer res" where
  "write_at off d b =
     bind_res (mem_write (storage b) (write_index b + off) d) (\<lambda>m. Inr (b\<lparr>storage := m\<rparr>))"

definition hasWritten :: "size_t \<Rightarrow> buffer \<Rightarrow> buffer" where
  "hasWritten len b = b\<lparr>write_index := size_add (write_index b) len\<rparr>"

definition buf_append :: "byte list \<Rightarrow> buffer \<Rightarrow> buffer res" where
  "buf_append data b =
     bind_res (ensureWritableBytes (length data) b)
       (\<lambda>b1. bind_res (mem_write (storage b1) (write_index b1) data)
         (\<lambda>m. Inr (b1\<lparr>storage := m, write_index := size_add (write_index b1) (length data)\<rparr>)))"

text \<open>\<open>prepend\<close> logs an error and leaves the buffer alone when the data does not fit in front.\<close>

definition prepend :: "byte list \<Rightarrow> buffer \<Rightarrow> buffer res" where
  "prepend data b =
     (if length data > prependableBytes b then Inr b
      else (let r = size_sub (read_index b) (length data)
            in bind_res (mem_write (storage b) r data)
                 (\<lambda>m. Inr (b\<lparr>storage := m, read_index := r\<rparr>))))"

definition buf_swap :: "buffer \<Rightarrow> buffer \<Rightarrow> buffer \<times> buffer" where
  "buf_swap this other = (other, this)"

text \<open>
  \<open>readv\<close> and \<open>write\<close> are the kernel's. A call ends in an error number or in the bytes
  that were delivered (the number of bytes that were accepted), which is an input of the model.
\<close>

datatype read_result = ReadError errno | ReadBytes "byte list"

datatype write_result = WriteError errno | WriteCount size_t

text \<open>
  The kernel fills the writable part of the vector first and the 64 KiB array on the stack
  after it; the return value is the byte count, or \<open>-1\<close> with the error number saved.
\<close>

definition readFd :: "read_result \<Rightarrow> buffer \<Rightarrow> (int \<times> errno option \<times> buffer) res" where
  "readFd res b =
     (case res of
        ReadError e \<Rightarrow> Inr (-1, Some e, b)
      | ReadBytes bs \<Rightarrow>
          (let writable = writableBytes b; n_read = length bs
           in if n_read \<le> writable then
                bind_res (mem_write (storage b) (write_index b) bs)
                  (\<lambda>m. Inr (int n_read, None,
                         b\<lparr>storage := m, write_index := size_add (write_index b) n_read\<rparr>))
              else
                bind_res (mem_write (storage b) (write_index b) (take writable bs))
                  (\<lambda>m. bind_res (if n_read - writable \<le> EXTRA_SIZE
                                  then Inr (drop writable bs) else Inl OutOfBounds)
                    (\<lambda>extra. bind_res (buf_append extra (b\<lparr>storage := m, write_index := length m\<rparr>))
                      (\<lambda>b'. Inr (int n_read, None, b'))))))"

definition writeFd :: "write_result \<Rightarrow> buffer \<Rightarrow> (int \<times> errno option \<times> buffer)" where
  "writeFd res b =
     (case res of
        WriteError e \<Rightarrow> (-1, Some e, b)
      | WriteCount n \<Rightarrow> (int n, None, retrieve n b))"

section \<open>Abstraction and invariant\<close>

definition contents :: "buffer \<Rightarrow> byte list" where
  "contents b = mslice (read_index b) (write_index b - read_index b) (storage b)"

definition buf_inv :: "buffer \<Rightarrow> bool" where
  "buf_inv b \<longleftrightarrow>
     CHEAP_PREPEND \<le> read_index b \<and> read_index b \<le> write_index b \<and>
     write_index b \<le> length (storage b) \<and> length (storage b) \<le> VECTOR_MAX"

text \<open>The weaker invariant that also holds after a \<open>prepend\<close>.\<close>

definition buf_wf :: "buffer \<Rightarrow> bool" where
  "buf_wf b \<longleftrightarrow>
     read_index b \<le> write_index b \<and> write_index b \<le> length (storage b) \<and>
     CHEAP_PREPEND \<le> length (storage b) \<and> length (storage b) \<le> VECTOR_MAX"

text \<open>Room for \<open>n\<close> more bytes below the size limit of a vector.\<close>

definition has_room :: "nat \<Rightarrow> buffer \<Rightarrow> bool" where
  "has_room n b \<longleftrightarrow> write_index b + n \<le> VECTOR_MAX"

text \<open>The definitions to unfold when a concrete run is evaluated.\<close>

lemmas buf_eval = buf_inv_def buf_wf_def contents_def mslice_def Buffer_new_def buf_append_def
  ensureWritableBytes_def makeSpace_def prepend_def retrieve_def retrieveAll_def
  readableBytes_def writableBytes_def prependableBytes_def size_add_def size_sub_def
  mem_read_def mem_write_def mem_move_def vec_resize_def Let_def replicate_num
  VECTOR_MAX_def CHEAP_PREPEND_def EXTRA_SIZE_def INITIALIZE_SIZE_def

lemmas limit_defs = VECTOR_MAX_def CHEAP_PREPEND_def

section \<open>Cursors and contents\<close>

lemma buf_inv_wf: "buf_inv b \<Longrightarrow> buf_wf b"
  by (simp add: buf_inv_def buf_wf_def)

lemma buf_invD:
  assumes "buf_inv b"
  shows "CHEAP_PREPEND \<le> read_index b" and "read_index b \<le> write_index b"
    and "write_index b \<le> length (storage b)" and "length (storage b) \<le> VECTOR_MAX"
  using assms by (simp_all add: buf_inv_def)

lemma buf_wfD:
  assumes "buf_wf b"
  shows "read_index b \<le> write_index b" and "write_index b \<le> length (storage b)"
    and "CHEAP_PREPEND \<le> length (storage b)" and "length (storage b) \<le> VECTOR_MAX"
  using assms by (simp_all add: buf_wf_def)

lemma readable_eq [size_arith]: "buf_wf b \<Longrightarrow> readableBytes b = write_index b - read_index b"
  by (simp add: buf_wf_def readableBytes_def size_sub_exact VECTOR_MAX_def)

lemma writable_eq [size_arith]: "buf_wf b \<Longrightarrow> writableBytes b = length (storage b) - write_index b"
  by (simp add: buf_wf_def writableBytes_def size_sub_exact VECTOR_MAX_def)

lemma length_contents: "buf_wf b \<Longrightarrow> length (contents b) = readableBytes b"
  by (simp add: readable_eq) (simp add: buf_wf_def contents_def)

lemma retrieveAll_inv: "buf_wf b \<Longrightarrow> buf_inv (retrieveAll b)"
  by (simp add: buf_wf_def buf_inv_def retrieveAll_def)

lemma contents_retrieveAll [simp]: "contents (retrieveAll b) = []"
  by (simp add: contents_def retrieveAll_def)

lemma retrieve_inv: "buf_inv b \<Longrightarrow> buf_inv (retrieve n b)"
proof (cases "n < readableBytes b")
  case True
  assume inv: "buf_inv b"
  with True have "read_index b + n \<le> write_index b"
    by (simp add: readable_eq buf_inv_wf)
  with inv True show ?thesis
    by (simp add: retrieve_def buf_inv_def size_add_exact VECTOR_MAX_def)
qed (simp add: retrieve_def retrieveAll_inv buf_inv_wf)

lemma contents_retrieve: "buf_wf b \<Longrightarrow> contents (retrieve n b) = drop n (contents b)"
proof (cases "n < readableBytes b")
  case True
  assume wf: "buf_wf b"
  with True have le: "read_index b + n \<le> write_index b"
    by (simp add: readable_eq)
  with wf have "size_add (read_index b) n = read_index b + n"
    by (simp add: size_add_exact buf_wf_def VECTOR_MAX_def)
  with True le show ?thesis
    by (simp add: retrieve_def contents_def drop_mslice)
next
  case False
  assume "buf_wf b"
  with False show ?thesis by (simp add: retrieve_def length_contents)
qed

lemma retrieveAll_write_index_le: "buf_inv b \<Longrightarrow> write_index (retrieveAll b) \<le> write_index b"
  by (simp add: retrieveAll_def buf_inv_def)

lemma retrieve_write_index_le: "buf_inv b \<Longrightarrow> write_index (retrieve n b) \<le> write_index b"
  by (simp add: retrieve_def retrieveAll_def buf_inv_def)

lemma peek_at_in:
  "buf_wf b \<Longrightarrow> off + n \<le> readableBytes b \<Longrightarrow> peek_at b off n = Inr (mslice off n (contents b))"
  using buf_wfD [of b]
  by (auto simp: readable_eq peek_at_def mem_read_def contents_def mslice_def drop_take
      min_def add.commute)

lemma retrieveAsString_ok:
  "buf_inv b \<Longrightarrow> n \<le> readableBytes b \<Longrightarrow>
   retrieveAsString n b = Inr (take n (contents b), retrieve n b)"
  by (simp add: retrieveAsString_def peek_at_in buf_inv_wf) (simp add: mslice_def)

lemma retrieveAllAsString_ok:
  "buf_wf b \<Longrightarrow> retrieveAllAsString b = Inr (contents b, retrieveAll b)"
  by (simp add: retrieveAllAsString_def peek_at_in flip: length_contents)

section \<open>Making room and appending\<close>

lemma compact_ok:
  assumes inv: "buf_inv b" and r: "CHEAP_PREPEND < read_index b"
  shows "\<exists>m. mem_move (storage b) (read_index b) (write_index b) CHEAP_PREPEND = Inr m \<and>
     length m = length (storage b) \<and>
     mslice CHEAP_PREPEND (write_index b - read_index b) m = contents b"
proof -
  let ?d = "contents b"
  have len: "length ?d = write_index b - read_index b"
    using inv by (simp add: contents_def buf_inv_def)
  have "CHEAP_PREPEND + length ?d \<le> length (storage b)"
    using buf_invD [OF inv] r by (simp add: len)
  then obtain m where m: "mem_write (storage b) CHEAP_PREPEND ?d = Inr m"
    by (simp add: mem_write_def)
  have rd: "mem_read (storage b) (read_index b) (write_index b - read_index b) = Inr ?d"
    using inv by (simp add: mem_read_def contents_def buf_inv_def)
  have "mem_move (storage b) (read_index b) (write_index b) CHEAP_PREPEND = Inr m"
    using r by (simp add: mem_move_def rd m)
  moreover have "mslice CHEAP_PREPEND (length ?d) m = ?d"
    by (rule mem_write_mslice_same [OF m])
  ultimately show ?thesis using mem_write_length [OF m] by (simp add: len)
qed

lemma makeSpace_ok:
  assumes inv: "buf_inv b" and room: "has_room n b" and small: "writableBytes b < n"
  shows "\<exists>b'. makeSpace n b = Inr b' \<and> buf_inv b' \<and> contents b' = contents b \<and>
     write_index b' + n \<le> length (storage b') \<and> write_index b' \<le> write_index b \<and>
     length (storage b') = max (length (storage b)) (write_index b' + n)"
proof -
  note wf = buf_inv_wf [OF inv]
  have wr: "writableBytes b = length (storage b) - write_index b"
    and rd: "readableBytes b = write_index b - read_index b"
    using wf by (simp_all add: writable_eq readable_eq)
  have front: "size_sub (read_index b) CHEAP_PREPEND = read_index b - CHEAP_PREPEND"
    using inv by (simp add: buf_inv_def size_sub_exact VECTOR_MAX_def)
  have left: "size_add (writableBytes b) (read_index b - CHEAP_PREPEND) =
      writableBytes b + (read_index b - CHEAP_PREPEND)"
    by (rule size_add_exact) (use buf_invD [OF inv] in \<open>simp add: wr VECTOR_MAX_def\<close>)
  show ?thesis
  proof (cases "n \<le> writableBytes b + (read_index b - CHEAP_PREPEND)")
    case True
    with small have r: "CHEAP_PREPEND < read_index b" by simp
    from compact_ok [OF inv r] obtain m where
      m: "mem_move (storage b) (read_index b) (write_index b) CHEAP_PREPEND = Inr m"
      and lm: "length m = length (storage b)"
      and cm: "mslice CHEAP_PREPEND (write_index b - read_index b) m = contents b" by blast
    let ?w = "CHEAP_PREPEND + (write_index b - read_index b)"
    let ?b' = "b\<lparr>storage := m, read_index := CHEAP_PREPEND, write_index := ?w\<rparr>"
    have w: "size_add CHEAP_PREPEND (readableBytes b) = ?w"
      unfolding rd
      by (rule size_add_exact) (use buf_invD [OF inv] r in \<open>simp add: VECTOR_MAX_def\<close>)
    have "read_index b + readableBytes b = write_index b"
      using buf_invD [OF inv] by (simp add: rd)
    with True m have "makeSpace n b = Inr ?b'"
      by (simp add: makeSpace_def Let_def front left w)
    moreover have "buf_inv ?b'" "?w \<le> write_index b" "?w + n \<le> length (storage b)"
      using buf_invD [OF inv] r True by (auto simp: buf_inv_def lm wr)
    moreover have "contents ?b' = contents b"
      using cm by (simp add: contents_def)
    ultimately show ?thesis by (simp add: lm max_def)
  next
    case False
    have grow: "length (storage b) \<le> write_index b + n" using small by (simp add: wr)
    have w: "size_add (write_index b) n = write_index b + n"
      using room by (simp add: has_room_def size_add_exact VECTOR_MAX_def)
    have "vec_resize (storage b) (write_index b + n) =
        Inr (storage b @ replicate (write_index b + n - length (storage b)) 0)"
      using grow room by (simp add: vec_resize_grow has_room_def)
    with False inv room grow show ?thesis
      by (simp add: makeSpace_def Let_def front left w buf_inv_def has_room_def contents_def
          mslice_of_append1)
  qed
qed

lemma ensureWritableBytes_ok:
  assumes inv: "buf_inv b" and room: "has_room n b"
  shows "\<exists>b'. ensureWritableBytes n b = Inr b' \<and> buf_inv b' \<and> contents b' = contents b \<and>
     write_index b' + n \<le> length (storage b') \<and> write_index b' \<le> write_index b \<and>
     length (storage b') = max (length (storage b)) (write_index b' + n)"
proof (cases "n \<le> writableBytes b")
  case True
  then have "write_index b + n \<le> length (storage b)"
    using buf_invD [OF inv] by (simp add: writable_eq buf_inv_wf [OF inv])
  with True inv show ?thesis by (simp add: ensureWritableBytes_def)
next
  case False
  with makeSpace_ok [OF inv room] show ?thesis by (simp add: ensureWritableBytes_def)
qed

text \<open>Publishing \<open>n\<close> bytes that are already in place behind the write cursor.\<close>

lemma hasWritten_ok:
  assumes inv: "buf_inv b" and fits: "write_index b + n \<le> length (storage b)"
  shows "buf_inv (hasWritten n b)"
    and "write_index (hasWritten n b) = write_index b + n"
    and "contents (hasWritten n b) = contents b @ mslice (write_index b) n (storage b)"
proof -
  have w: "size_add (write_index b) n = write_index b + n"
    by (rule size_add_exact) (use buf_invD [OF inv] fits in \<open>simp add: VECTOR_MAX_def\<close>)
  show "buf_inv (hasWritten n b)"
    using buf_invD [OF inv] fits by (simp add: hasWritten_def w buf_inv_def)
  show "write_index (hasWritten n b) = write_index b + n"
    by (simp add: hasWritten_def w)
  have "write_index b + n - read_index b = (write_index b - read_index b) + n"
    using buf_invD [OF inv] by simp
  then show "contents (hasWritten n b) = contents b @ mslice (write_index b) n (storage b)"
    using buf_invD(2) [OF inv]
      mslice_append_split [of "read_index b" "write_index b - read_index b" n "storage b"]
    by (simp add: hasWritten_def w contents_def)
qed

lemma storage_hasWritten [simp]: "storage (hasWritten n b) = storage b"
  by (simp add: hasWritten_def)

lemma write_at_ok:
  assumes inv: "buf_inv b" and fits: "write_index b + off + length d \<le> length (storage b)"
  shows "\<exists>m. mem_write (storage b) (write_index b + off) d = Inr m \<and>
     write_at off d b = Inr (b\<lparr>storage := m\<rparr>) \<and> buf_inv (b\<lparr>storage := m\<rparr>) \<and>
     contents (b\<lparr>storage := m\<rparr>) = contents b \<and> length m = length (storage b)"
proof -
  obtain m where m: "mem_write (storage b) (write_index b + off) d = Inr m"
    using fits by (simp add: mem_write_def)
  have "read_index b + (write_index b - read_index b) \<le> write_index b + off"
    using buf_invD [OF inv] by simp
  then have "contents (b\<lparr>storage := m\<rparr>) = contents b"
    by (simp add: contents_def mem_write_mslice_before [OF m])
  with m inv show ?thesis
    by (simp add: write_at_def buf_inv_def mem_write_length [OF m])
qed

lemma buf_append_alt:
  "buf_append d b = bind_res (ensureWritableBytes (length d) b)
     (\<lambda>b1. bind_res (write_at 0 d b1) (\<lambda>b2. Inr (hasWritten (length d) b2)))"
  by (simp add: buf_append_def write_at_def hasWritten_def bind_res_assoc)

lemma buf_append_ok:
  assumes inv: "buf_inv b" and room: "has_room (length d) b"
  shows "\<exists>b'. buf_append d b = Inr b' \<and> buf_inv b' \<and> contents b' = contents b @ d \<and>
     write_index b' \<le> write_index b + length d \<and>
     length (storage b') = max (length (storage b)) (write_index b')"
proof -
  from ensureWritableBytes_ok [OF assms] obtain b1 where
    b1: "ensureWritableBytes (length d) b = Inr b1" "buf_inv b1" "contents b1 = contents b"
      "write_index b1 + length d \<le> length (storage b1)" "write_index b1 \<le> write_index b"
      "length (storage b1) = max (length (storage b)) (write_index b1 + length d)" by blast
  from write_at_ok [OF b1(2), of 0 d] b1(4) obtain m where
    m: "mem_write (storage b1) (write_index b1) d = Inr m"
      "write_at 0 d b1 = Inr (b1\<lparr>storage := m\<rparr>)" "buf_inv (b1\<lparr>storage := m\<rparr>)"
      "contents (b1\<lparr>storage := m\<rparr>) = contents b1" "length m = length (storage b1)"
    by auto
  note pub = hasWritten_ok [OF m(3), of "length d"]
  show ?thesis
    using b1 m pub mem_write_mslice_same [OF m(1)] by (simp add: buf_append_alt)
qed

text \<open>
  Bytes written behind the write cursor and not yet published: \<open>staged xs b0 b\<close> says that \<open>b\<close>
  is \<open>b0\<close> with \<open>xs\<close> written through \<open>beginWrite()\<close>.
\<close>

definition staged :: "byte list \<Rightarrow> buffer \<Rightarrow> buffer \<Rightarrow> bool" where
  "staged xs b0 b \<longleftrightarrow> buf_inv b \<and> contents b = contents b0 \<and> write_index b = write_index b0 \<and>
     length (storage b) = length (storage b0) \<and>
     mslice (write_index b0) (length xs) (storage b) = xs"

lemma staged_start: "buf_inv b \<Longrightarrow> staged [] b b"
  by (simp add: staged_def)

lemma write_at_staged:
  assumes st: "staged xs b0 b"
    and fits: "write_index b0 + length xs + length d \<le> length (storage b0)"
  shows "\<exists>b'. write_at (length xs) d b = Inr b' \<and> staged (xs @ d) b0 b'"
proof -
  let ?w = "write_index b0"
  from st have inv: "buf_inv b" and w: "write_index b = ?w"
    and l: "length (storage b) = length (storage b0)" by (simp_all add: staged_def)
  from write_at_ok [OF inv, of "length xs" d] fits w l obtain m where
    m: "mem_write (storage b) (?w + length xs) d = Inr m" "write_at (length xs) d b = Inr (b\<lparr>storage := m\<rparr>)"
      "buf_inv (b\<lparr>storage := m\<rparr>)" "contents (b\<lparr>storage := m\<rparr>) = contents b"
      "length m = length (storage b)" by auto
  have "mslice ?w (length xs) m = xs"
    using st mem_write_mslice_before [OF m(1), of ?w "length xs"] by (simp add: staged_def)
  then have "mslice ?w (length (xs @ d)) m = xs @ d"
    using mem_write_mslice_same [OF m(1)] by (simp add: mslice_append_split)
  with m st show ?thesis by (simp add: staged_def)
qed

lemma staged_read:
  assumes "staged xs b0 b" and "off + n \<le> length xs"
    and "write_index b0 + length xs \<le> length (storage b0)"
  shows "mem_read (storage b) (write_index b + off) n = Inr (mslice off n xs)"
proof -
  from assms have eq: "mslice (write_index b) (length xs) (storage b) = xs"
    and w: "write_index b = write_index b0" and l: "length (storage b) = length (storage b0)"
    by (simp_all add: staged_def)
  have "mslice off n xs = mslice off n (mslice (write_index b) (length xs) (storage b))"
    by (simp add: eq)
  also have "\<dots> = mslice (write_index b + off) n (storage b)"
    using assms(2) by (simp add: mslice_def drop_take min_def add.commute)
  finally show ?thesis using assms(2,3) by (simp add: mem_read_def w l)
qed

lemma hasWritten_staged:
  assumes st: "staged xs b0 b" and fits: "write_index b0 + length xs \<le> length (storage b0)"
  shows "buf_inv (hasWritten (length xs) b)"
    and "contents (hasWritten (length xs) b) = contents b0 @ xs"
  using st hasWritten_ok [of b "length xs"] fits by (simp_all add: staged_def)

section \<open>Prepending\<close>

lemma prepend_ok:
  assumes wf: "buf_wf b" and fits: "length d \<le> prependableBytes b"
  shows "\<exists>b'. prepend d b = Inr b' \<and> buf_wf b' \<and> contents b' = d @ contents b \<and>
     read_index b' = read_index b - length d"
proof -
  let ?r = "read_index b - length d"
  have r: "size_sub (read_index b) (length d) = ?r"
    by (rule size_sub_exact)
      (use fits buf_wfD [OF wf] in \<open>simp_all add: prependableBytes_def VECTOR_MAX_def\<close>)
  have in_bounds: "?r + length d = read_index b"
    using fits by (simp add: prependableBytes_def)
  obtain m where m: "mem_write (storage b) ?r d = Inr m"
    using buf_wfD [OF wf] in_bounds by (simp add: mem_write_def)
  have "write_index b - ?r = length d + (write_index b - read_index b)"
    using buf_wfD [OF wf] in_bounds by simp
  then have "mslice ?r (write_index b - ?r) m = d @ contents b"
    using mslice_append_split [of ?r "length d" "write_index b - read_index b" m]
    by (simp add: in_bounds contents_def mem_write_mslice_same [OF m]
        mem_write_mslice_after [OF m])
  with m fits wf show ?thesis
    by (auto simp: prepend_def Let_def r buf_wf_def contents_def mem_write_length [OF m])
qed

text \<open>
  After a \<open>prepend\<close> into the reserved front the read cursor is below \<open>CHEAP_PREPEND\<close>, and
  the subtraction in \<open>makeSpace\<close> wraps around: the space left looks almost \<open>2 ^ 64\<close>.
\<close>

lemma space_left_wraps:
  assumes wf: "buf_wf b" and r: "read_index b < CHEAP_PREPEND"
    and small: "writableBytes b < CHEAP_PREPEND - read_index b"
  shows "size_add (writableBytes b) (size_sub (read_index b) CHEAP_PREPEND) =
     2 ^ 64 - (CHEAP_PREPEND - read_index b - writableBytes b)"
proof -
  have "size_sub (read_index b) CHEAP_PREPEND = 2 ^ 64 - (CHEAP_PREPEND - read_index b)"
    using r by (simp add: size_sub_wraps CHEAP_PREPEND_def)
  with r small show ?thesis by (simp add: size_add_def CHEAP_PREPEND_def)
qed

lemma makeSpace_wrapped_faults:
  assumes wf: "buf_wf b" and r: "read_index b < CHEAP_PREPEND"
    and small: "writableBytes b < CHEAP_PREPEND - read_index b" and n: "n \<le> VECTOR_MAX"
    and data: "contents b \<noteq> []"
  shows "\<not> is_ok (makeSpace n b)"
proof -
  have "n \<le> 2 ^ 64 - (CHEAP_PREPEND - read_index b - writableBytes b)"
    using n by (simp add: VECTOR_MAX_def CHEAP_PREPEND_def)
  then have branch: "makeSpace n b =
      bind_res (mem_move (storage b) (read_index b) (read_index b + readableBytes b) CHEAP_PREPEND)
        (\<lambda>m. Inr (b\<lparr>storage := m, read_index := CHEAP_PREPEND,
                     write_index := size_add CHEAP_PREPEND (readableBytes b)\<rparr>))"
    by (simp add: makeSpace_def Let_def space_left_wraps [OF wf r small])
  have len: "read_index b + readableBytes b = write_index b"
    using buf_wfD [OF wf] by (simp add: readable_eq wf)
  have "\<not> is_ok (mem_move (storage b) (read_index b) (write_index b) CHEAP_PREPEND)"
  proof (cases "CHEAP_PREPEND < write_index b")
    case True
    with r show ?thesis by (simp add: mem_move_def)
  next
    case False
    have "length (storage b) < CHEAP_PREPEND + (write_index b - read_index b)"
      using small buf_wfD [OF wf] r by (simp add: writable_eq wf)
    then show ?thesis
      by (auto simp: mem_move_def mem_read_def mem_write_def is_ok_def bind_res_def split: sum.splits)
  qed
  then show ?thesis by (auto simp: branch len is_ok_iff bind_res_eq_Inr)
qed

section \<open>Reading from and writing to a descriptor\<close>

lemma readFd_direct:
  assumes inv: "buf_inv b" and fits: "length bs \<le> writableBytes b"
  shows "\<exists>b'. readFd (ReadBytes bs) b = Inr (int (length bs), None, b') \<and> buf_inv b' \<and>
     contents b' = contents b @ bs \<and> write_index b' \<le> write_index b + length bs"
proof -
  have "write_index b + 0 + length bs \<le> length (storage b)"
    using fits buf_invD [OF inv] by (simp add: writable_eq buf_inv_wf [OF inv])
  from write_at_ok [OF inv this] obtain m where
    m: "mem_write (storage b) (write_index b) bs = Inr m" "buf_inv (b\<lparr>storage := m\<rparr>)"
      "contents (b\<lparr>storage := m\<rparr>) = contents b" "length m = length (storage b)" by auto
  have "write_index (b\<lparr>storage := m\<rparr>) + length bs \<le> length (storage (b\<lparr>storage := m\<rparr>))"
    using \<open>write_index b + 0 + length bs \<le> length (storage b)\<close> m(4) by simp
  note pub = hasWritten_ok [OF m(2) this]
  have "readFd (ReadBytes bs) b =
      Inr (int (length bs), None, hasWritten (length bs) (b\<lparr>storage := m\<rparr>))"
    using fits m(1) by (simp add: readFd_def Let_def hasWritten_def)
  with pub m(3) mem_write_mslice_same [OF m(1)] show ?thesis by simp
qed

lemma readFd_overflow:
  assumes inv: "buf_inv b" and big: "writableBytes b < length bs"
    and kernel: "length bs \<le> writableBytes b + EXTRA_SIZE" and room: "has_room (length bs) b"
  shows "\<exists>b'. readFd (ReadBytes bs) b = Inr (int (length bs), None, b') \<and> buf_inv b' \<and>
     contents b' = contents b @ bs \<and> write_index b' \<le> write_index b + length bs"
proof -
  let ?w = "writableBytes b"
  have w: "write_index b + ?w = length (storage b)"
    using buf_invD [OF inv] by (simp add: writable_eq buf_inv_wf [OF inv])
  have len: "length (take ?w bs) = ?w" using big by simp
  from write_at_ok [OF inv, of 0 "take ?w bs"] w len obtain m where
    m: "mem_write (storage b) (write_index b) (take ?w bs) = Inr m" "buf_inv (b\<lparr>storage := m\<rparr>)"
      "contents (b\<lparr>storage := m\<rparr>) = contents b" "length m = length (storage b)"
    by auto
  let ?b1 = "hasWritten ?w (b\<lparr>storage := m\<rparr>)"
  have "write_index (b\<lparr>storage := m\<rparr>) + ?w \<le> length (storage (b\<lparr>storage := m\<rparr>))"
    using w m(4) by simp
  note pub = hasWritten_ok [OF m(2) this]
  have b1: "?b1 = b\<lparr>storage := m, write_index := length m\<rparr>"
    using pub(2) w m(4) by (simp add: hasWritten_def)
  have c1: "contents ?b1 = contents b @ take ?w bs"
    using pub(3) m(3) mem_write_mslice_same [OF m(1)] len by simp
  have "has_room (length (drop ?w bs)) ?b1"
    using room big w pub(2) by (simp add: has_room_def)
  from buf_append_ok [OF pub(1) this] obtain b' where
    b': "buf_append (drop ?w bs) ?b1 = Inr b'" "buf_inv b'"
      "contents b' = contents ?b1 @ drop ?w bs"
      "write_index b' \<le> write_index ?b1 + length (drop ?w bs)" by blast
  have "readFd (ReadBytes bs) b = Inr (int (length bs), None, b')"
    using big kernel m(1) b'(1) by (simp add: readFd_def Let_def b1 EXTRA_SIZE_def)
  with b'(2,3,4) c1 pub(2) w big show ?thesis by simp
qed

lemma readFd_ok:
  assumes "buf_inv b" and "length bs \<le> writableBytes b + EXTRA_SIZE" and "has_room (length bs) b"
  shows "\<exists>b'. readFd (ReadBytes bs) b = Inr (int (length bs), None, b') \<and> buf_inv b' \<and>
     contents b' = contents b @ bs \<and> write_index b' \<le> write_index b + length bs"
  using assms readFd_direct readFd_overflow by (cases "length bs \<le> writableBytes b") auto

section \<open>The interface of a byte buffer\<close>

text \<open>
  What a client relies on: an invariant, the bytes held, room for more, and the two operations
  that add bytes at the end and take bytes from the front. A client that only uses the
  interface sees a first-in first-out stream, however the cursors move underneath.
\<close>

datatype buf_op = Put "byte list" | Get nat

fun run_ops ::
  "(byte list \<Rightarrow> 'b \<Rightarrow> 'b res) \<Rightarrow> (nat \<Rightarrow> 'b \<Rightarrow> (byte list \<times> 'b) res) \<Rightarrow> buf_op list \<Rightarrow> 'b \<Rightarrow>
   (byte list \<times> 'b) res" where
  "run_ops put get [] b = Inr ([], b)"
| "run_ops put get (Put d # ops) b = bind_res (put d b) (run_ops put get ops)"
| "run_ops put get (Get n # ops) b =
     bind_res (get n b) (\<lambda>(out, b1).
       bind_res (run_ops put get ops b1) (\<lambda>(outs, b2). Inr (out @ outs, b2)))"

fun put_bytes :: "buf_op list \<Rightarrow> byte list" where
  "put_bytes [] = []"
| "put_bytes (Put d # ops) = d @ put_bytes ops"
| "put_bytes (Get n # ops) = put_bytes ops"

text \<open>No operation asks for more bytes than are there, when \<open>k\<close> are there at the start.\<close>

fun gets_covered :: "nat \<Rightarrow> buf_op list \<Rightarrow> bool" where
  "gets_covered k [] = True"
| "gets_covered k (Put d # ops) = gets_covered (k + length d) ops"
| "gets_covered k (Get n # ops) = (n \<le> k \<and> gets_covered (k - n) ops)"

locale byte_buffer =
  fixes inv :: "'b \<Rightarrow> bool"
    and bytes :: "'b \<Rightarrow> byte list"
    and room :: "nat \<Rightarrow> 'b \<Rightarrow> bool"
    and put :: "byte list \<Rightarrow> 'b \<Rightarrow> 'b res"
    and get :: "nat \<Rightarrow> 'b \<Rightarrow> (byte list \<times> 'b) res"
  assumes put_law: "inv b \<Longrightarrow> room (length d + k) b \<Longrightarrow>
      \<exists>b'. put d b = Inr b' \<and> inv b' \<and> bytes b' = bytes b @ d \<and> room k b'"
    and get_law: "inv b \<Longrightarrow> n \<le> length (bytes b) \<Longrightarrow>
      \<exists>b'. get n b = Inr (take n (bytes b), b') \<and> inv b' \<and> bytes b' = drop n (bytes b) \<and>
           (\<forall>k. room k b \<longrightarrow> room k b')"
begin

lemma run_ops_fifo:
  "inv b \<Longrightarrow> room (length (put_bytes ops)) b \<Longrightarrow> gets_covered (length (bytes b)) ops \<Longrightarrow>
   \<exists>out b'. run_ops put get ops b = Inr (out, b') \<and> inv b' \<and>
     out @ bytes b' = bytes b @ put_bytes ops"
proof (induction ops arbitrary: b)
  case Nil
  then show ?case by simp
next
  case (Cons oper ops)
  show ?case
  proof (cases oper)
    case (Put d)
    with Cons.prems put_law [of b d "length (put_bytes ops)"] obtain b1 where
      b1: "put d b = Inr b1" "inv b1" "bytes b1 = bytes b @ d" "room (length (put_bytes ops)) b1"
      by auto
    moreover have "gets_covered (length (bytes b1)) ops" using Cons.prems Put b1 by simp
    ultimately show ?thesis using Cons.IH [of b1] Put by auto
  next
    case (Get n)
    with Cons.prems have n: "n \<le> length (bytes b)" by simp
    with Cons.prems Get get_law [of b n] obtain b1 where
      b1: "get n b = Inr (take n (bytes b), b1)" "inv b1" "bytes b1 = drop n (bytes b)"
        "room (length (put_bytes ops)) b1" by auto
    moreover have "gets_covered (length (bytes b1)) ops" using Cons.prems Get b1 by simp
    ultimately obtain outs b' where "run_ops put get ops b1 = Inr (outs, b')" "inv b'"
      "outs @ bytes b' = bytes b1 @ put_bytes ops" using Cons.IH [of b1] by auto
    moreover have "take n (bytes b) @ bytes b1 = bytes b" using b1(3) by simp
    ultimately show ?thesis using Get b1(1) by simp
  qed
qed

lemma run_ops_prefix:
  assumes "inv b" and "bytes b = []" and "room (length (put_bytes ops)) b" and "gets_covered 0 ops"
  shows "\<exists>out b'. run_ops put get ops b = Inr (out, b') \<and> out = take (length out) (put_bytes ops)"
  using run_ops_fifo [of b ops] assms by (metis append_eq_conv_conj append_Nil list.size(3))

end

interpretation buf: byte_buffer buf_inv contents has_room buf_append retrieveAsString
proof unfold_locales
  fix b :: buffer and d :: "byte list" and k :: nat
  assume inv: "buf_inv b" and room: "has_room (length d + k) b"
  then have "has_room (length d) b" by (simp add: has_room_def)
  from buf_append_ok [OF inv this] room
  show "\<exists>b'. buf_append d b = Inr b' \<and> buf_inv b' \<and> contents b' = contents b @ d \<and> has_room k b'"
    by (auto simp: has_room_def)
next
  fix b :: buffer and n :: nat
  assume inv: "buf_inv b" and "n \<le> length (contents b)"
  then have "retrieveAsString n b = Inr (take n (contents b), retrieve n b)"
    by (simp add: retrieveAsString_ok length_contents buf_inv_wf)
  with inv retrieve_write_index_le [OF inv, of n]
  show "\<exists>b'. retrieveAsString n b = Inr (take n (contents b), b') \<and> buf_inv b' \<and>
      contents b' = drop n (contents b) \<and> (\<forall>k. has_room k b \<longrightarrow> has_room k b')"
    by (auto simp: retrieve_inv contents_retrieve buf_inv_wf has_room_def intro: order_trans)
qed

lemma Buffer_new_ok:
  "n \<le> VECTOR_MAX - CHEAP_PREPEND \<Longrightarrow>
   \<exists>b. Buffer_new n = Inr b \<and> buf_inv b \<and> contents b = [] \<and> write_index b = CHEAP_PREPEND"
  by (simp add: Buffer_new_def size_add_exact vec_resize_def buf_inv_def contents_def limit_defs)

section \<open>Properties\<close>

text \<open>
  Property C17. A fresh buffer that goes through any sequence of appends and reads (none asking
  for more than is there) hands the bytes out in the order they were appended, without loss,
  duplication or an access outside its storage; what has not been read is still inside.
\<close>

theorem buffer_is_fifo:
  assumes "n \<le> VECTOR_MAX - CHEAP_PREPEND"
    and "CHEAP_PREPEND + length (put_bytes ops) \<le> VECTOR_MAX"
    and "gets_covered 0 ops"
  shows "\<exists>b out b'. Buffer_new n = Inr b \<and>
     run_ops buf_append retrieveAsString ops b = Inr (out, b') \<and> buf_inv b' \<and>
     out @ contents b' = put_bytes ops"
proof -
  from Buffer_new_ok [OF assms(1)] obtain b where
    b: "Buffer_new n = Inr b" "buf_inv b" "contents b = []" "write_index b = CHEAP_PREPEND" by blast
  have "has_room (length (put_bytes ops)) b" using assms(2) b(4) by (simp add: has_room_def)
  with buf.run_ops_fifo [of b ops] b assms(3) show ?thesis by auto
qed

theorem buffer_is_fifo_witness:
  "\<exists>b out b'. Buffer_new 4 = Inr b \<and>
     run_ops buf_append retrieveAsString [Put [1, 2, 3], Get 2, Put [4, 5, 6, 7], Get 4] b =
       Inr (out, b') \<and> buf_inv b' \<and> out @ contents b' = [1, 2, 3, 4, 5, 6, 7]"
  using buffer_is_fifo [of 4 "[Put [1, 2, 3], Get 2, Put [4, 5, 6, 7], Get 4]"]
  by (simp add: VECTOR_MAX_def CHEAP_PREPEND_def)

text \<open>
  \<open>readFd\<close> on a buffer that satisfies the invariant, for any number of bytes the
  kernel can deliver into the free part and the 64 KiB overflow array, returns that number and
  leaves exactly the delivered bytes appended to the contents.
\<close>

theorem readFd_appends:
  assumes "buf_inv b" and "length bs \<le> writableBytes b + EXTRA_SIZE"
    and "write_index b + length bs \<le> VECTOR_MAX"
  shows "\<exists>b'. readFd (ReadBytes bs) b = Inr (int (length bs), None, b') \<and> buf_inv b' \<and>
     contents b' = contents b @ bs"
  using assms readFd_ok [of b bs] by (auto simp: has_room_def)

theorem readFd_appends_witness:
  "\<exists>b'. readFd (ReadBytes [5, 6, 7, 8]) \<lparr>storage = [0, 0, 0, 0, 0, 0, 0, 0, 0, 0], write_index = 9, read_index = 8\<rparr>
       = Inr (4, None, b') \<and> buf_inv b' \<and> contents b' = [0, 5, 6, 7, 8]"
  using readFd_appends [of "\<lparr>storage = [0, 0, 0, 0, 0, 0, 0, 0, 0, 0], write_index = 9, read_index = 8\<rparr>"
      "[5, 6, 7, 8]"]
  by (simp add: buf_eval)

text \<open>
  Property C31. After a \<open>prepend\<close> into the reserved front, an \<open>append\<close> that needs more than
  the free bytes at the end, when fewer bytes are free than were prepended, does not succeed:
  \<open>read_index_ - CHEAP_PREPEND\<close> wraps around in \<open>makeSpace\<close>, which then moves the data
  forward over itself or past the end of the vector instead of growing it.
\<close>

theorem append_after_prepend_faults:
  assumes "buf_wf b" and "read_index b < CHEAP_PREPEND" and "contents b \<noteq> []"
    and "writableBytes b < CHEAP_PREPEND - read_index b"
    and "writableBytes b < length d" and "length d \<le> VECTOR_MAX"
  shows "\<not> is_ok (buf_append d b)"
  using makeSpace_wrapped_faults [OF assms(1,2,4,6,3)] assms(5)
  by (auto simp: buf_append_def ensureWritableBytes_def is_ok_iff bind_res_eq_Inr)

theorem append_after_prepend_faults_witness:
  "\<exists>b. bind_res (Buffer_new 4) (\<lambda>b0. bind_res (buf_append [1, 2, 3, 4] b0) (prepend [9])) = Inr b \<and>
     \<not> is_ok (buf_append [5] b)"
proof -
  let ?b = "\<lparr>storage = [0, 0, 0, 0, 0, 0, 0, 9, 1, 2, 3, 4], write_index = 12, read_index = 7\<rparr>"
  have "bind_res (Buffer_new 4) (\<lambda>b0. bind_res (buf_append [1, 2, 3, 4] b0) (prepend [9])) = Inr ?b"
    by (simp add: buf_eval)
  moreover have "\<not> is_ok (buf_append [5] ?b)"
    by (rule append_after_prepend_faults)
      (simp_all add: buf_eval)
  ultimately show ?thesis by blast
qed

end
