(* ===== verification/Codec.thy ===== *)
theory Codec
  imports Buffer
begin

text \<open>
  The frame codec of \<open>net/protobuf/Codec.cpp\<close>. Protocol Buffers and zlib are not part of the
  repository: the calls the code makes into them are the fields of \<open>protobuf\<close> and the argument
  \<open>adler32\<close>. 32-bit fields are words; a length is read from them as \<open>int32_t\<close> (\<open>sint\<close>).
\<close>

section \<open>Big-endian 32-bit fields\<close>

text \<open>\<open>htobe32\<close> followed by a \<open>memcpy\<close> into the frame, and the way back.\<close>

definition be32_encode :: "32 word \<Rightarrow> byte list" where
  "be32_encode w = map of_nat
     [unat w div 2 ^ 24 mod 2 ^ 8, unat w div 2 ^ 16 mod 2 ^ 8, unat w div 2 ^ 8 mod 2 ^ 8,
      unat w mod 2 ^ 8]"

definition be32_decode :: "byte list \<Rightarrow> 32 word" where
  "be32_decode bs = of_nat (foldl (\<lambda>acc b. acc * 256 + unat b) 0 bs)"

text \<open>\<open>static_cast<int32_t>\<close> of a \<open>size_t\<close>, and the conversion of an \<open>int32_t\<close> to \<open>size_t\<close>.\<close>

definition int32_of_size :: "size_t \<Rightarrow> 32 word" where
  "int32_of_size n = of_nat n"

definition size_of_int32 :: "32 word \<Rightarrow> size_t" where
  "size_of_int32 w = nat (sint w mod 2 ^ 64)"

section \<open>Constants and external calls\<close>

definition HEADER_LEN :: size_t where
  "HEADER_LEN = 4"

definition NAME_LEN_SIZE :: size_t where
  "NAME_LEN_SIZE = 4"

definition CHECKSUM_LEN :: size_t where
  "CHECKSUM_LEN = 4"

definition MIN_LEN :: int where
  "MIN_LEN = 9"

definition MAX_LEN :: int where
  "MAX_LEN = 64 * 1024 * 1024"

datatype DecodeState = SUCCESS | INCOMPLETE | CHECKSUM_ERROR | INVALID_NAME | DECODE_ERROR

record ('d, 'm) protobuf =
  FindMessageTypeByName :: "byte list \<Rightarrow> 'd option"
  GetPrototype :: "'d \<Rightarrow> 'm option"
  ParseFromArray :: "'m \<Rightarrow> byte list \<Rightarrow> 'm option"
  GetTypeName :: "'m \<Rightarrow> byte list"
  GetDescriptor :: "'m \<Rightarrow> 'd"
  ByteSizeLong :: "'m \<Rightarrow> size_t"
  SerializeToArray :: "'m \<Rightarrow> size_t \<Rightarrow> byte list option"

type_synonym adler = "byte list \<Rightarrow> 32 word"

section \<open>Decoding\<close>

definition createMessage :: "('d, 'm) protobuf \<Rightarrow> byte list \<Rightarrow> 'm option" where
  "createMessage pb type_name =
     (case FindMessageTypeByName pb type_name of
        None \<Rightarrow> None
      | Some descriptor \<Rightarrow> GetPrototype pb descriptor)"

text \<open>
  \<open>decode_payload\<close> is the tail of \<open>Decode\<close> from the test of the name length on,
  \<open>decode_frame\<close> the part from the checksum on; \<open>total_len\<close> has been checked before them.
\<close>

definition decode_payload ::
  "('d, 'm) protobuf \<Rightarrow> size_t \<Rightarrow> buffer \<Rightarrow> (DecodeState \<times> 'm option \<times> buffer) res" where
  "decode_payload pb total_len b =
     bind_res (peek_at b HEADER_LEN NAME_LEN_SIZE) (\<lambda>field.
       let name_len = sint (be32_decode field); rest = retrieve (HEADER_LEN + total_len) b
       in if name_len \<le> 0 \<or> name_len > int total_len - int NAME_LEN_SIZE - int CHECKSUM_LEN
          then Inr (DECODE_ERROR, None, rest)
          else bind_res (peek_at b (HEADER_LEN + NAME_LEN_SIZE) (nat name_len)) (\<lambda>name.
            case createMessage pb name of
              None \<Rightarrow> Inr (INVALID_NAME, None, rest)
            | Some msg \<Rightarrow>
                bind_res (peek_at b (HEADER_LEN + NAME_LEN_SIZE + nat name_len)
                           (total_len - NAME_LEN_SIZE - nat name_len - CHECKSUM_LEN)) (\<lambda>payload.
                  case ParseFromArray pb msg payload of
                    None \<Rightarrow> Inr (DECODE_ERROR, None, rest)
                  | Some m \<Rightarrow> Inr (SUCCESS, Some m, rest))))"

definition decode_frame ::
  "('d, 'm) protobuf \<Rightarrow> adler \<Rightarrow> size_t \<Rightarrow> buffer \<Rightarrow> (DecodeState \<times> 'm option \<times> buffer) res" where
  "decode_frame pb adler32 total_len b =
     bind_res (peek_at b (HEADER_LEN + total_len - CHECKSUM_LEN) CHECKSUM_LEN) (\<lambda>field.
       bind_res (peek_at b HEADER_LEN (total_len - CHECKSUM_LEN)) (\<lambda>covered.
         if adler32 covered \<noteq> be32_decode field
         then Inr (CHECKSUM_ERROR, None, retrieve (HEADER_LEN + total_len) b)
         else decode_payload pb total_len b))"

definition Decode ::
  "('d, 'm) protobuf \<Rightarrow> adler \<Rightarrow> buffer \<Rightarrow> (DecodeState \<times> 'm option \<times> buffer) res" where
  "Decode pb adler32 b =
     (if readableBytes b < HEADER_LEN then Inr (INCOMPLETE, None, b)
      else bind_res (peek_at b 0 HEADER_LEN) (\<lambda>field.
        let total_len = sint (be32_decode field)
        in if total_len < MIN_LEN \<or> total_len > MAX_LEN
           then Inr (DECODE_ERROR, None, retrieveAll b)
           else if readableBytes b < HEADER_LEN + nat total_len
           then Inr (INCOMPLETE, None, b)
           else decode_frame pb adler32 (nat total_len) b))"

section \<open>Encoding\<close>

text \<open>
  The frame is written through \<open>beginWrite()\<close> into the free part of the buffer, the checksum is
  computed over what was written there, and only then is the write cursor moved. The early
  return of a failed serialisation leaves the cursor where it was.
\<close>

definition Encode :: "('d, 'm) protobuf \<Rightarrow> adler \<Rightarrow> 'm \<Rightarrow> buffer \<Rightarrow> buffer res" where
  "Encode pb adler32 msg out =
     (let type_name = GetTypeName pb msg;
          payload_size = int32_of_size (ByteSizeLong pb msg);
          name_len = int32_of_size (length type_name);
          total_size = int32_of_size (size_add (size_add (size_add NAME_LEN_SIZE
                         (size_of_int32 name_len)) (size_of_int32 payload_size)) CHECKSUM_LEN);
          frame_size = size_add (size_of_int32 total_size) HEADER_LEN;
          pos = HEADER_LEN + NAME_LEN_SIZE + length type_name
      in bind_res (ensureWritableBytes frame_size out) (\<lambda>b0.
         bind_res (write_at 0 (be32_encode total_size) b0) (\<lambda>b1.
         bind_res (write_at HEADER_LEN (be32_encode name_len) b1) (\<lambda>b2.
         bind_res (write_at (HEADER_LEN + NAME_LEN_SIZE) type_name b2) (\<lambda>b3.
           case SerializeToArray pb msg (size_of_int32 payload_size) of
             None \<Rightarrow> Inr b3
           | Some payload \<Rightarrow>
               bind_res (write_at pos payload b3) (\<lambda>b4.
               bind_res (mem_read (storage b4) (write_index b4 + HEADER_LEN)
                          (size_sub (size_of_int32 total_size) CHECKSUM_LEN)) (\<lambda>covered.
               bind_res (write_at (pos + size_of_int32 payload_size)
                          (be32_encode (adler32 covered)) b4) (\<lambda>b5.
                 Inr (hasWritten frame_size b5)))))))))"

section \<open>The frame format\<close>

text \<open>
  \<open>len | nameLen | typeName | payload | checksum\<close>, as the README gives it. A message is
  serialisable when Protocol Buffers serialises it to as many bytes as it announces and the
  length field fits in an \<open>int32_t\<close>; it is encodable when moreover its type has a name and the
  length stays within the limit that the decoder enforces.
\<close>

definition covered_bytes :: "byte list \<Rightarrow> byte list \<Rightarrow> byte list" where
  "covered_bytes name payload = be32_encode (of_nat (length name)) @ name @ payload"

definition frame :: "adler \<Rightarrow> byte list \<Rightarrow> byte list \<Rightarrow> byte list" where
  "frame adler32 name payload =
     (let covered = covered_bytes name payload
      in be32_encode (of_nat (length covered + CHECKSUM_LEN)) @ covered @
         be32_encode (adler32 covered))"

definition total_len_of :: "byte list \<Rightarrow> byte list \<Rightarrow> nat" where
  "total_len_of name payload = NAME_LEN_SIZE + length name + length payload + CHECKSUM_LEN"

definition serialisable :: "('d, 'm) protobuf \<Rightarrow> 'm \<Rightarrow> byte list \<Rightarrow> bool" where
  "serialisable pb m payload \<longleftrightarrow>
     SerializeToArray pb m (ByteSizeLong pb m) = Some payload \<and>
     length payload = ByteSizeLong pb m \<and> total_len_of (GetTypeName pb m) payload < 2 ^ 31"

definition encodable :: "('d, 'm) protobuf \<Rightarrow> 'm \<Rightarrow> byte list \<Rightarrow> bool" where
  "encodable pb m payload \<longleftrightarrow> serialisable pb m payload \<and> GetTypeName pb m \<noteq> [] \<and>
     int (total_len_of (GetTypeName pb m) payload) \<le> MAX_LEN"

text \<open>Documented behaviour of Protocol Buffers for a generated type: parsing inverts serialising.\<close>

definition parses_back :: "('d, 'm) protobuf \<Rightarrow> 'm \<Rightarrow> byte list \<Rightarrow> bool" where
  "parses_back pb m payload \<longleftrightarrow>
     (case createMessage pb (GetTypeName pb m) of
        None \<Rightarrow> False
      | Some fresh \<Rightarrow> ParseFromArray pb fresh payload = Some m)"

lemmas len_defs = HEADER_LEN_def NAME_LEN_SIZE_def CHECKSUM_LEN_def MIN_LEN_def MAX_LEN_def

section \<open>Fields round-trip\<close>

lemma length_be32_encode [simp]: "length (be32_encode w) = 4"
  by (simp add: be32_encode_def)

lemma four_digits:
  fixes n :: nat
  shows "((n div 2 ^ 24 * 256 + n div 2 ^ 16 mod 2 ^ 8) * 256 + n div 2 ^ 8 mod 2 ^ 8) * 256
    + n mod 2 ^ 8 = n"
proof -
  have "n div 2 ^ 16 = n div 2 ^ 24 * 256 + n div 2 ^ 16 mod 2 ^ 8"
    using div_mult_mod_eq [of "n div 2 ^ 16" 256] by (simp add: div_mult2_eq [symmetric])
  moreover have "n div 2 ^ 8 = n div 2 ^ 16 * 256 + n div 2 ^ 8 mod 2 ^ 8"
    using div_mult_mod_eq [of "n div 2 ^ 8" 256] by (simp add: div_mult2_eq [symmetric])
  moreover have "n = n div 2 ^ 8 * 256 + n mod 2 ^ 8"
    using div_mult_mod_eq [of n 256] by simp
  ultimately show ?thesis by simp
qed

lemma be32_decode_encode [simp]: "be32_decode (be32_encode w) = w"
proof -
  have "unat w < 2 ^ 32" using unsigned_less [of w, where ?'a = nat] by simp
  then have "unat w div 2 ^ 24 < 2 ^ 8" by simp
  with four_digits [of "unat w"]
  have "foldl (\<lambda>acc b. acc * 256 + unat b) 0 (be32_encode w) = unat w"
    by (simp add: be32_encode_def unat_of_nat)
  then show ?thesis by (simp add: be32_decode_def)
qed

lemma sint_int32: "n < 2 ^ 31 \<Longrightarrow> sint (of_nat n :: 32 word) = int n"
  by (simp add: signed_of_nat signed_take_bit_int_eq_self)

lemma size_int32 [size_arith]: "n < 2 ^ 31 \<Longrightarrow> size_of_int32 (of_nat n) = n"
  by (simp add: size_of_int32_def sint_int32)

section \<open>Decoding as a function of the readable bytes\<close>

text \<open>
  What \<open>Decode\<close> computes, without cursors: the verdict on the bytes \<open>cs\<close>, the message, and the
  bytes that stay. The checks come in the order of the code.
\<close>

definition parse_covered ::
  "('d, 'm) protobuf \<Rightarrow> byte list \<Rightarrow> DecodeState \<times> 'm option" where
  "parse_covered pb covered =
     (let name_len = sint (be32_decode (take 4 covered))
      in if name_len \<le> 0 \<or> name_len > int (length covered) - 4 then (DECODE_ERROR, None)
         else (case createMessage pb (take (nat name_len) (drop 4 covered)) of
                 None \<Rightarrow> (INVALID_NAME, None)
               | Some fresh \<Rightarrow>
                   (case ParseFromArray pb fresh (drop (4 + nat name_len) covered) of
                      None \<Rightarrow> (DECODE_ERROR, None)
                    | Some m \<Rightarrow> (SUCCESS, Some m))))"

definition parse_frame ::
  "('d, 'm) protobuf \<Rightarrow> adler \<Rightarrow> byte list \<Rightarrow> DecodeState \<times> 'm option \<times> byte list" where
  "parse_frame pb adler32 cs =
     (if length cs < 4 then (INCOMPLETE, None, cs)
      else let total = sint (be32_decode (take 4 cs))
           in if total < MIN_LEN \<or> total > MAX_LEN then (DECODE_ERROR, None, [])
              else if length cs < 4 + nat total then (INCOMPLETE, None, cs)
              else let body = mslice 4 (nat total) cs;
                       covered = take (nat total - 4) body;
                       rest = drop (4 + nat total) cs
                   in if adler32 covered \<noteq> be32_decode (drop (nat total - 4) body)
                      then (CHECKSUM_ERROR, None, rest)
                      else (let (st, m) = parse_covered pb covered in (st, m, rest)))"

lemma parse_covered_complete: "fst (parse_covered pb covered) \<noteq> INCOMPLETE"
  by (auto simp: parse_covered_def Let_def split: option.splits)

lemma decode_payload_refines:
  assumes inv: "buf_inv b" and len: "HEADER_LEN + n \<le> readableBytes b" and n: "9 \<le> n"
    and cov: "covered = mslice 4 (n - 4) (contents b)"
  shows "\<exists>b'. decode_payload pb n b =
     Inr (fst (parse_covered pb covered), snd (parse_covered pb covered), b') \<and>
     b' = retrieve (HEADER_LEN + n) b"
proof -
  note wf = buf_inv_wf [OF inv]
  have lcov: "length covered = n - 4"
    using len by (simp add: cov length_contents wf len_defs)
  have field: "peek_at b HEADER_LEN NAME_LEN_SIZE = Inr (take 4 covered)"
    using len n by (simp add: peek_at_in wf len_defs cov take_mslice)
  have name: "peek_at b (HEADER_LEN + NAME_LEN_SIZE) k = Inr (take k (drop 4 covered))"
    if "k \<le> n - 8" for k
    using len n that by (simp add: peek_at_in wf len_defs cov take_mslice drop_mslice)
  have payload: "peek_at b (HEADER_LEN + NAME_LEN_SIZE + k) (n - NAME_LEN_SIZE - k - CHECKSUM_LEN) =
      Inr (drop (4 + k) covered)" if "k \<le> n - 8" for k
    using len n that by (simp add: peek_at_in wf len_defs cov drop_mslice)
  define nl where "nl = sint (be32_decode (take 4 covered))"
  have limit: "int n - int NAME_LEN_SIZE - int CHECKSUM_LEN = int (length covered) - 4"
    using n by (simp add: lcov len_defs)
  show ?thesis
  proof (cases "nl \<le> 0 \<or> nl > int (length covered) - 4")
    case True
    then show ?thesis
      by (auto simp: decode_payload_def field limit parse_covered_def nl_def Let_def)
  next
    case False
    then have "nat nl \<le> n - 8" using n by (auto simp: lcov)
    then show ?thesis
      using False name [of "nat nl"] payload [of "nat nl"]
      by (auto simp: decode_payload_def field limit parse_covered_def Let_def
          nl_def [symmetric] split: option.splits)
  qed
qed

lemma Decode_refines:
  assumes inv: "buf_inv b"
  shows "\<exists>st m b'. Decode pb adler32 b = Inr (st, m, b') \<and> buf_inv b' \<and>
     (st, m, contents b') = parse_frame pb adler32 (contents b) \<and>
     write_index b' \<le> write_index b \<and> (st = INCOMPLETE \<longrightarrow> b' = b)"
proof -
  note wf = buf_inv_wf [OF inv]
  have lc: "length (contents b) = readableBytes b" by (rule length_contents [OF wf])
  define total where "total = sint (be32_decode (take 4 (contents b)))"
  show ?thesis
  proof (cases "readableBytes b < 4")
    case True
    then show ?thesis using inv by (auto simp: Decode_def parse_frame_def len_defs lc)
  next
    case have_header: False
    have header: "peek_at b 0 HEADER_LEN = Inr (take 4 (contents b))"
      using have_header by (simp add: peek_at_in wf len_defs mslice_def)
    show ?thesis
    proof (cases "total < MIN_LEN \<or> total > MAX_LEN \<or> readableBytes b < 4 + nat total")
      case True
      then show ?thesis
        using inv have_header header retrieveAll_inv [OF wf] retrieveAll_write_index_le [OF inv]
        by (auto simp: Decode_def parse_frame_def total_def [symmetric] lc Let_def HEADER_LEN_def)
    next
      case False
      let ?n = "nat total" and ?cs = "contents b"
      have n: "9 \<le> ?n" using False by (auto simp: MIN_LEN_def)
      have len: "HEADER_LEN + ?n \<le> readableBytes b" using False by (simp add: HEADER_LEN_def)
      have sum: "peek_at b (HEADER_LEN + ?n - CHECKSUM_LEN) CHECKSUM_LEN =
          Inr (drop (?n - 4) (mslice 4 ?n ?cs))"
        using len n by (simp add: peek_at_in wf len_defs drop_mslice)
      have cov: "peek_at b HEADER_LEN (?n - CHECKSUM_LEN) = Inr (take (?n - 4) (mslice 4 ?n ?cs))"
        using len n by (simp add: peek_at_in wf len_defs take_mslice)
      have cov_eq: "take (?n - 4) (mslice 4 ?n ?cs) = mslice 4 (?n - 4) ?cs"
        by (simp add: take_mslice)
      have "Decode pb adler32 b = decode_frame pb adler32 ?n b"
        using False have_header header
        by (simp add: Decode_def total_def [symmetric] Let_def HEADER_LEN_def)
      also have "\<dots> =
          (if adler32 (take (?n - 4) (mslice 4 ?n ?cs)) \<noteq> be32_decode (drop (?n - 4) (mslice 4 ?n ?cs))
           then Inr (CHECKSUM_ERROR, None, retrieve (HEADER_LEN + ?n) b)
           else decode_payload pb ?n b)"
        by (simp add: decode_frame_def sum cov)
      finally show ?thesis
        using False have_header retrieve_inv [OF inv] contents_retrieve [OF wf]
          retrieve_write_index_le [OF inv] decode_payload_refines [OF inv len n cov_eq, of pb]
          parse_covered_complete [of pb "take (?n - 4) (mslice 4 ?n ?cs)"]
        by (auto simp: parse_frame_def total_def [symmetric] lc Let_def
            HEADER_LEN_def split: prod.splits)
    qed
  qed
qed

section \<open>Frames are recognised\<close>

lemma length_covered_bytes: "length (covered_bytes name payload) + CHECKSUM_LEN = total_len_of name payload"
  by (simp add: covered_bytes_def total_len_of_def len_defs)

lemma frame_alt:
  "frame adler32 name payload =
     be32_encode (of_nat (total_len_of name payload)) @ covered_bytes name payload @
     be32_encode (adler32 (covered_bytes name payload))"
  by (simp add: frame_def Let_def length_covered_bytes del: of_nat_add)

lemma length_frame: "length (frame adler32 name payload) = HEADER_LEN + total_len_of name payload"
  using length_covered_bytes [of name payload] by (simp add: frame_alt len_defs)

lemma parse_covered_ok:
  assumes "name \<noteq> []" and "length name < 2 ^ 31"
    and "createMessage pb name = Some fresh" and "ParseFromArray pb fresh payload = Some m"
  shows "parse_covered pb (covered_bytes name payload) = (SUCCESS, Some m)"
  using assms by (simp add: parse_covered_def covered_bytes_def sint_int32 Let_def)

lemma frame_header:
  assumes "int (total_len_of name payload) \<le> MAX_LEN"
  shows "sint (be32_decode (take 4 (frame adler32 name payload @ rest))) =
     int (total_len_of name payload)"
  using assms by (simp add: frame_alt sint_int32 MAX_LEN_def)

lemma total_len_min: "name \<noteq> [] \<Longrightarrow> MIN_LEN \<le> int (total_len_of name payload)"
  by (cases name) (simp_all add: total_len_of_def len_defs)

lemma parse_frame_frame:
  assumes "encodable pb m payload" and "parses_back pb m payload"
  shows "parse_frame pb adler32 (frame adler32 (GetTypeName pb m) payload @ rest) =
     (SUCCESS, Some m, rest)"
proof -
  let ?name = "GetTypeName pb m"
  let ?cov = "covered_bytes ?name payload" and ?t = "total_len_of ?name payload"
  have name: "?name \<noteq> []" and size: "int ?t \<le> MAX_LEN"
    using assms(1) by (simp_all add: encodable_def)
  obtain fresh where fresh: "createMessage pb ?name = Some fresh" "ParseFromArray pb fresh payload = Some m"
    using assms(2) by (auto simp: parses_back_def split: option.splits)
  have "length ?name < 2 ^ 31"
    using size by (simp add: total_len_of_def MAX_LEN_def)
  then have pc: "parse_covered pb ?cov = (SUCCESS, Some m)"
    using name fresh by (intro parse_covered_ok)
  have lcov: "length ?cov = ?t - 4" "4 \<le> ?t"
    by (simp_all add: covered_bytes_def total_len_of_def len_defs)
  have lf: "length (frame adler32 ?name payload) = 4 + ?t"
    by (simp add: length_frame HEADER_LEN_def)
  have body: "mslice 4 ?t (frame adler32 ?name payload @ rest) = ?cov @ be32_encode (adler32 ?cov)"
    using lcov by (simp add: frame_alt mslice_def)
  show ?thesis
    using total_len_min [OF name, of payload] size frame_header [OF size, of adler32 rest] lf lcov
    by (simp add: parse_frame_def Let_def body pc)
qed

lemma parse_frame_prefix:
  assumes size: "int (total_len_of name payload) \<le> MAX_LEN" and name: "name \<noteq> []"
    and k: "k < length (frame adler32 name payload)"
  shows "parse_frame pb adler32 (take k (frame adler32 name payload)) =
     (INCOMPLETE, None, take k (frame adler32 name payload))"
proof (cases "k < 4")
  case True
  then show ?thesis using k by (simp add: parse_frame_def min_def)
next
  case False
  then have "take 4 (take k (frame adler32 name payload)) = take 4 (frame adler32 name payload @ [])"
    by (simp add: min_def)
  then have "sint (be32_decode (take 4 (take k (frame adler32 name payload)))) =
      int (total_len_of name payload)"
    using frame_header [OF size, of adler32 "[]"] by simp
  with False k total_len_min [OF name, of payload] size show ?thesis
    by (simp add: parse_frame_def Let_def length_frame HEADER_LEN_def)
qed

section \<open>Encoding writes the frame\<close>

text \<open>The size computations of \<open>Encode\<close> are exact for a serialisable message.\<close>

lemma encode_sizes:
  assumes "serialisable pb m payload"
  defines "name \<equiv> GetTypeName pb m"
  shows "size_of_int32 (int32_of_size (ByteSizeLong pb m)) = length payload"
    and "size_of_int32 (int32_of_size (length name)) = length name"
    and "size_add (size_add (size_add NAME_LEN_SIZE (length name)) (length payload)) CHECKSUM_LEN =
      total_len_of name payload"
    and "size_of_int32 (int32_of_size (total_len_of name payload)) = total_len_of name payload"
    and "size_add (total_len_of name payload) HEADER_LEN = HEADER_LEN + total_len_of name payload"
    and "size_sub (total_len_of name payload) CHECKSUM_LEN = length (covered_bytes name payload)"
proof -
  have t: "total_len_of name payload < 2 ^ 31" and p: "length payload = ByteSizeLong pb m"
    using assms by (simp_all add: serialisable_def)
  then have "length name + length payload + 8 < 2 ^ 31"
    by (simp add: total_len_of_def len_defs)
  then show "size_of_int32 (int32_of_size (ByteSizeLong pb m)) = length payload"
    and "size_of_int32 (int32_of_size (length name)) = length name"
    and "size_add (size_add (size_add NAME_LEN_SIZE (length name)) (length payload)) CHECKSUM_LEN =
      total_len_of name payload"
    by (simp_all add: int32_of_size_def size_int32 p [symmetric] size_add_def total_len_of_def len_defs)
  show "size_of_int32 (int32_of_size (total_len_of name payload)) = total_len_of name payload"
    and "size_add (total_len_of name payload) HEADER_LEN = HEADER_LEN + total_len_of name payload"
    using t by (simp_all add: int32_of_size_def size_int32 size_add_def len_defs)
  have "CHECKSUM_LEN \<le> total_len_of name payload" by (simp add: total_len_of_def)
  then show "size_sub (total_len_of name payload) CHECKSUM_LEN = length (covered_bytes name payload)"
    using t length_covered_bytes [of name payload] by (simp add: size_sub_exact)
qed

lemma Encode_ok:
  assumes inv: "buf_inv out" and enc: "serialisable pb m payload"
    and room: "has_room (length (frame adler32 (GetTypeName pb m) payload)) out"
  shows "\<exists>b'. Encode pb adler32 m out = Inr b' \<and> buf_inv b' \<and>
     contents b' = contents out @ frame adler32 (GetTypeName pb m) payload"
proof -
  let ?name = "GetTypeName pb m"
  let ?t = "total_len_of ?name payload" and ?cov = "covered_bytes ?name payload"
  let ?h = "be32_encode (int32_of_size ?t)" and ?nl = "be32_encode (int32_of_size (length ?name))"
  let ?sum = "be32_encode (adler32 ?cov)"
  note sizes = encode_sizes [OF enc]
  have fr: "frame adler32 ?name payload = ((((?h @ ?nl) @ ?name) @ payload) @ ?sum)"
    and cov: "?cov = ?nl @ ?name @ payload"
    by (simp_all add: frame_alt covered_bytes_def int32_of_size_def)
  have ser: "SerializeToArray pb m (length payload) = Some payload"
    using enc by (simp add: serialisable_def)
  from ensureWritableBytes_ok [OF inv room] obtain b0 where
    b0: "ensureWritableBytes (HEADER_LEN + ?t) out = Inr b0" "buf_inv b0" "contents b0 = contents out"
    and fits: "write_index b0 + length (frame adler32 ?name payload) \<le> length (storage b0)"
    by (auto simp: length_frame)
  have fits': "write_index b0 + (12 + length ?name + length payload) \<le> length (storage b0)"
    using fits by (simp add: fr)
  obtain b1 where b1: "write_at 0 ?h b0 = Inr b1" "staged ?h b0 b1"
    using write_at_staged [OF staged_start [OF b0(2)], of ?h] fits' by auto
  obtain b2 where b2: "write_at HEADER_LEN ?nl b1 = Inr b2" "staged (?h @ ?nl) b0 b2"
    using write_at_staged [OF b1(2), of ?nl] fits' by (auto simp: HEADER_LEN_def)
  obtain b3 where b3: "write_at (HEADER_LEN + NAME_LEN_SIZE) ?name b2 = Inr b3"
      "staged ((?h @ ?nl) @ ?name) b0 b3"
    using write_at_staged [OF b2(2), of ?name] fits' by (auto simp: len_defs)
  obtain b4 where b4: "write_at (HEADER_LEN + NAME_LEN_SIZE + length ?name) payload b3 = Inr b4"
      "staged (((?h @ ?nl) @ ?name) @ payload) b0 b4"
    using write_at_staged [OF b3(2), of payload] fits' by (auto simp: len_defs)
  have "mem_read (storage b4) (write_index b4 + HEADER_LEN) (length ?cov) = Inr ?cov"
    using staged_read [OF b4(2), of HEADER_LEN "length ?cov"] fits'
    by (simp add: cov HEADER_LEN_def mslice_def)
  moreover obtain b5 where
    b5: "write_at (HEADER_LEN + NAME_LEN_SIZE + length ?name + length payload) ?sum b4 = Inr b5"
      "staged (frame adler32 ?name payload) b0 b5"
    using write_at_staged [OF b4(2), of ?sum] fits' by (auto simp: len_defs fr add.assoc)
  ultimately have "Encode pb adler32 m out = Inr (hasWritten (length (frame adler32 ?name payload)) b5)"
    using b0(1) b1(1) b2(1) b3(1) b4(1)
    by (simp add: Encode_def Let_def sizes ser length_frame)
  with hasWritten_staged [OF b5(2) fits] b0(3) show ?thesis by simp
qed

text \<open>
  A protocol whose only type has the one-byte name \<open>[109]\<close> and whose messages are their own
  serialisation: the concrete instance at which the hypotheses about Protocol Buffers hold.
\<close>

definition raw_pb :: "(unit, byte list) protobuf" where
  "raw_pb = \<lparr>FindMessageTypeByName = (\<lambda>n. if n = [109] then Some () else None),
     GetPrototype = (\<lambda>_. Some []), ParseFromArray = (\<lambda>_ bs. Some bs), GetTypeName = (\<lambda>_. [109]),
     GetDescriptor = (\<lambda>_. ()), ByteSizeLong = length,
     SerializeToArray = (\<lambda>m n. if length m \<le> n then Some m else None)\<rparr>"

section \<open>Properties\<close>

text \<open>
  Property C4. \<open>Decode\<close> never reads outside the buffer, whatever bytes a peer sent: on every
  buffer that satisfies the invariant it returns, keeps the invariant, and its verdict, message
  and remaining bytes are those of the cursor-free parser.
\<close>

theorem Decode_refines_parser:
  assumes "buf_inv b"
  shows "\<exists>st m b'. Decode pb adler32 b = Inr (st, m, b') \<and> buf_inv b' \<and>
     (st, m, contents b') = parse_frame pb adler32 (contents b)"
  using Decode_refines [OF assms] by blast

theorem Decode_refines_parser_witness:
  "\<exists>st m b'. Decode raw_pb (\<lambda>_. 0)
       \<lparr>storage = [0, 0, 0, 0, 0, 0, 0, 0, 255, 255, 255, 255, 7], write_index = 13, read_index = 8\<rparr>
       = Inr (st, m, b') \<and> buf_inv b' \<and> (st, m, contents b') = (DECODE_ERROR, None, [])"
proof -
  let ?b = "\<lparr>storage = [0, 0, 0, 0, 0, 0, 0, 0, 255, 255, 255, 255, 7], write_index = 13, read_index = 8\<rparr>"
  have "buf_inv ?b" by (simp add: buf_eval)
  moreover have "parse_frame raw_pb (\<lambda>_. 0) (contents ?b) = (DECODE_ERROR, None, [])"
    by (simp add: parse_frame_def contents_def mslice_def be32_decode_def len_defs Let_def)
  ultimately show ?thesis using Decode_refines_parser [of ?b raw_pb "\<lambda>_. 0"] by simp
qed

text \<open>
  Property C5. Encoding a message behind whatever an output buffer already holds succeeds, and
  once the earlier bytes are drained, decoding that buffer gives the message back and leaves
  nothing.
\<close>

theorem codec_roundtrip:
  assumes "buf_inv out" and "encodable pb m payload" and "parses_back pb m payload"
    and "write_index out + HEADER_LEN + total_len_of (GetTypeName pb m) payload \<le> VECTOR_MAX"
  shows "\<exists>b' b''. Encode pb adler32 m out = Inr b' \<and> buf_inv b' \<and>
     take (length (contents out)) (contents b') = contents out \<and>
     Decode pb adler32 (retrieve (length (contents out)) b') = Inr (SUCCESS, Some m, b'') \<and>
     contents b'' = []"
proof -
  let ?f = "frame adler32 (GetTypeName pb m) payload"
  have "serialisable pb m payload" using assms(2) by (simp add: encodable_def)
  from Encode_ok [OF assms(1) this] assms(4) obtain b' where
    b': "Encode pb adler32 m out = Inr b'" "buf_inv b'" "contents b' = contents out @ ?f"
    by (auto simp: has_room_def length_frame add.assoc)
  then have "contents (retrieve (length (contents out)) b') = ?f @ []"
    by (simp add: contents_retrieve buf_inv_wf)
  then show ?thesis
    using b' Decode_refines [OF retrieve_inv [OF b'(2)], of pb adler32 "length (contents out)"]
      parse_frame_frame [OF assms(2,3), of adler32 "[]"] by auto
qed

theorem codec_roundtrip_witness:
  "\<exists>b' b''. Encode raw_pb (\<lambda>_. 7) [1, 2] \<lparr>storage = replicate 9 5, write_index = 9, read_index = 8\<rparr> = Inr b' \<and>
     buf_inv b' \<and> take 1 (contents b') = [5] \<and>
     Decode raw_pb (\<lambda>_. 7) (retrieve 1 b') = Inr (SUCCESS, Some [1, 2], b'') \<and> contents b'' = []"
proof -
  let ?b = "\<lparr>storage = replicate 9 (5 :: byte), write_index = 9, read_index = 8\<rparr>"
  have "buf_inv ?b" "contents ?b = [5]" by (simp_all add: buf_eval)
  moreover have "encodable raw_pb [1, 2] [1, 2]" "parses_back raw_pb [1, 2] [1, 2]"
    by (simp_all add: raw_pb_def encodable_def serialisable_def parses_back_def createMessage_def
        total_len_of_def len_defs)
  moreover have "write_index ?b + HEADER_LEN + total_len_of (GetTypeName raw_pb [1, 2]) [1, 2] \<le> VECTOR_MAX"
    by (simp add: raw_pb_def total_len_of_def len_defs VECTOR_MAX_def)
  ultimately show ?thesis
    using codec_roundtrip [of ?b raw_pb "[1, 2]" "[1, 2]" "\<lambda>_. 7"] by simp
qed

text \<open>
  \<open>Encode\<close> does not enforce the limit that \<open>Decode\<close> enforces: a message whose
  length field exceeds 64 MiB is encoded without an error, and the receiver answers the frame
  with \<open>DECODE_ERROR\<close> and throws away everything it has buffered.
\<close>

theorem oversized_message_encoded_but_refused:
  assumes "buf_inv out" and "serialisable pb m payload"
    and "int (total_len_of (GetTypeName pb m) payload) > MAX_LEN"
    and "write_index out + HEADER_LEN + total_len_of (GetTypeName pb m) payload \<le> VECTOR_MAX"
    and "contents out = []"
  shows "\<exists>b' b''. Encode pb adler32 m out = Inr b' \<and>
     Decode pb adler32 b' = Inr (DECODE_ERROR, None, b'') \<and> contents b'' = []"
proof -
  let ?t = "total_len_of (GetTypeName pb m) payload"
  from Encode_ok [OF assms(1,2)] assms(4,5) obtain b' where
    b': "Encode pb adler32 m out = Inr b'" "buf_inv b'" "contents b' = frame adler32 (GetTypeName pb m) payload"
    by (auto simp: has_room_def length_frame add.assoc)
  have "?t < 2 ^ 31" using assms(2) by (simp add: serialisable_def)
  then have "sint (be32_decode (take 4 (contents b'))) = int ?t"
    by (simp add: b'(3) frame_alt sint_int32)
  moreover have "4 \<le> length (contents b')" by (simp add: b'(3) frame_alt)
  ultimately have "parse_frame pb adler32 (contents b') = (DECODE_ERROR, None, [])"
    using assms(3) by (simp add: parse_frame_def Let_def)
  with Decode_refines [OF b'(2), of pb adler32] b'(1) show ?thesis by auto
qed

theorem oversized_message_encoded_but_refused_witness:
  "\<exists>b' b''. Encode raw_pb (\<lambda>_. 7) (replicate 67108864 0)
       \<lparr>storage = replicate 8 0, write_index = 8, read_index = 8\<rparr> = Inr b' \<and>
     Decode raw_pb (\<lambda>_. 7) b' = Inr (DECODE_ERROR, None, b'') \<and> contents b'' = []"
  by (rule oversized_message_encoded_but_refused [where payload = "replicate 67108864 0"])
    (simp_all add: raw_pb_def serialisable_def total_len_of_def len_defs buf_inv_def contents_def
      VECTOR_MAX_def CHEAP_PREPEND_def)

end
