(* ===== verification/ProtobufHandler.thy ===== *)
theory ProtobufHandler
  imports Codec
begin

text \<open>
  \<open>net/protobuf/Dispatcher.hpp\<close>, \<open>Dispatcher.cpp\<close> and \<open>ProtobufHandler.cpp\<close>. A callback is
  a number; a call of one is the pair of its number and the message. The decoding loop carries
  fuel, one unit for every frame it takes; one more unit than readable bytes is always enough.
\<close>

section \<open>Dispatching\<close>

type_synonym callback_id = nat

record 'd dispatcher =
  dispatcher_map :: "'d \<rightharpoonup> callback_id"
  default_cb :: "callback_id option"

definition Dispatcher_new :: "callback_id option \<Rightarrow> 'd dispatcher" where
  "Dispatcher_new cb = \<lparr>dispatcher_map = Map.empty, default_cb = cb\<rparr>"

definition RegisterMessageCallback :: "'d \<Rightarrow> callback_id \<Rightarrow> 'd dispatcher \<Rightarrow> 'd dispatcher" where
  "RegisterMessageCallback descriptor cb disp =
     disp\<lparr>dispatcher_map := (dispatcher_map disp)(descriptor \<mapsto> cb)\<rparr>"

text \<open>An empty default callback throws \<open>std::bad_function_call\<close>.\<close>

definition Dispatch ::
  "('d, 'm) protobuf \<Rightarrow> 'd dispatcher \<Rightarrow> 'm \<Rightarrow> (callback_id \<times> 'm) res" where
  "Dispatch pb disp msg =
     (case dispatcher_map disp (GetDescriptor pb msg) of
        Some cb \<Rightarrow> Inr (cb, msg)
      | None \<Rightarrow> (case default_cb disp of Some cb \<Rightarrow> Inr (cb, msg) | None \<Rightarrow> Inl BadFunctionCall))"

section \<open>The handler\<close>

fun OnMessage_loop ::
  "nat \<Rightarrow> ('d, 'm) protobuf \<Rightarrow> adler \<Rightarrow> 'd dispatcher \<Rightarrow> buffer \<Rightarrow>
   ((callback_id \<times> 'm) list \<times> buffer) res option" where
  "OnMessage_loop 0 pb adler32 disp b = None"
| "OnMessage_loop (Suc fuel) pb adler32 disp b =
     (if readableBytes b < HEADER_LEN then Some (Inr ([], b))
      else (case Decode pb adler32 b of
          Inl e \<Rightarrow> Some (Inl e)
        | Inr (st, m, b1) \<Rightarrow>
            if st = INCOMPLETE then Some (Inr ([], b1))
            else if st = SUCCESS then
              (case m of
                 None \<Rightarrow> Some (Inl NullDereference)
               | Some msg \<Rightarrow>
                   (case Dispatch pb disp msg of
                      Inl e \<Rightarrow> Some (Inl e)
                    | Inr call \<Rightarrow>
                        (case OnMessage_loop fuel pb adler32 disp b1 of
                           None \<Rightarrow> None
                         | Some r \<Rightarrow> Some (bind_res r (\<lambda>(calls, b2). Inr (call # calls, b2))))))
            else Some (Inr ([], b1))))"

definition OnMessage ::
  "('d, 'm) protobuf \<Rightarrow> adler \<Rightarrow> 'd dispatcher \<Rightarrow> buffer \<Rightarrow>
   ((callback_id \<times> 'm) list \<times> buffer) res option" where
  "OnMessage pb adler32 disp b = OnMessage_loop (Suc (readableBytes b)) pb adler32 disp b"

text \<open>\<open>Send\<close> encodes into the connection's send buffer, and does nothing else.\<close>

definition Send :: "('d, 'm) protobuf \<Rightarrow> adler \<Rightarrow> 'm \<Rightarrow> buffer \<Rightarrow> buffer res" where
  "Send pb adler32 msg send_buffer = Encode pb adler32 msg send_buffer"

section \<open>The handler stops\<close>

definition callee :: "('d, 'm) protobuf \<Rightarrow> 'd dispatcher \<Rightarrow> 'm \<Rightarrow> callback_id" where
  "callee pb disp m = (case dispatcher_map disp (GetDescriptor pb m) of
     Some cb \<Rightarrow> cb | None \<Rightarrow> (case default_cb disp of Some cb \<Rightarrow> cb | None \<Rightarrow> 0))"

lemma Dispatch_ok: "default_cb disp \<noteq> None \<Longrightarrow> Dispatch pb disp m = Inr (callee pb disp m, m)"
  by (auto simp: Dispatch_def callee_def split: option.splits)

lemma parse_covered_success: "parse_covered pb covered \<noteq> (SUCCESS, None)"
  by (auto simp: parse_covered_def Let_def split: option.splits)

lemma parse_frame_success_shrinks:
  assumes "parse_frame pb adler32 cs = (SUCCESS, m, rest)"
  shows "length rest < length cs" and "\<exists>msg. m = Some msg"
proof -
  define total where "total = sint (be32_decode (take 4 cs))"
  let ?cov = "take (nat total - 4) (mslice 4 (nat total) cs)"
  have long: "\<not> length cs < 4" and full: "\<not> length cs < 4 + nat total"
    and rest: "rest = drop (4 + nat total) cs" and cov: "parse_covered pb ?cov = (SUCCESS, m)"
    using assms unfolding parse_frame_def total_def [symmetric] Let_def
    by (simp_all split: if_splits prod.splits)
  from long full rest show "length rest < length cs" by simp
  from cov show "\<exists>msg. m = Some msg" by (cases m) (auto simp: parse_covered_success)
qed

lemma OnMessage_loop_total:
  assumes "default_cb disp \<noteq> None"
  shows "buf_inv b \<Longrightarrow> length (contents b) < fuel \<Longrightarrow>
    \<exists>calls b'. OnMessage_loop fuel pb adler32 disp b = Some (Inr (calls, b')) \<and> buf_inv b' \<and>
      write_index b' \<le> write_index b"
proof (induction fuel arbitrary: b)
  case 0
  then show ?case by simp
next
  case (Suc fuel)
  from Decode_refines [OF Suc.prems(1), of pb adler32] obtain st m b1 where
    d: "Decode pb adler32 b = Inr (st, m, b1)" "buf_inv b1" "write_index b1 \<le> write_index b"
      "parse_frame pb adler32 (contents b) = (st, m, contents b1)" by auto
  show ?case
  proof (cases "st = SUCCESS")
    case True
    with parse_frame_success_shrinks d(4) obtain msg where
      msg: "m = Some msg" "length (contents b1) < length (contents b)" by blast
    with Suc.IH [OF d(2)] Suc.prems(2) obtain calls b' where
      "OnMessage_loop fuel pb adler32 disp b1 = Some (Inr (calls, b'))" "buf_inv b'"
      "write_index b' \<le> write_index b1" by auto
    with True d msg Suc.prems(1) show ?thesis by (auto simp: Dispatch_ok [OF assms])
  next
    case False
    with d Suc.prems(1) show ?thesis by auto
  qed
qed

section \<open>Streams of frames\<close>

definition frame_of :: "('d, 'm) protobuf \<Rightarrow> adler \<Rightarrow> 'm \<Rightarrow> byte list" where
  "frame_of pb adler32 m =
     (case SerializeToArray pb m (ByteSizeLong pb m) of
        None \<Rightarrow> [] | Some payload \<Rightarrow> frame adler32 (GetTypeName pb m) payload)"

definition well_formed :: "('d, 'm) protobuf \<Rightarrow> 'm \<Rightarrow> bool" where
  "well_formed pb m \<longleftrightarrow>
     (case SerializeToArray pb m (ByteSizeLong pb m) of
        None \<Rightarrow> False | Some payload \<Rightarrow> encodable pb m payload \<and> parses_back pb m payload)"

definition stream_of :: "('d, 'm) protobuf \<Rightarrow> adler \<Rightarrow> 'm list \<Rightarrow> byte list" where
  "stream_of pb adler32 ms = concat (map (frame_of pb adler32) ms)"

lemma stream_of_simps [simp]:
  "stream_of pb adler32 [] = []"
  "stream_of pb adler32 (m # ms) = frame_of pb adler32 m @ stream_of pb adler32 ms"
  "stream_of pb adler32 (ms @ ns) = stream_of pb adler32 ms @ stream_of pb adler32 ns"
  by (simp_all add: stream_of_def)

lemma well_formed_frame:
  assumes "well_formed pb m"
  shows "parse_frame pb adler32 (frame_of pb adler32 m @ rest) = (SUCCESS, Some m, rest)"
    and "k < length (frame_of pb adler32 m) \<Longrightarrow>
      parse_frame pb adler32 (take k (frame_of pb adler32 m)) =
        (INCOMPLETE, None, take k (frame_of pb adler32 m))"
    and "4 < length (frame_of pb adler32 m)"
proof -
  obtain payload where p: "SerializeToArray pb m (ByteSizeLong pb m) = Some payload"
    "encodable pb m payload" "parses_back pb m payload"
    using assms by (auto simp: well_formed_def split: option.splits)
  then have f: "frame_of pb adler32 m = frame adler32 (GetTypeName pb m) payload"
    by (simp add: frame_of_def)
  from p(2,3) show "parse_frame pb adler32 (frame_of pb adler32 m @ rest) = (SUCCESS, Some m, rest)"
    unfolding f by (rule parse_frame_frame)
  from p(2) show "k < length (frame_of pb adler32 m) \<Longrightarrow>
      parse_frame pb adler32 (take k (frame_of pb adler32 m)) =
        (INCOMPLETE, None, take k (frame_of pb adler32 m))"
    unfolding f by (intro parse_frame_prefix) (simp_all add: encodable_def)
  show "4 < length (frame_of pb adler32 m)"
    by (simp add: f length_frame total_len_of_def len_defs)
qed

text \<open>
  The bytes received so far of a stream of frames: whole frames, and then a proper part of the
  next one.
\<close>

lemma stream_prefix:
  assumes "p @ q = stream_of pb adler32 ms" and "\<forall>m \<in> set ms. well_formed pb m"
  shows "\<exists>ds ts r. ms = ds @ ts \<and> p = stream_of pb adler32 ds @ r \<and>
     parse_frame pb adler32 r = (INCOMPLETE, None, r) \<and> r @ q = stream_of pb adler32 ts"
  using assms
proof (induction ms arbitrary: p)
  case Nil
  then show ?case by (simp add: parse_frame_def)
next
  case (Cons m ms)
  let ?f = "frame_of pb adler32 m"
  have wf: "well_formed pb m" using Cons.prems(2) by simp
  show ?case
  proof (cases "length p < length ?f")
    case True
    have "p = take (length p) (p @ q)" by simp
    also have "\<dots> = take (length p) ?f" using Cons.prems(1) True by simp
    finally have "p = take (length p) ?f" .
    then have "parse_frame pb adler32 p = (INCOMPLETE, None, p)"
      using well_formed_frame(2) [OF wf True] by simp
    then show ?thesis using Cons.prems(1)
      by (intro exI [of _ "[]"] exI [of _ "m # ms"] exI [of _ p]) simp
  next
    case False
    have split: "?f = take (length ?f) p" "drop (length ?f) p @ q = stream_of pb adler32 ms"
      using Cons.prems(1) False by (auto simp: append_eq_append_conv_if split: if_splits)
    then have p: "p = ?f @ drop (length ?f) p" by (metis append_take_drop_id)
    from Cons.IH [OF split(2)] Cons.prems(2) obtain ds ts r where
      "ms = ds @ ts" "drop (length ?f) p = stream_of pb adler32 ds @ r"
      "parse_frame pb adler32 r = (INCOMPLETE, None, r)" "r @ q = stream_of pb adler32 ts" by auto
    with p show ?thesis by (intro exI [of _ "m # ds"] exI [of _ ts] exI [of _ r]) simp
  qed
qed

lemma OnMessage_loop_stream:
  assumes cb: "default_cb disp \<noteq> None" and r: "parse_frame pb adler32 r = (INCOMPLETE, None, r)"
  shows "buf_inv b \<Longrightarrow> contents b = stream_of pb adler32 ms @ r \<Longrightarrow>
    \<forall>m \<in> set ms. well_formed pb m \<Longrightarrow> length ms < fuel \<Longrightarrow>
    \<exists>b'. OnMessage_loop fuel pb adler32 disp b =
        Some (Inr (map (\<lambda>m. (callee pb disp m, m)) ms, b')) \<and>
      buf_inv b' \<and> contents b' = r \<and> write_index b' \<le> write_index b"
proof (induction ms arbitrary: b fuel)
  case Nil
  then obtain f where fuel: "fuel = Suc f" by (cases fuel) auto
  from Decode_refines [OF Nil.prems(1), of pb adler32] obtain st m b1 where
    d: "Decode pb adler32 b = Inr (st, m, b1)" "(st, m, contents b1) = parse_frame pb adler32 (contents b)"
      "st = INCOMPLETE \<longrightarrow> b1 = b" by auto
  with r Nil.prems(2) have "Decode pb adler32 b = Inr (INCOMPLETE, None, b)" by simp
  with Nil.prems(1,2) show ?case by (simp add: fuel)
next
  case (Cons m ms)
  then obtain f where fuel: "fuel = Suc f" "length ms < f" by (cases fuel) auto
  have wf: "well_formed pb m" using Cons.prems(3) by simp
  have "4 < length (contents b)"
    using well_formed_frame(3) [OF wf, of adler32] Cons.prems(2) by simp
  then have header: "\<not> readableBytes b < HEADER_LEN"
    by (simp add: length_contents buf_inv_wf [OF Cons.prems(1)] HEADER_LEN_def)
  from Decode_refines [OF Cons.prems(1), of pb adler32] well_formed_frame(1) [OF wf] Cons.prems(2)
  obtain b1 where d: "Decode pb adler32 b = Inr (SUCCESS, Some m, b1)" "buf_inv b1"
    "contents b1 = stream_of pb adler32 ms @ r" "write_index b1 \<le> write_index b" by auto
  from Cons.IH [OF d(2,3) _ fuel(2)] Cons.prems(3) d(1,4) header show ?case
    by (auto simp: fuel(1) Dispatch_ok [OF cb])
qed

lemma length_stream_ge: "\<forall>m \<in> set ms. well_formed pb m \<Longrightarrow> length ms \<le> length (stream_of pb adler32 ms)"
proof (induction ms)
  case (Cons m ms)
  then show ?case using well_formed_frame(3) [of pb m adler32] by simp
qed simp

text \<open>
  The handler behind a connection: every chunk the kernel delivers is appended by \<open>readFd\<close> and
  the handler runs on what has been collected.
\<close>

fun receive_chunks ::
  "('d, 'm) protobuf \<Rightarrow> adler \<Rightarrow> 'd dispatcher \<Rightarrow> byte list list \<Rightarrow> buffer \<Rightarrow>
   ((callback_id \<times> 'm) list \<times> buffer) res option" where
  "receive_chunks pb adler32 disp [] b = Some (Inr ([], b))"
| "receive_chunks pb adler32 disp (c # cs) b =
     (case readFd (ReadBytes c) b of
        Inl e \<Rightarrow> Some (Inl e)
      | Inr (_, _, b1) \<Rightarrow>
          (case OnMessage pb adler32 disp b1 of
             None \<Rightarrow> None
           | Some (Inl e) \<Rightarrow> Some (Inl e)
           | Some (Inr (calls, b2)) \<Rightarrow>
               (case receive_chunks pb adler32 disp cs b2 of
                  None \<Rightarrow> None
                | Some r \<Rightarrow> Some (bind_res r (\<lambda>(more, b3). Inr (calls @ more, b3))))))"

lemma receive_chunks_stream:
  assumes cb: "default_cb disp \<noteq> None"
  shows "buf_inv b \<Longrightarrow> contents b @ concat chunks = stream_of pb adler32 ms \<Longrightarrow>
    \<forall>m \<in> set ms. well_formed pb m \<Longrightarrow> \<forall>c \<in> set chunks. length c \<le> EXTRA_SIZE \<Longrightarrow>
    parse_frame pb adler32 (contents b) = (INCOMPLETE, None, contents b) \<Longrightarrow>
    has_room (length (concat chunks)) b \<Longrightarrow>
    \<exists>b'. receive_chunks pb adler32 disp chunks b =
        Some (Inr (map (\<lambda>m. (callee pb disp m, m)) ms, b')) \<and> buf_inv b' \<and> contents b' = []"
proof (induction chunks arbitrary: b ms)
  case Nil
  show ?case
  proof (cases ms)
    case (Cons m ms')
    then have "parse_frame pb adler32 (contents b) = (SUCCESS, Some m, stream_of pb adler32 ms')"
      using Nil.prems(2,3) well_formed_frame(1) [of pb m] by simp
    with Nil.prems(5) show ?thesis by simp
  qed (use Nil.prems in simp)
next
  case (Cons c cs)
  have "has_room (length c) b" using Cons.prems(6) by (simp add: has_room_def)
  with readFd_ok [OF Cons.prems(1), of c] Cons.prems(4) obtain b1 where
    b1: "readFd (ReadBytes c) b = Inr (int (length c), None, b1)" "buf_inv b1"
      "contents b1 = contents b @ c" "write_index b1 \<le> write_index b + length c" by auto
  have "contents b1 @ concat cs = stream_of pb adler32 ms" using Cons.prems(2) b1(3) by simp
  from stream_prefix [OF this Cons.prems(3)] obtain ds ts r where
    s: "ms = ds @ ts" "contents b1 = stream_of pb adler32 ds @ r"
      "parse_frame pb adler32 r = (INCOMPLETE, None, r)" "r @ concat cs = stream_of pb adler32 ts" by blast
  have wf: "\<forall>m \<in> set ds. well_formed pb m" "\<forall>m \<in> set ts. well_formed pb m"
    using Cons.prems(3) s(1) by auto
  have "length ds < Suc (readableBytes b1)"
    using length_stream_ge [OF wf(1), of adler32] s(2)
    by (simp flip: length_contents [OF buf_inv_wf [OF b1(2)]])
  from OnMessage_loop_stream [OF cb s(3) b1(2) s(2) wf(1) this] obtain b2 where
    b2: "OnMessage pb adler32 disp b1 = Some (Inr (map (\<lambda>m. (callee pb disp m, m)) ds, b2))"
      "buf_inv b2" "contents b2 = r" "write_index b2 \<le> write_index b1" by (auto simp: OnMessage_def)
  have "has_room (length (concat cs)) b2"
    using Cons.prems(6) b1(4) b2(4) by (simp add: has_room_def)
  from Cons.IH [OF b2(2) _ wf(2) _ _ this] s(3,4) b2(3) Cons.prems(4) obtain b3 where
    "receive_chunks pb adler32 disp cs b2 = Some (Inr (map (\<lambda>m. (callee pb disp m, m)) ts, b3))"
    "buf_inv b3" "contents b3 = []" by auto
  then show ?case using b1(1) b2(1) s(1) by simp
qed

section \<open>Properties\<close>

text \<open>
  Property C6. However the network cuts a stream of encoded messages into chunks (each at most
  what one read can deliver), the handler dispatches exactly the messages of the stream, in
  order, each once and to the callback registered for its type, and ends with an empty buffer.
\<close>

theorem handler_fragmentation_independent:
  assumes "buf_inv b" and "contents b = []" and "default_cb disp \<noteq> None"
    and "\<forall>m \<in> set ms. well_formed pb m"
    and "concat chunks = stream_of pb adler32 ms"
    and "\<forall>c \<in> set chunks. length c \<le> EXTRA_SIZE"
    and "write_index b + length (concat chunks) \<le> VECTOR_MAX"
  shows "\<exists>b'. receive_chunks pb adler32 disp chunks b =
     Some (Inr (map (\<lambda>m. (callee pb disp m, m)) ms, b')) \<and> buf_inv b' \<and> contents b' = []"
  using receive_chunks_stream [OF assms(3,1) _ assms(4,6), of adler32] assms
  by (simp add: parse_frame_def has_room_def)

theorem handler_fragmentation_independent_witness:
  "\<exists>b'. receive_chunks raw_pb (\<lambda>_. 7) (RegisterMessageCallback () 5 (Dispatcher_new (Some 1)))
       [[0, 0], [0, 11, 0, 0, 0, 1, 109, 1], [2, 0, 0, 0, 7, 0], [0, 0, 10, 0, 0, 0, 1, 109, 3, 0, 0, 0, 7]]
       \<lparr>storage = replicate 8 0, write_index = 8, read_index = 8\<rparr> =
     Some (Inr ([(5, [1, 2]), (5, [3])], b')) \<and> buf_inv b' \<and> contents b' = []"
proof -
  let ?b = "\<lparr>storage = replicate 8 (0 :: byte), write_index = 8, read_index = 8\<rparr>"
  let ?d = "RegisterMessageCallback () 5 (Dispatcher_new (Some 1))"
  let ?cs = "[[0, 0], [0, 11, 0, 0, 0, 1, 109, 1], [2, 0, 0, 0, 7, 0],
      [0, 0, 10, 0, 0, 0, 1, 109, 3, 0, 0, 0, 7]] :: byte list list"
  have "\<exists>b'. receive_chunks raw_pb (\<lambda>_. 7) ?d ?cs ?b =
     Some (Inr (map (\<lambda>m. (callee raw_pb ?d m, m)) [[1, 2], [3]], b')) \<and> buf_inv b' \<and> contents b' = []"
  proof (rule handler_fragmentation_independent)
    show "concat ?cs = stream_of raw_pb (\<lambda>_. 7) [[1, 2], [3]]"
      by (simp add: stream_of_def frame_of_def raw_pb_def frame_alt covered_bytes_def
          total_len_of_def be32_encode_def len_defs)
  qed (simp_all add: buf_eval Dispatcher_new_def RegisterMessageCallback_def well_formed_def
      raw_pb_def encodable_def serialisable_def parses_back_def createMessage_def
      total_len_of_def len_defs)
  then show ?thesis
    by (simp add: callee_def Dispatcher_new_def RegisterMessageCallback_def raw_pb_def)
qed

text \<open>
  Property C28. The decoding loop of the handler returns on every buffer that satisfies the
  invariant, whatever bytes it holds, provided the default callback is not empty; the fuel it is
  given (one more than the readable bytes) is enough.
\<close>

theorem OnMessage_returns:
  assumes "buf_inv b" and "default_cb disp \<noteq> None"
  shows "\<exists>calls b'. OnMessage pb adler32 disp b = Some (Inr (calls, b')) \<and> buf_inv b'"
proof -
  have "length (contents b) < Suc (readableBytes b)"
    by (simp add: length_contents buf_inv_wf [OF assms(1)])
  from OnMessage_loop_total [OF assms(2,1) this] show ?thesis
    unfolding OnMessage_def by blast
qed

theorem OnMessage_returns_witness:
  "\<exists>calls b'. OnMessage raw_pb (\<lambda>_. 0) (Dispatcher_new (Some 0))
       \<lparr>storage = [0, 0, 0, 0, 0, 0, 0, 0, 255, 1, 2, 3, 4], write_index = 13, read_index = 8\<rparr>
       = Some (Inr (calls, b')) \<and> buf_inv b'"
  by (rule OnMessage_returns) (simp_all add: buf_eval Dispatcher_new_def)

end
