(* ===== verification/Channel.thy ===== *)
theory Channel
  imports Prelude
begin

text \<open>
  \<open>net/Channel.hpp\<close> and \<open>Channel.cpp\<close>: a descriptor, the events it is interested in, the
  events the poller reported, and the callbacks. Event sets are \<open>int\<close> bit masks, here 32-bit
  words with the values of Linux's \<open>poll.h\<close>. A callback is named by the lambda the repository
  installs; the operations that change the interest end in \<open>notifyLoop()\<close>, which the users
  of a channel perform on their poller.
\<close>

unbundle bit_operations_syntax

section \<open>Event masks\<close>

type_synonym event_mask = "32 word"

definition POLLIN :: event_mask where "POLLIN = 0x001"
definition POLLPRI :: event_mask where "POLLPRI = 0x002"
definition POLLOUT :: event_mask where "POLLOUT = 0x004"
definition POLLERR :: event_mask where "POLLERR = 0x008"
definition POLLHUP :: event_mask where "POLLHUP = 0x010"
definition POLLNVAL :: event_mask where "POLLNVAL = 0x020"
definition POLLRDHUP :: event_mask where "POLLRDHUP = 0x2000"

lemmas poll_bits = POLLIN_def POLLPRI_def POLLOUT_def POLLERR_def POLLHUP_def POLLNVAL_def
  POLLRDHUP_def

definition kNoneEvent :: event_mask where
  "kNoneEvent = 0"

definition kReadEvent :: event_mask where
  "kReadEvent = POLLIN OR POLLPRI"

definition kWriteEvent :: event_mask where
  "kWriteEvent = POLLOUT"

text \<open>The C++ condition \<open>m & bits\<close>.\<close>

definition has_any :: "event_mask \<Rightarrow> event_mask \<Rightarrow> bool" where
  "has_any m bits \<longleftrightarrow> m AND bits \<noteq> 0"

section \<open>State\<close>

type_synonym conn_id = nat

datatype callback =
    WakeupRead
  | TimersRead
  | AcceptorRead
  | ConnectionRead conn_id
  | ConnectorWrite
  | UserCallback nat

datatype invocation = OnError callback | OnRead callback | OnWrite callback

definition NOT_FILL :: int where
  "NOT_FILL = -1"

record channel =
  loop_of :: nat
  fd_of :: fd
  events :: event_mask
  return_events :: event_mask
  index_of :: int
  parent :: "conn_id option"
  tied :: bool
  read_callback :: "callback option"
  write_callback :: "callback option"
  error_callback :: "callback option"

definition Channel_new :: "nat \<Rightarrow> fd \<Rightarrow> channel" where
  "Channel_new loop fd =
     \<lparr>loop_of = loop, fd_of = fd, events = kNoneEvent, return_events = 0, index_of = NOT_FILL,
      parent = None, tied = False, read_callback = None, write_callback = None,
      error_callback = None\<rparr>"

section \<open>Operations\<close>

definition setReadCallback :: "callback option \<Rightarrow> channel \<Rightarrow> channel" where
  "setReadCallback cb ch = ch\<lparr>read_callback := cb\<rparr>"

definition setWriteCallback :: "callback option \<Rightarrow> channel \<Rightarrow> channel" where
  "setWriteCallback cb ch = ch\<lparr>write_callback := cb\<rparr>"

definition setErrorCallback :: "callback option \<Rightarrow> channel \<Rightarrow> channel" where
  "setErrorCallback cb ch = ch\<lparr>error_callback := cb\<rparr>"

definition setReturnEvents :: "event_mask \<Rightarrow> channel \<Rightarrow> channel" where
  "setReturnEvents r ch = ch\<lparr>return_events := r\<rparr>"

definition setIndex :: "int \<Rightarrow> channel \<Rightarrow> channel" where
  "setIndex i ch = ch\<lparr>index_of := i\<rparr>"

definition isNoneEvent :: "channel \<Rightarrow> bool" where
  "isNoneEvent ch \<longleftrightarrow> events ch = kNoneEvent"

definition isWriting :: "channel \<Rightarrow> bool" where
  "isWriting ch \<longleftrightarrow> has_any (events ch) kWriteEvent"

definition listenTillReadable :: "channel \<Rightarrow> channel" where
  "listenTillReadable ch = ch\<lparr>events := events ch OR kReadEvent\<rparr>"

definition listenTillWritable :: "channel \<Rightarrow> channel" where
  "listenTillWritable ch = ch\<lparr>events := events ch OR kWriteEvent\<rparr>"

definition ignoreReadable :: "channel \<Rightarrow> channel" where
  "ignoreReadable ch = ch\<lparr>events := events ch AND NOT kReadEvent\<rparr>"

definition ignoreWritable :: "channel \<Rightarrow> channel" where
  "ignoreWritable ch = ch\<lparr>events := events ch AND NOT kWriteEvent\<rparr>"

definition ignoreAll :: "channel \<Rightarrow> channel" where
  "ignoreAll ch = ch\<lparr>events := kNoneEvent\<rparr>"

definition tie :: "conn_id \<Rightarrow> channel \<Rightarrow> channel" where
  "tie conn ch = ch\<lparr>tied := True, parent := Some conn\<rparr>"

text \<open>
  \<open>handleEvent\<close> calls at most one callback of each kind, the error callback first, then the read
  callback, then the write callback.
\<close>

definition call_if :: "bool \<Rightarrow> (callback \<Rightarrow> invocation) \<Rightarrow> callback option \<Rightarrow> invocation list" where
  "call_if cond kind cb = (if cond then (case cb of None \<Rightarrow> [] | Some c \<Rightarrow> [kind c]) else [])"

definition handleEvent :: "channel \<Rightarrow> invocation list" where
  "handleEvent ch =
     call_if (has_any (return_events ch) (POLLNVAL OR POLLERR)) OnError (error_callback ch) @
     call_if (has_any (return_events ch) (POLLIN OR POLLPRI OR POLLRDHUP)) OnRead (read_callback ch) @
     call_if (has_any (return_events ch) POLLOUT) OnWrite (write_callback ch)"

text \<open>The three tests of \<open>handleEvent\<close>, in their order; each reads the channel when its turn comes.\<close>

definition event_tests :: "(channel \<Rightarrow> invocation list) list" where
  "event_tests =
     [\<lambda>ch. call_if (has_any (return_events ch) (POLLNVAL OR POLLERR)) OnError (error_callback ch),
      \<lambda>ch. call_if (has_any (return_events ch) (POLLIN OR POLLPRI OR POLLRDHUP)) OnRead (read_callback ch),
      \<lambda>ch. call_if (has_any (return_events ch) POLLOUT) OnWrite (write_callback ch)]"

lemma handleEvent_tests: "handleEvent ch = concat (map (\<lambda>t. t ch) event_tests)"
  by (simp add: handleEvent_def event_tests_def)

lemma event_tests_parts:
  obtains e r w where "event_tests = [e, r, w]" and "\<And>ch. \<exists>b cb. e ch = call_if b OnError cb"
    and "\<And>ch. \<exists>b cb. r ch = call_if b OnRead cb" and "\<And>ch. \<exists>b cb. w ch = call_if b OnWrite cb"
  by (rule that [OF event_tests_def]) blast+

text \<open>With the guard, nothing runs unless the channel is tied and the connection still exists.\<close>

definition handleEventWithGuard :: "(conn_id \<Rightarrow> bool) \<Rightarrow> channel \<Rightarrow> invocation list" where
  "handleEventWithGuard alive ch =
     (if \<not> tied ch then []
      else (case parent ch of
              None \<Rightarrow> []
            | Some conn \<Rightarrow> if alive conn then handleEvent ch else []))"

section \<open>Interest\<close>

lemmas interest_defs = listenTillReadable_def listenTillWritable_def ignoreReadable_def
  ignoreWritable_def ignoreAll_def isWriting_def isNoneEvent_def has_any_def
  kNoneEvent_def kReadEvent_def kWriteEvent_def

definition isReading :: "channel \<Rightarrow> bool" where
  "isReading ch \<longleftrightarrow> has_any (events ch) kReadEvent"

lemma has_any_or: "has_any (a OR b) c \<longleftrightarrow> has_any a c \<or> has_any b c"
  by (simp add: has_any_def bit.conj_disj_distrib2 or_eq_0_iff)

lemma has_any_or_bits: "has_any a (b OR c) \<longleftrightarrow> has_any a b \<or> has_any a c"
  by (simp add: has_any_def bit.conj_disj_distrib or_eq_0_iff)

lemma has_any_andnot_same: "\<not> has_any (a AND NOT b) b"
  by (simp add: has_any_def and.assoc)

lemma has_any_andnot_disjoint: "b AND c = 0 \<Longrightarrow> has_any (a AND NOT b) c \<longleftrightarrow> has_any a c"
proof -
  assume "b AND c = 0"
  then have "NOT b AND c = c"
    by (auto simp: bit_eq_iff bit_simps)
  then show ?thesis by (simp add: has_any_def and.assoc)
qed

lemma has_any_0 [simp]: "\<not> has_any 0 b"
  by (simp add: has_any_def)

lemma interest_simps [simp]:
  "isWriting (listenTillWritable ch)"
  "\<not> isWriting (ignoreWritable ch)"
  "\<not> isWriting (ignoreAll ch)"
  "isWriting (listenTillReadable ch) = isWriting ch"
  "isWriting (ignoreReadable ch) = isWriting ch"
  "isReading (listenTillReadable ch)"
  "\<not> isReading (ignoreReadable ch)"
  "\<not> isReading (ignoreAll ch)"
  "isReading (listenTillWritable ch) = isReading ch"
  "isReading (ignoreWritable ch) = isReading ch"
  by (simp_all add: isWriting_def isReading_def listenTillReadable_def listenTillWritable_def
      ignoreReadable_def ignoreWritable_def ignoreAll_def kNoneEvent_def has_any_or
      has_any_andnot_same has_any_andnot_disjoint kReadEvent_def kWriteEvent_def poll_bits)
    (simp_all add: has_any_def and.assoc)

text \<open>The interest of a channel only ever holds the read and the write bits.\<close>

definition valid_mask :: "event_mask \<Rightarrow> bool" where
  "valid_mask m \<longleftrightarrow> m AND NOT 7 = 0"

lemma valid_mask_0 [simp]: "valid_mask 0"
  by (simp add: valid_mask_def)

lemma valid_mask_or: "valid_mask (a OR b) \<longleftrightarrow> valid_mask a \<and> valid_mask b"
  by (simp add: valid_mask_def bit.conj_disj_distrib2 or_eq_0_iff)

lemma valid_mask_and: "valid_mask a \<Longrightarrow> valid_mask (a AND b)"
  by (simp add: valid_mask_def and.assoc and.commute [of b]) (simp add: and.assoc [symmetric])

lemma valid_mask_interest:
  "valid_mask (events ch) \<Longrightarrow> valid_mask (events (listenTillReadable ch))"
  "valid_mask (events ch) \<Longrightarrow> valid_mask (events (listenTillWritable ch))"
  "valid_mask (events ch) \<Longrightarrow> valid_mask (events (ignoreReadable ch))"
  "valid_mask (events ch) \<Longrightarrow> valid_mask (events (ignoreWritable ch))"
  "valid_mask (events (ignoreAll ch))"
  "valid_mask (events (Channel_new l fd))"
  by (simp_all add: interest_defs valid_mask_or valid_mask_and Channel_new_def)
    (simp_all add: valid_mask_def poll_bits)

lemma valid_mask_16:
  assumes "valid_mask m"
  shows "(ucast (ucast m :: 16 word) :: event_mask) = m"
proof (rule bit_word_eqI)
  fix n
  assume "n < LENGTH(32)"
  have "\<not> (bit m n \<and> bit (NOT 7 :: event_mask) n)"
    using assms by (metis bit_0_eq bit_and_iff bot_apply valid_mask_def bot_bool_def)
  moreover have seven: "(7 :: event_mask) = mask 3" by (simp add: mask_eq_exp_minus_1)
  have "n < 3" if "\<not> bit (NOT 7 :: event_mask) n"
    using that \<open>n < LENGTH(32)\<close> unfolding seven by (simp add: bit_not_iff bit_mask_iff)
  ultimately show "bit (ucast (ucast m :: 16 word) :: event_mask) n = bit m n"
    using \<open>n < LENGTH(32)\<close> by (auto simp: bit_ucast_iff)
qed

lemmas channel_op_defs = setReadCallback_def setWriteCallback_def setErrorCallback_def
  setReturnEvents_def setIndex_def listenTillReadable_def listenTillWritable_def ignoreReadable_def
  ignoreWritable_def ignoreAll_def tie_def

lemma call_if_simps:
  "call_if True kind (Some c) = [kind c]" "call_if False kind cb = []" "call_if cond kind None = []"
  by (simp_all add: call_if_def)

lemma set_call_if: "x \<in> set (call_if cond kind cb) \<longleftrightarrow> cond \<and> (\<exists>c. cb = Some c \<and> x = kind c)"
  by (cases cond; cases cb) (simp_all add: call_if_simps)

definition call_rank :: "invocation \<Rightarrow> nat" where
  "call_rank i = (case i of OnError _ \<Rightarrow> 0 | OnRead _ \<Rightarrow> 1 | OnWrite _ \<Rightarrow> 2)"

lemma calls_in_order:
  "sorted_wrt (\<lambda>i j. call_rank i < call_rank j)
     (call_if a OnError e @ call_if b OnRead r @ call_if c OnWrite w)"
proof -
  have single: "sorted_wrt P (call_if cond kind cb)" for P cond kind cb
    by (cases cond; cases cb) (simp_all add: call_if_simps)
  show ?thesis by (auto simp: sorted_wrt_append set_call_if call_rank_def single)
qed

section \<open>Properties\<close>

text \<open>
  \<open>handleEvent\<close> runs each callback exactly under its condition and in the fixed
  order: the error callback on \<open>POLLERR\<close> or \<open>POLLNVAL\<close>, then the read callback on \<open>POLLIN\<close>,
  \<open>POLLPRI\<close> or \<open>POLLRDHUP\<close>, then the write callback on \<open>POLLOUT\<close>, each at most once and only if
  installed.
\<close>

theorem handleEvent_dispatch:
  "(OnError c \<in> set (handleEvent ch) \<longleftrightarrow> error_callback ch = Some c \<and>
      (has_any (return_events ch) POLLERR \<or> has_any (return_events ch) POLLNVAL)) \<and>
   (OnRead c \<in> set (handleEvent ch) \<longleftrightarrow> read_callback ch = Some c \<and>
      (has_any (return_events ch) POLLIN \<or> has_any (return_events ch) POLLPRI \<or>
       has_any (return_events ch) POLLRDHUP)) \<and>
   (OnWrite c \<in> set (handleEvent ch) \<longleftrightarrow> write_callback ch = Some c \<and>
      has_any (return_events ch) POLLOUT) \<and>
   sorted_wrt (\<lambda>i j. call_rank i < call_rank j) (handleEvent ch)"
  by (simp add: handleEvent_def set_call_if has_any_or_bits calls_in_order) blast

end
