(* ===== verification/Poller.thy ===== *)
theory Poller
  imports Channel
begin

text \<open>
  \<open>net/PollerBase.hpp\<close> and \<open>net/Poller.cpp\<close>: the \<open>poll\<close> multiplexer. Channels are objects the
  poller shares with their owners (it writes their \<open>index_\<close> and \<open>revents_\<close>), so they live in a
  heap from addresses to channels, and the poller keeps addresses. The interface
  \<open>poller_base\<close> is what the event loop relies on; it is interpreted here for \<open>poll\<close> and in
  \<open>Epoller\<close> for \<open>epoll\<close>.
\<close>

section \<open>State\<close>

type_synonym addr = nat
type_synonym chan_heap = "addr \<rightharpoonup> channel"

record pollfd =
  pfd :: int
  pevents :: "16 word"
  prevents :: "16 word"

record poller =
  channels :: "fd \<rightharpoonup> addr"
  pollFdList :: "pollfd list"

definition Poller_new :: poller where
  "Poller_new = \<lparr>channels = Map.empty, pollFdList = []\<rparr>"

text \<open>The C++ operator \<open>~\<close> on a descriptor, and the descriptor an entry stands for.\<close>

definition flip_fd :: "int \<Rightarrow> int" where
  "flip_fd fd = - fd - 1"

definition real_fd :: "pollfd \<Rightarrow> int" where
  "real_fd e = (if pfd e < 0 then flip_fd (pfd e) else pfd e)"

section \<open>Operations\<close>

definition Poller_updateChannel ::
  "bool \<Rightarrow> addr \<Rightarrow> chan_heap \<times> poller \<Rightarrow> (chan_heap \<times> poller) res" where
  "Poller_updateChannel in_loop_thread c = (\<lambda>(h, p).
     if \<not> in_loop_thread then Inl Abort
     else (case h c of
        None \<Rightarrow> Inl NullDereference
      | Some ch \<Rightarrow>
          if index_of ch = NOT_FILL then
            (let list = pollFdList p @ [\<lparr>pfd = fd_of ch, pevents = ucast (events ch), prevents = 0\<rparr>]
             in Inr (h(c \<mapsto> setIndex (int (length list) - 1) ch),
                     \<lparr>channels = (channels p)(fd_of ch \<mapsto> c), pollFdList = list\<rparr>))
          else if 0 \<le> index_of ch \<and> nat (index_of ch) < length (pollFdList p) then
            Inr (h, p\<lparr>pollFdList := (pollFdList p)[nat (index_of ch) :=
                       \<lparr>pfd = (if isNoneEvent ch then flip_fd (fd_of ch) else fd_of ch),
                        pevents = ucast (events ch), prevents = 0\<rparr>]\<rparr>)
          else Inl OutOfBounds))"

definition set_index_at :: "addr \<Rightarrow> int \<Rightarrow> chan_heap \<Rightarrow> chan_heap res" where
  "set_index_at c i h = (case h c of None \<Rightarrow> Inl UseAfterFree | Some ch \<Rightarrow> Inr (h(c \<mapsto> setIndex i ch)))"

definition Poller_removeChannel ::
  "bool \<Rightarrow> addr \<Rightarrow> chan_heap \<times> poller \<Rightarrow> (chan_heap \<times> poller) res" where
  "Poller_removeChannel in_loop_thread c = (\<lambda>(h, p).
     if \<not> in_loop_thread then Inl Abort
     else (case h c of
        None \<Rightarrow> Inl NullDereference
      | Some ch \<Rightarrow>
          (let i = index_of ch; list = pollFdList p; n = length list
           in if i < 0 \<or> i \<ge> int n then Inr (h, p)
              else
                (let moved = nat i < n - 1;
                     list1 = (if moved then list[nat i := last list, n - 1 := list ! nat i] else list);
                     told = (if moved then
                               (case channels p (real_fd (list1 ! nat i)) of
                                  None \<Rightarrow> Inr h
                                | Some c2 \<Rightarrow> set_index_at c2 i h)
                             else Inr h)
                 in bind_res told (\<lambda>h1. bind_res (set_index_at c NOT_FILL h1) (\<lambda>h2.
                      Inr (h2, \<lparr>channels = (channels p)(fd_of ch := None), pollFdList = butlast list1\<rparr>)))))))"

text \<open>
  The loop over the entries stops after \<open>num_events\<close> entries with \<open>revents > 0\<close> (a signed
  comparison of a \<open>short\<close>); a reported channel gets its returned events and is collected.
\<close>

fun Poller_fillActiveChannels ::
  "(fd \<rightharpoonup> addr) \<Rightarrow> pollfd list \<Rightarrow> int \<Rightarrow> chan_heap \<Rightarrow> addr list \<Rightarrow> (chan_heap \<times> addr list) res" where
  "Poller_fillActiveChannels m [] n h act = Inr (h, act)"
| "Poller_fillActiveChannels m (e # es) n h act =
     (if n \<le> 0 then Inr (h, act)
      else if sint (prevents e) > 0 then
        (case m (pfd e) of
           None \<Rightarrow> Poller_fillActiveChannels m es (n - 1) h act
         | Some c \<Rightarrow>
             (case h c of
                None \<Rightarrow> Inl UseAfterFree
              | Some ch \<Rightarrow>
                  if fd_of ch = pfd e
                  then Poller_fillActiveChannels m es (n - 1)
                         (h(c \<mapsto> setReturnEvents (scast (prevents e)) ch)) (act @ [c])
                  else Poller_fillActiveChannels m es (n - 1) h act))
      else Poller_fillActiveChannels m es n h act)"

text \<open>
  \<open>::poll\<close> is the kernel's: it fails, or it writes the \<open>revents\<close> of every entry and returns how
  many entries it reports.
\<close>

datatype poll_result = PollFailed | Polled int "16 word list"

definition Poller_poll ::
  "poll_result \<Rightarrow> chan_heap \<times> poller \<Rightarrow> (addr list \<times> chan_heap \<times> poller) res" where
  "Poller_poll res = (\<lambda>(h, p).
     (case res of
        PollFailed \<Rightarrow> Inr ([], h, p)
      | Polled n rs \<Rightarrow>
          (let list = map2 (\<lambda>e r. e\<lparr>prevents := r\<rparr>) (pollFdList p) rs;
               p1 = p\<lparr>pollFdList := list\<rparr>
           in if n \<le> 0 then Inr ([], h, p1)
              else bind_res (Poller_fillActiveChannels (channels p) list n h [])
                     (\<lambda>(h1, act). Inr (act, h1, p1)))))"

section \<open>Invariant and abstraction\<close>

text \<open>
  Every entry belongs to exactly one registered channel, whose index points back at it; every
  channel with an index is registered.
\<close>

definition poll_inv :: "chan_heap \<times> poller \<Rightarrow> bool" where
  "poll_inv = (\<lambda>(h, p).
     (\<forall>i < length (pollFdList p). \<exists>c ch.
        channels p (real_fd (pollFdList p ! i)) = Some c \<and> h c = Some ch \<and>
        fd_of ch = real_fd (pollFdList p ! i) \<and> index_of ch = int i) \<and>
     (\<forall>c ch. h c = Some ch \<longrightarrow> index_of ch \<noteq> NOT_FILL \<longrightarrow>
        0 \<le> index_of ch \<and> nat (index_of ch) < length (pollFdList p) \<and>
        real_fd (pollFdList p ! nat (index_of ch)) = fd_of ch \<and> channels p (fd_of ch) = Some c) \<and>
     (\<forall>fd c. channels p fd = Some c \<longrightarrow>
        (\<exists>ch. h c = Some ch \<and> fd_of ch = fd \<and> index_of ch \<noteq> NOT_FILL)) \<and>
     (\<forall>c ch. h c = Some ch \<longrightarrow> 0 \<le> fd_of ch))"

text \<open>
  What the kernel watches for the descriptor: the channel and the mask, which is empty for an
  entry whose descriptor is flipped.
\<close>

definition poll_watched :: "chan_heap \<times> poller \<Rightarrow> fd \<rightharpoonup> (addr \<times> event_mask)" where
  "poll_watched = (\<lambda>(h, p) fd.
     (case channels p fd of
        None \<Rightarrow> None
      | Some c \<Rightarrow>
          (case h c of
             None \<Rightarrow> None
           | Some ch \<Rightarrow>
               (let e = pollFdList p ! nat (index_of ch)
                in Some (c, if pfd e < 0 then 0 else ucast (pevents e))))))"

text \<open>A channel may be registered when no other channel is registered for its descriptor.\<close>

definition fd_free :: "(fd \<rightharpoonup> (addr \<times> event_mask)) \<Rightarrow> addr \<Rightarrow> channel \<Rightarrow> bool" where
  "fd_free w c ch \<longleftrightarrow> (\<forall>c' m. w (fd_of ch) = Some (c', m) \<longrightarrow> c' = c)"

lemma flip_fd_simps [simp]: "flip_fd (flip_fd x) = x" "0 \<le> x \<Longrightarrow> flip_fd x < 0"
  by (simp_all add: flip_fd_def)

lemma real_fd_flip [simp]:
  "0 \<le> x \<Longrightarrow> real_fd \<lparr>pfd = (if b then flip_fd x else x), pevents = e, prevents = r\<rparr> = x"
  by (simp add: real_fd_def)

lemma setIndex_simps [simp]:
  "index_of (setIndex i ch) = i" "fd_of (setIndex i ch) = fd_of ch" "events (setIndex i ch) = events ch"
  by (simp_all add: setIndex_def)

lemma poll_invD:
  assumes "poll_inv (h, p)"
  shows "i < length (pollFdList p) \<Longrightarrow> \<exists>c ch.
        channels p (real_fd (pollFdList p ! i)) = Some c \<and> h c = Some ch \<and>
        fd_of ch = real_fd (pollFdList p ! i) \<and> index_of ch = int i"
    and "h c = Some ch \<Longrightarrow> index_of ch \<noteq> NOT_FILL \<Longrightarrow>
        0 \<le> index_of ch \<and> nat (index_of ch) < length (pollFdList p) \<and>
        real_fd (pollFdList p ! nat (index_of ch)) = fd_of ch \<and> channels p (fd_of ch) = Some c"
    and "channels p fd = Some c \<Longrightarrow> \<exists>ch. h c = Some ch \<and> fd_of ch = fd \<and> index_of ch \<noteq> NOT_FILL"
    and "h c = Some ch \<Longrightarrow> 0 \<le> fd_of ch"
  using assms by (auto simp: poll_inv_def)

section \<open>The interface of a multiplexer\<close>

text \<open>Heaps that differ in the indices of the channels only.\<close>

definition same_channels :: "chan_heap \<Rightarrow> chan_heap \<Rightarrow> bool" where
  "same_channels h h' \<longleftrightarrow> (\<forall>c. map_option (setIndex 0) (h c) = map_option (setIndex 0) (h' c))"

lemma same_channelsD:
  "same_channels h h' \<Longrightarrow> h c = Some ch \<Longrightarrow> \<exists>i. h' c = Some (setIndex i ch)"
proof -
  assume "same_channels h h'" and "h c = Some ch"
  then have "map_option (setIndex 0) (h' c) = Some (setIndex 0 ch)"
    by (metis option.simps(9) same_channels_def)
  then obtain ch' where "h' c = Some ch'" "setIndex 0 ch' = setIndex 0 ch" by auto
  then have "h' c = Some (setIndex (index_of ch') ch)" by (cases ch; cases ch') (simp add: setIndex_def)
  then show ?thesis by blast
qed

lemma same_channels_refl [simp]: "same_channels h h"
  by (simp add: same_channels_def)

lemma setIndex_setIndex [simp]: "setIndex i (setIndex j ch) = setIndex i ch"
  by (simp add: setIndex_def)

text \<open>
  Courses of registrations: a channel changes its interest and tells the poller (the interest
  functions of \<open>Channel\<close> followed by \<open>notifyLoop\<close>), or is removed; and the map from descriptors to
  channels and masks that a course describes. A course is legal when every mask is one the
  library uses, no two channels claim one descriptor, and only registered channels are removed.
\<close>

datatype reg_op = Interest addr event_mask | Unregister addr

fun reg_step ::
  "(bool \<Rightarrow> addr \<Rightarrow> chan_heap \<times> 'p \<Rightarrow> (chan_heap \<times> 'p) res) \<Rightarrow>
   (bool \<Rightarrow> addr \<Rightarrow> chan_heap \<times> 'p \<Rightarrow> (chan_heap \<times> 'p) res) \<Rightarrow> reg_op \<Rightarrow> chan_heap \<times> 'p \<Rightarrow> (chan_heap \<times> 'p) res" where
  "reg_step upd rem (Interest c m) (h, p) =
     (case h c of None \<Rightarrow> Inl UseAfterFree | Some ch \<Rightarrow> upd True c (h(c \<mapsto> ch\<lparr>events := m\<rparr>), p))"
| "reg_step upd rem (Unregister c) s = rem True c s"

fun reg_run ::
  "(bool \<Rightarrow> addr \<Rightarrow> chan_heap \<times> 'p \<Rightarrow> (chan_heap \<times> 'p) res) \<Rightarrow>
   (bool \<Rightarrow> addr \<Rightarrow> chan_heap \<times> 'p \<Rightarrow> (chan_heap \<times> 'p) res) \<Rightarrow> reg_op list \<Rightarrow> chan_heap \<times> 'p \<Rightarrow> (chan_heap \<times> 'p) res" where
  "reg_run upd rem [] s = Inr s"
| "reg_run upd rem (op # ops) s = bind_res (reg_step upd rem op s) (reg_run upd rem ops)"

fun spec_step :: "(addr \<rightharpoonup> fd) \<Rightarrow> reg_op \<Rightarrow> (fd \<rightharpoonup> (addr \<times> event_mask)) \<Rightarrow> fd \<rightharpoonup> (addr \<times> event_mask)" where
  "spec_step fds (Interest c m) w = (case fds c of None \<Rightarrow> w | Some fd \<Rightarrow> w(fd \<mapsto> (c, m)))"
| "spec_step fds (Unregister c) w = (case fds c of None \<Rightarrow> w | Some fd \<Rightarrow> w(fd := None))"

fun spec_legal :: "(addr \<rightharpoonup> fd) \<Rightarrow> reg_op \<Rightarrow> (fd \<rightharpoonup> (addr \<times> event_mask)) \<Rightarrow> bool" where
  "spec_legal fds (Interest c m) w \<longleftrightarrow> valid_mask m \<and>
     (case fds c of None \<Rightarrow> False | Some fd \<Rightarrow> (case w fd of None \<Rightarrow> True | Some (c', _) \<Rightarrow> c' = c))"
| "spec_legal fds (Unregister c) w \<longleftrightarrow>
     (case fds c of None \<Rightarrow> False | Some fd \<Rightarrow> (case w fd of None \<Rightarrow> False | Some (c', _) \<Rightarrow> c' = c))"

fun spec_run :: "(addr \<rightharpoonup> fd) \<Rightarrow> reg_op list \<Rightarrow> (fd \<rightharpoonup> (addr \<times> event_mask)) \<Rightarrow> (fd \<rightharpoonup> (addr \<times> event_mask)) option" where
  "spec_run fds [] w = Some w"
| "spec_run fds (op # ops) w = (if spec_legal fds op w then spec_run fds ops (spec_step fds op w) else None)"

definition asks :: "(event_mask \<Rightarrow> event_mask) \<Rightarrow> (fd \<rightharpoonup> (addr \<times> event_mask)) \<Rightarrow> fd \<rightharpoonup> (addr \<times> event_mask)" where
  "asks f w fd = map_option (\<lambda>(c, m). (c, f m)) (w fd)"

lemma asks_simps [simp]:
  "asks f Map.empty = Map.empty" "asks f (w(fd \<mapsto> (c, m))) = (asks f w)(fd \<mapsto> (c, f m))"
  "asks f (w(fd := None)) = (asks f w)(fd := None)" "asks (\<lambda>m. m) w = w"
  by (auto simp: asks_def fun_eq_iff option.map_id)

definition fds_of :: "chan_heap \<Rightarrow> addr \<rightharpoonup> fd" where
  "fds_of h c = map_option fd_of (h c)"

lemma same_channels_fds: "same_channels h h' \<Longrightarrow> fds_of h' = fds_of h"
proof
  fix c
  assume s: "same_channels h h'"
  show "fds_of h' c = fds_of h c"
  proof (cases "h c")
    case None
    with s have "h' c = None" by (simp add: same_channels_def) (metis option.map_disc_iff)
    with None show ?thesis by (simp add: fds_of_def)
  next
    case (Some ch)
    with same_channelsD [OF s] show ?thesis by (fastforce simp: fds_of_def setIndex_def)
  qed
qed

text \<open>
  The laws: outside the loop's thread the operations abort; \<open>update\<close> makes the kernel watch the
  channel's descriptor for what this poller asks for on account of the channel's events (\<open>asked\<close>),
  and \<open>remove\<close> stops watching it; a change of a channel's interest alone does not reach the kernel.
  Any course of registrations is then the course of the map, with the masks the kernel is asked for.
\<close>

locale poller_base =
  fixes inv :: "chan_heap \<times> 'p \<Rightarrow> bool"
    and watched :: "chan_heap \<times> 'p \<Rightarrow> fd \<rightharpoonup> (addr \<times> event_mask)"
    and update :: "bool \<Rightarrow> addr \<Rightarrow> chan_heap \<times> 'p \<Rightarrow> (chan_heap \<times> 'p) res"
    and remove :: "bool \<Rightarrow> addr \<Rightarrow> chan_heap \<times> 'p \<Rightarrow> (chan_heap \<times> 'p) res"
    and asked :: "'p \<Rightarrow> event_mask \<Rightarrow> event_mask"
  assumes thread_law: "update False c s = Inl Abort" "remove False c s = Inl Abort"
    and update_law: "inv (h, p) \<Longrightarrow> h c = Some ch \<Longrightarrow> valid_mask (events ch) \<Longrightarrow>
      fd_free (watched (h, p)) c ch \<Longrightarrow>
      \<exists>h' p'. update True c (h, p) = Inr (h', p') \<and> inv (h', p') \<and> same_channels h h' \<and>
        watched (h', p') = (watched (h, p))(fd_of ch \<mapsto> (c, asked p (events ch))) \<and> asked p' = asked p"
    and remove_law: "inv (h, p) \<Longrightarrow> h c = Some ch \<Longrightarrow> watched (h, p) (fd_of ch) = Some (c, m) \<Longrightarrow>
      \<exists>h' p'. remove True c (h, p) = Inr (h', p') \<and> inv (h', p') \<and> same_channels h h' \<and>
        watched (h', p') = (watched (h, p))(fd_of ch := None) \<and> asked p' = asked p"
    and interest_law: "inv (h, p) \<Longrightarrow> h c = Some ch \<Longrightarrow>
      inv (h(c \<mapsto> ch\<lparr>events := m\<rparr>), p) \<and> watched (h(c \<mapsto> ch\<lparr>events := m\<rparr>), p) = watched (h, p)"
begin

lemma update_then_remove:
  assumes "inv (h, p)" and "h c = Some ch" and "valid_mask (events ch)"
    and "watched (h, p) (fd_of ch) = None"
  shows "\<exists>h1 p1 s2. update True c (h, p) = Inr (h1, p1) \<and> same_channels h h1 \<and> watched (h1, p1) (fd_of ch) = Some (c, asked p (events ch)) \<and>
     remove True c (h1, p1) = Inr s2 \<and> inv s2 \<and> watched s2 = watched (h, p)"
proof -
  have "fd_free (watched (h, p)) c ch" using assms(4) by (simp add: fd_free_def)
  with update_law assms obtain h1 p1 where
    u: "update True c (h, p) = Inr (h1, p1)" "inv (h1, p1)" "same_channels h h1"
      "watched (h1, p1) = (watched (h, p))(fd_of ch \<mapsto> (c, asked p (events ch)))" by blast
  obtain i where "h1 c = Some (setIndex i ch)" using same_channelsD [OF u(3) assms(2)] by blast
  with remove_law [OF u(2) this] u(4) obtain h2 p2 where
    "remove True c (h1, p1) = Inr (h2, p2)" "inv (h2, p2)"
    "watched (h2, p2) = (watched (h1, p1))(fd_of ch := None)" by auto
  moreover have "(watched (h1, p1))(fd_of ch := None) = watched (h, p)"
    using u(4) assms(4) by (simp add: fun_upd_idem)
  ultimately show ?thesis using u by auto
qed

lemma step_refines:
  assumes "inv (h, p)" and "spec_legal (fds_of h) op w" and "watched (h, p) = asks (asked p) w"
  shows "\<exists>h' p'. reg_step update remove op (h, p) = Inr (h', p') \<and> inv (h', p') \<and> fds_of h' = fds_of h \<and>
    watched (h', p') = asks (asked p') (spec_step (fds_of h) op w) \<and> asked p' = asked p"
proof (cases op)
  case (Interest c m)
  with assms(2) obtain ch where ch: "h c = Some ch" "valid_mask m" by (auto simp: fds_of_def split: option.splits)
  let ?ch = "ch\<lparr>events := m\<rparr>" and ?h = "h(c \<mapsto> ch\<lparr>events := m\<rparr>)"
  have fds: "fds_of ?h = fds_of h" using ch(1) by (auto simp: fds_of_def)
  have s: "inv (?h, p)" "watched (?h, p) = watched (h, p)" using interest_law [OF assms(1) ch(1)] by simp_all
  have "fd_free (watched (?h, p)) c ?ch"
    using assms(2,3) Interest ch(1) s(2) by (auto simp: fd_free_def fds_of_def asks_def)
  with update_law [OF s(1), of c ?ch] ch s(2) obtain h' p' where
    "update True c (?h, p) = Inr (h', p')" "inv (h', p')" "same_channels ?h h'"
    "watched (h', p') = (watched (h, p))(fd_of ch \<mapsto> (c, asked p m))" "asked p' = asked p" by auto
  then show ?thesis using Interest ch(1) fds same_channels_fds [of ?h h'] assms(3) by (auto simp: fds_of_def)
next
  case (Unregister c)
  with assms(2,3) obtain ch m where ch: "h c = Some ch" "watched (h, p) (fd_of ch) = Some (c, m)"
    by (auto simp: fds_of_def asks_def split: option.splits)
  from remove_law [OF assms(1) this] Unregister ch(1) show ?thesis
    using same_channels_fds assms(3) by (auto simp: fds_of_def)
qed

lemma run_refines:
  "inv (h, p) \<Longrightarrow> watched (h, p) = asks (asked p) w \<Longrightarrow> spec_run (fds_of h) ops w = Some w' \<Longrightarrow>
   \<exists>h' p'. reg_run update remove ops (h, p) = Inr (h', p') \<and> inv (h', p') \<and> watched (h', p') = asks (asked p) w'"
proof (induction ops arbitrary: h p w)
  case (Cons op ops)
  then have legal: "spec_legal (fds_of h) op w" by (simp split: if_splits)
  from step_refines [OF Cons.prems(1) this Cons.prems(2)] obtain h1 p1 where
    s: "reg_step update remove op (h, p) = Inr (h1, p1)" "inv (h1, p1)" "fds_of h1 = fds_of h"
      "watched (h1, p1) = asks (asked p1) (spec_step (fds_of h) op w)" "asked p1 = asked p" by blast
  with Cons.IH [of h1 p1 "spec_step (fds_of h) op w"] Cons.prems(3) legal show ?case by simp
qed simp

end

section \<open>\<open>poll\<close> keeps the laws\<close>

lemma poll_registered:
  assumes "poll_inv (h, p)" and "channels p fd = Some c" and "h c = Some ch"
  shows "fd_of ch = fd" "0 \<le> index_of ch" "index_of ch \<noteq> NOT_FILL"
    "nat (index_of ch) < length (pollFdList p)" "real_fd (pollFdList p ! nat (index_of ch)) = fd"
  using poll_invD(3) [OF assms(1,2)] poll_invD(2) [OF assms(1,3)] assms(3) by auto

lemma poll_watched_owner:
  "poll_inv (h, p) \<Longrightarrow> channels p fd = Some c \<Longrightarrow> \<exists>m. poll_watched (h, p) fd = Some (c, m)"
  by (auto simp: poll_watched_def Let_def split: option.splits dest: poll_invD(3))

lemma poll_add:
  assumes inv: "poll_inv (h, p)" and ch: "h c = Some ch" and new: "index_of ch = NOT_FILL"
    and mask: "valid_mask (events ch)" and free: "fd_free (poll_watched (h, p)) c ch"
  defines "list \<equiv> pollFdList p @ [\<lparr>pfd = fd_of ch, pevents = ucast (events ch), prevents = 0\<rparr>]"
  defines "h' \<equiv> h(c \<mapsto> setIndex (int (length (pollFdList p))) ch)"
  defines "p' \<equiv> \<lparr>channels = (channels p)(fd_of ch \<mapsto> c), pollFdList = list\<rparr>"
  shows "poll_inv (h', p')"
    and "poll_watched (h', p') = (poll_watched (h, p))(fd_of ch \<mapsto> (c, events ch))"
proof -
  let ?L = "pollFdList p"
  have unreg: "channels p (fd_of ch) = None"
  proof (rule ccontr)
    assume "channels p (fd_of ch) \<noteq> None"
    then obtain c' where c': "channels p (fd_of ch) = Some c'" by auto
    with free poll_watched_owner [OF inv c'] have "c' = c" by (auto simp: fd_free_def)
    with c' poll_invD(3) [OF inv c'] ch new show False by auto
  qed
  have nonneg: "0 \<le> fd_of ch" by (rule poll_invD(4) [OF inv ch])
  have other: "c0 \<noteq> c" if "h c0 = Some ch0" "index_of ch0 \<noteq> NOT_FILL" for c0 ch0
    using that ch new by auto
  show "poll_inv (h', p')"
    unfolding poll_inv_def split_conv
  proof (intro conjI allI impI)
    fix i
    assume "i < length (pollFdList p')"
    then consider "i < length ?L" | "i = length ?L" by (auto simp: p'_def list_def less_Suc_eq)
    then show "\<exists>c ch. channels p' (real_fd (pollFdList p' ! i)) = Some c \<and> h' c = Some ch \<and>
        fd_of ch = real_fd (pollFdList p' ! i) \<and> index_of ch = int i"
    proof cases
      case 1
      with poll_invD(1) [OF inv 1] obtain c0 ch0 where
        "channels p (real_fd (?L ! i)) = Some c0" "h c0 = Some ch0"
        "fd_of ch0 = real_fd (?L ! i)" "index_of ch0 = int i" by blast
      moreover from this have "c0 \<noteq> c" by (intro other) (auto simp: NOT_FILL_def)
      ultimately show ?thesis using 1 unreg
        by (intro exI [of _ c0] exI [of _ ch0]) (auto simp: p'_def h'_def list_def nth_append)
    qed (use nonneg in \<open>auto simp: p'_def h'_def list_def real_fd_def\<close>)
  next
    fix c0 ch0
    assume "h' c0 = Some ch0" and "index_of ch0 \<noteq> NOT_FILL"
    then consider "c0 = c" "ch0 = setIndex (int (length ?L)) ch" | "h c0 = Some ch0"
      by (cases "c0 = c") (simp_all add: h'_def)
    then have "0 \<le> index_of ch0 \<and> nat (index_of ch0) < length (pollFdList p') \<and>
        real_fd (pollFdList p' ! nat (index_of ch0)) = fd_of ch0 \<and> channels p' (fd_of ch0) = Some c0"
    proof cases
      case 1
      then show ?thesis using nonneg by (simp add: p'_def list_def real_fd_def)
    next
      case 2
      from poll_invD(2) [OF inv 2 \<open>index_of ch0 \<noteq> NOT_FILL\<close>] unreg show ?thesis
        by (auto simp: p'_def list_def nth_append)
    qed
    then show "0 \<le> index_of ch0" and "nat (index_of ch0) < length (pollFdList p')"
      and "real_fd (pollFdList p' ! nat (index_of ch0)) = fd_of ch0"
      and "channels p' (fd_of ch0) = Some c0" by auto
  next
    fix fd c0
    assume "channels p' fd = Some c0"
    then show "\<exists>ch. h' c0 = Some ch \<and> fd_of ch = fd \<and> index_of ch \<noteq> NOT_FILL"
      using poll_invD(3) [OF inv, of fd c0] other
      by (fastforce simp: p'_def h'_def NOT_FILL_def split: if_splits)
  next
    fix c0 ch0
    assume "h' c0 = Some ch0"
    then show "0 \<le> fd_of ch0"
      using poll_invD(4) [OF inv] nonneg by (auto simp: h'_def split: if_splits)
  qed
  show "poll_watched (h', p') = (poll_watched (h, p))(fd_of ch \<mapsto> (c, events ch))"
  proof
    fix fd
    show "poll_watched (h', p') fd = ((poll_watched (h, p))(fd_of ch \<mapsto> (c, events ch))) fd"
    proof (cases "fd = fd_of ch")
      case True
      then show ?thesis using nonneg valid_mask_16 [OF mask]
        by (simp add: poll_watched_def p'_def h'_def list_def)
    next
      case False
      show ?thesis
      proof (cases "channels p fd")
        case (Some c0)
        with poll_invD(3) [OF inv Some] obtain ch0 where ch0: "h c0 = Some ch0" by blast
        note r = poll_registered [OF inv Some ch0]
        have "c0 \<noteq> c" using other [OF ch0 r(3)] .
        with False Some ch0 r(4) show ?thesis
          by (simp add: poll_watched_def p'_def h'_def list_def nth_append)
      qed (use False in \<open>simp add: poll_watched_def p'_def\<close>)
    qed
  qed
qed

lemma poll_mod:
  assumes inv: "poll_inv (h, p)" and ch: "h c = Some ch" and old: "index_of ch \<noteq> NOT_FILL"
    and mask: "valid_mask (events ch)"
  defines "e \<equiv> \<lparr>pfd = (if isNoneEvent ch then flip_fd (fd_of ch) else fd_of ch),
      pevents = ucast (events ch), prevents = 0\<rparr>"
  defines "p' \<equiv> p\<lparr>pollFdList := (pollFdList p)[nat (index_of ch) := e]\<rparr>"
  shows "poll_inv (h, p')"
    and "poll_watched (h, p') = (poll_watched (h, p))(fd_of ch \<mapsto> (c, events ch))"
proof -
  let ?L = "pollFdList p" and ?i = "nat (index_of ch)"
  have nonneg: "0 \<le> fd_of ch" by (rule poll_invD(4) [OF inv ch])
  have reg: "?i < length ?L" "real_fd (?L ! ?i) = fd_of ch" "channels p (fd_of ch) = Some c"
    using poll_invD(2) [OF inv ch old] by auto
  have re: "real_fd e = fd_of ch" using nonneg by (simp add: e_def)
  have same: "real_fd (pollFdList p' ! j) = real_fd (?L ! j)" for j
    using reg re by (cases "j = ?i") (simp_all add: p'_def)
  show "poll_inv (h, p')"
    using poll_invD [OF inv] unfolding poll_inv_def split_conv same by (simp add: p'_def)
  show "poll_watched (h, p') = (poll_watched (h, p))(fd_of ch \<mapsto> (c, events ch))"
  proof
    fix fd
    show "poll_watched (h, p') fd = ((poll_watched (h, p))(fd_of ch \<mapsto> (c, events ch))) fd"
    proof (cases "fd = fd_of ch")
      case True
      then show ?thesis using nonneg valid_mask_16 [OF mask] reg ch
        by (simp add: poll_watched_def p'_def e_def isNoneEvent_def kNoneEvent_def)
    next
      case False
      show ?thesis
      proof (cases "channels p fd")
        case (Some c0)
        with poll_invD(3) [OF inv Some] obtain ch0 where ch0: "h c0 = Some ch0" by blast
        have "nat (index_of ch0) \<noteq> ?i"
          using poll_registered(5) [OF inv Some ch0] reg(2) False by metis
        with False Some ch0 show ?thesis by (simp add: poll_watched_def p'_def)
      qed (use False in \<open>simp add: poll_watched_def p'_def\<close>)
    qed
  qed
qed

text \<open>
  Removal moves the last entry into the hole and tells the channel it belongs to. The result,
  spelled out pointwise.
\<close>

definition poll_removed ::
  "chan_heap \<Rightarrow> poller \<Rightarrow> addr \<Rightarrow> channel \<Rightarrow> chan_heap \<Rightarrow> pollfd list \<Rightarrow> bool" where
  "poll_removed h p c ch h' L' \<longleftrightarrow>
     (let L = pollFdList p; i = nat (index_of ch)
      in h' c = Some (setIndex NOT_FILL ch) \<and>
         (\<forall>x. x \<noteq> c \<longrightarrow> h' x = (if channels p (real_fd (last L)) = Some x
            then map_option (setIndex (int i)) (h x) else h x)) \<and>
         length L' = length L - 1 \<and>
         (\<forall>j < length L - 1. L' ! j = (if j = i then last L else L ! j)) \<and> same_channels h h')"

lemma poll_entry_owner:
  assumes "poll_inv (h, p)" and "i < length (pollFdList p)"
    and "channels p (real_fd (pollFdList p ! i)) = Some x" and "h x = Some ch"
  shows "index_of ch = int i"
  using poll_invD(1) [OF assms(1,2)] assms(3,4) by auto

lemma poll_remove_result:
  assumes inv: "poll_inv (h, p)" and ch: "h c = Some ch" and reg: "channels p (fd_of ch) = Some c"
  shows "\<exists>h' L'. Poller_removeChannel True c (h, p) =
      Inr (h', \<lparr>channels = (channels p)(fd_of ch := None), pollFdList = L'\<rparr>) \<and>
    poll_removed h p c ch h' L'"
proof -
  define L where "L = pollFdList p"
  define i where "i = nat (index_of ch)"
  have ix: "index_of ch = int i" "i < length L" "real_fd (L ! i) = fd_of ch"
    using poll_registered [OF inv reg ch] by (auto simp: L_def i_def)
  have lst: "last L = L ! (length L - 1)" "length L - 1 < length L"
    using ix(2) last_nth [OF ix(2)] by simp_all
  show ?thesis
  proof (cases "i < length L - 1")
    case True
    from poll_invD(1) [OF inv, of "length L - 1"] lst obtain c2 ch2 where
      c2: "channels p (real_fd (last L)) = Some c2" "h c2 = Some ch2" "index_of ch2 = int (length L - 1)"
      by (auto simp: L_def)
    have "c2 \<noteq> c" using c2 ch ix(1) True by auto
    let ?L1 = "L[i := last L, length L - 1 := L ! i]"
    let ?h = "h(c2 \<mapsto> setIndex (int i) ch2, c \<mapsto> setIndex NOT_FILL ch)"
    have "?L1 ! i = last L" using True by simp
    then have "Poller_removeChannel True c (h, p) =
        Inr (?h, \<lparr>channels = (channels p)(fd_of ch := None), pollFdList = butlast ?L1\<rparr>)"
      using ch ix True c2(1,2) \<open>c2 \<noteq> c\<close>
      by (simp add: Poller_removeChannel_def set_index_at_def Let_def L_def [symmetric])
    moreover have "same_channels h ?h"
      using ch c2(2) by (simp add: same_channels_def)
    moreover have "butlast ?L1 ! j = (if j = i then last L else L ! j)" if "j < length L - 1" for j
      using that True by (simp add: nth_butlast)
    ultimately show ?thesis using c2(1,2) \<open>c2 \<noteq> c\<close>
      by (intro exI [of _ ?h] exI [of _ "butlast ?L1"])
        (auto simp: poll_removed_def Let_def L_def [symmetric] i_def [symmetric])
  next
    case False
    then have i: "i = length L - 1" using ix(2) by simp
    let ?h = "h(c \<mapsto> setIndex NOT_FILL ch)"
    have "Poller_removeChannel True c (h, p) =
        Inr (?h, \<lparr>channels = (channels p)(fd_of ch := None), pollFdList = butlast L\<rparr>)"
      using ch ix False
      by (simp add: Poller_removeChannel_def Let_def L_def [symmetric] set_index_at_def)
    moreover have "channels p (real_fd (last L)) = Some c" using i lst ix(3) reg by simp
    ultimately show ?thesis using ch i
      by (intro exI [of _ ?h] exI [of _ "butlast L"])
        (auto simp: poll_removed_def Let_def L_def [symmetric] i_def [symmetric] nth_butlast
          same_channels_def)
  qed
qed

lemma poll_removed_entry:
  assumes inv: "poll_inv (h, p)" and ch: "h c = Some ch" and reg: "channels p (fd_of ch) = Some c"
    and rem: "poll_removed h p c ch h' L'" and j: "j < length L'"
  shows "\<exists>x ch0. channels p (real_fd (L' ! j)) = Some x \<and> h x = Some ch0 \<and> x \<noteq> c \<and>
    real_fd (L' ! j) \<noteq> fd_of ch \<and> h' x = Some (setIndex (int j) ch0)"
proof -
  define L where "L = pollFdList p"
  define i where "i = nat (index_of ch)"
  have ix: "index_of ch = int i" "i < length L"
    using poll_registered [OF inv reg ch] by (auto simp: L_def i_def)
  have jl: "j < length L - 1" using j rem by (simp add: poll_removed_def Let_def L_def)
  have lst: "last L = L ! (length L - 1)" using ix(2) by (rule last_nth)
  define k where "k = (if j = i then length L - 1 else j)"
  have k: "k < length L" "L' ! j = L ! k" "k \<noteq> i"
    using jl rem lst by (auto simp: k_def poll_removed_def Let_def L_def [symmetric] i_def [symmetric])
  from poll_invD(1) [OF inv, of k] k(1) obtain x ch0 where
    x: "channels p (real_fd (L ! k)) = Some x" "h x = Some ch0" "fd_of ch0 = real_fd (L ! k)"
      "index_of ch0 = int k" by (auto simp: L_def)
  have xc: "x \<noteq> c" using x(2,4) ch ix(1) k(3) by auto
  have hx: "h' x = (if channels p (real_fd (last L)) = Some x then Some (setIndex (int i) ch0) else Some ch0)"
    using rem xc x(2) by (simp add: poll_removed_def Let_def L_def [symmetric] i_def [symmetric])
  have "h' x = Some (setIndex (int j) ch0)"
  proof (cases "channels p (real_fd (last L)) = Some x")
    case True
    moreover have "length L - 1 < length L" using jl by simp
    ultimately have "int k = int (length L - 1)"
      using poll_entry_owner [OF inv, of "length L - 1" x ch0] x(2,4) lst by (simp add: L_def)
    then have "k = length L - 1" by simp
    then have "j = i" using jl by (auto simp: k_def split: if_splits)
    with True hx show ?thesis by simp
  next
    case False
    then have "k = j" using x(1) lst by (auto simp: k_def split: if_splits)
    with False hx x(4) show ?thesis by (cases ch0) (simp add: setIndex_def)
  qed
  moreover have "real_fd (L ! k) \<noteq> fd_of ch" using x(1) reg xc by auto
  ultimately show ?thesis using x(1,2) xc k(2) by auto
qed

lemma poll_removed_kept:
  assumes inv: "poll_inv (h, p)" and ch: "h c = Some ch" and reg: "channels p (fd_of ch) = Some c"
    and rem: "poll_removed h p c ch h' L'"
    and x: "channels p fd = Some x" "h x = Some ch0" "fd \<noteq> fd_of ch"
  shows "\<exists>j < length L'. h' x = Some (setIndex (int j) ch0) \<and>
    L' ! j = pollFdList p ! nat (index_of ch0)"
proof -
  define L where "L = pollFdList p"
  define i where "i = nat (index_of ch)"
  define m where "m = nat (index_of ch0)"
  have self: "i < length L" "real_fd (L ! i) = fd_of ch"
    using poll_registered [OF inv reg ch] by (auto simp: L_def i_def)
  have own: "m < length L" "real_fd (L ! m) = fd"
    using poll_registered [OF inv x(1,2)] by (auto simp: L_def m_def)
  have "m \<noteq> i" using self(2) own(2) x(3) by auto
  define j where "j = (if m = length L - 1 then i else m)"
  have j: "j < length L - 1" using \<open>m \<noteq> i\<close> self(1) own(1) by (auto simp: j_def)
  have "last L = L ! (length L - 1)" using self(1) by (rule last_nth)
  then have "L' ! j = L ! m" and "j < length L'"
    using rem j \<open>m \<noteq> i\<close>
    by (auto simp: j_def poll_removed_def Let_def L_def [symmetric] i_def [symmetric] split: if_splits)
  with poll_removed_entry [OF inv ch reg rem, of j] x(1,2) own(2) show ?thesis
    by (auto simp: L_def m_def)
qed

lemma poll_removed_inv:
  assumes inv: "poll_inv (h, p)" and ch: "h c = Some ch" and reg: "channels p (fd_of ch) = Some c"
    and rem: "poll_removed h p c ch h' L'"
  shows "poll_inv (h', \<lparr>channels = (channels p)(fd_of ch := None), pollFdList = L'\<rparr>)"
    (is "poll_inv (h', ?p')")
  unfolding poll_inv_def split_conv
proof (intro conjI allI impI)
  fix j
  assume "j < length (pollFdList ?p')"
  with poll_removed_entry [OF inv ch reg rem, of j] obtain x ch0 where
    x: "channels p (real_fd (L' ! j)) = Some x" "h x = Some ch0" "real_fd (L' ! j) \<noteq> fd_of ch"
      "h' x = Some (setIndex (int j) ch0)" by auto
  then show "\<exists>c ch. channels ?p' (real_fd (pollFdList ?p' ! j)) = Some c \<and> h' c = Some ch \<and>
      fd_of ch = real_fd (pollFdList ?p' ! j) \<and> index_of ch = int j"
    using poll_registered(1) [OF inv x(1,2)] by simp
next
  fix x ch1
  assume x: "h' x = Some ch1" and ix: "index_of ch1 \<noteq> NOT_FILL"
  have "x \<noteq> c" using x ix rem by (auto simp: poll_removed_def Let_def)
  have "\<exists>ch0. h x = Some ch0 \<and> fd_of ch0 = fd_of ch1 \<and> index_of ch0 \<noteq> NOT_FILL"
  proof (cases "channels p (real_fd (last (pollFdList p))) = Some x")
    case True
    from poll_invD(3) [OF inv True] x rem \<open>x \<noteq> c\<close> True show ?thesis
      by (auto simp: poll_removed_def Let_def)
  qed (use x ix rem \<open>x \<noteq> c\<close> in \<open>auto simp: poll_removed_def Let_def\<close>)
  then obtain ch0 where ch0: "h x = Some ch0" "fd_of ch0 = fd_of ch1" "index_of ch0 \<noteq> NOT_FILL" by blast
  have own: "channels p (fd_of ch0) = Some x" using poll_invD(2) [OF inv ch0(1,3)] by simp
  have "fd_of ch0 \<noteq> fd_of ch" using own reg \<open>x \<noteq> c\<close> by auto
  with poll_removed_kept [OF inv ch reg rem own ch0(1)] x obtain j where
    j: "j < length L'" "ch1 = setIndex (int j) ch0" "L' ! j = pollFdList p ! nat (index_of ch0)" by auto
  then show "0 \<le> index_of ch1" and "nat (index_of ch1) < length (pollFdList ?p')"
    and "real_fd (pollFdList ?p' ! nat (index_of ch1)) = fd_of ch1"
    and "channels ?p' (fd_of ch1) = Some x"
    using poll_registered(5) [OF inv own ch0(1)] own \<open>fd_of ch0 \<noteq> fd_of ch\<close> by simp_all
next
  fix fd x
  assume "channels ?p' fd = Some x"
  then have "channels p fd = Some x" "fd \<noteq> fd_of ch" by (auto split: if_splits)
  with poll_invD(3) [OF inv this(1)] poll_removed_kept [OF inv ch reg rem this(1)]
  show "\<exists>ch. h' x = Some ch \<and> fd_of ch = fd \<and> index_of ch \<noteq> NOT_FILL"
    by (fastforce simp: NOT_FILL_def)
next
  fix x ch1
  assume "h' x = Some ch1"
  then obtain ch0 where "h x = Some ch0" "fd_of ch0 = fd_of ch1"
    using rem ch by (cases "x = c") (auto simp: poll_removed_def Let_def split: if_splits)
  then show "0 \<le> fd_of ch1" using poll_invD(4) [OF inv] by fastforce
qed

lemma poll_removed_watched:
  assumes inv: "poll_inv (h, p)" and ch: "h c = Some ch" and reg: "channels p (fd_of ch) = Some c"
    and rem: "poll_removed h p c ch h' L'"
  shows "poll_watched (h', \<lparr>channels = (channels p)(fd_of ch := None), pollFdList = L'\<rparr>) =
    (poll_watched (h, p))(fd_of ch := None)"
proof
  fix fd
  show "poll_watched (h', \<lparr>channels = (channels p)(fd_of ch := None), pollFdList = L'\<rparr>) fd =
    ((poll_watched (h, p))(fd_of ch := None)) fd"
  proof (cases "fd = fd_of ch \<or> channels p fd = None")
    case False
    then obtain x where x: "channels p fd = Some x" "fd \<noteq> fd_of ch" by auto
    with poll_invD(3) [OF inv x(1)] obtain ch0 where "h x = Some ch0" by blast
    with poll_removed_kept [OF inv ch reg rem x(1) this x(2)] x show ?thesis
      by (auto simp: poll_watched_def)
  qed (auto simp: poll_watched_def)
qed

lemma poll_remove:
  assumes inv: "poll_inv (h, p)" and ch: "h c = Some ch" and reg: "channels p (fd_of ch) = Some c"
  shows "\<exists>h' p'. Poller_removeChannel True c (h, p) = Inr (h', p') \<and> poll_inv (h', p') \<and>
    same_channels h h' \<and> poll_watched (h', p') = (poll_watched (h, p))(fd_of ch := None)"
  using poll_remove_result [OF assms] poll_removed_inv [OF assms] poll_removed_watched [OF assms]
  by (auto simp: poll_removed_def Let_def)

lemma poll_update:
  assumes inv: "poll_inv (h, p)" and ch: "h c = Some ch" and mask: "valid_mask (events ch)"
    and free: "fd_free (poll_watched (h, p)) c ch"
  shows "\<exists>h' p'. Poller_updateChannel True c (h, p) = Inr (h', p') \<and> poll_inv (h', p') \<and>
    same_channels h h' \<and>
    poll_watched (h', p') = (poll_watched (h, p))(fd_of ch \<mapsto> (c, events ch))"
proof (cases "index_of ch = NOT_FILL")
  case True
  with poll_add [OF inv ch True mask free] ch show ?thesis
    by (auto simp: Poller_updateChannel_def same_channels_def)
next
  case False
  with poll_mod [OF inv ch False mask] ch poll_invD(2) [OF inv ch False] show ?thesis
    by (simp add: Poller_updateChannel_def)
qed

lemma poll_interest:
  assumes inv: "poll_inv (h, p)" and ch: "h c = Some ch"
  shows "poll_inv (h(c \<mapsto> ch\<lparr>events := m\<rparr>), p) \<and> poll_watched (h(c \<mapsto> ch\<lparr>events := m\<rparr>), p) = poll_watched (h, p)"
proof
  let ?h = "h(c \<mapsto> ch\<lparr>events := m\<rparr>)"
  have fwd: "\<exists>x'. ?h d = Some x' \<and> fd_of x' = fd_of x \<and> index_of x' = index_of x" if "h d = Some x" for d x
    using that ch by (cases "d = c") auto
  have bwd: "\<exists>x. h d = Some x \<and> fd_of x = fd_of x' \<and> index_of x = index_of x'" if "?h d = Some x'" for d x'
    using that ch by (cases "d = c") auto
  show "poll_inv (?h, p)"
    unfolding poll_inv_def prod.case
  proof (intro conjI allI impI)
    fix i
    assume "i < length (pollFdList p)"
    then show "\<exists>d x. channels p (real_fd (pollFdList p ! i)) = Some d \<and> ?h d = Some x \<and>
        fd_of x = real_fd (pollFdList p ! i) \<and> index_of x = int i"
      using poll_invD(1) [OF inv] fwd by metis
  next
    fix d x
    assume "?h d = Some x" and ix: "index_of x \<noteq> NOT_FILL"
    with bwd obtain y where y: "h d = Some y" "fd_of y = fd_of x" "index_of y = index_of x" by blast
    from poll_invD(2) [OF inv y(1)] ix y(2,3)
    show "0 \<le> index_of x" "nat (index_of x) < length (pollFdList p)"
      "real_fd (pollFdList p ! nat (index_of x)) = fd_of x" "channels p (fd_of x) = Some d" by simp_all
  next
    fix fd d
    assume "channels p fd = Some d"
    then show "\<exists>x. ?h d = Some x \<and> fd_of x = fd \<and> index_of x \<noteq> NOT_FILL"
      using poll_invD(3) [OF inv] fwd by metis
  next
    fix d x
    assume "?h d = Some x"
    with bwd poll_invD(4) [OF inv] show "0 \<le> fd_of x" by metis
  qed
  show "poll_watched (?h, p) = poll_watched (h, p)"
    using ch by (auto simp: poll_watched_def fun_eq_iff Let_def split: option.splits)
qed

interpretation poll: poller_base poll_inv poll_watched Poller_updateChannel Poller_removeChannel "\<lambda>_ m. m"
proof unfold_locales
  fix h :: chan_heap and p c ch m
  assume inv: "poll_inv (h, p)" and ch: "h c = Some ch"
    and w: "poll_watched (h, p) (fd_of ch) = Some (c, m)"
  then have "channels p (fd_of ch) = Some c"
    by (auto simp: poll_watched_def Let_def split: option.splits)
  from poll_remove [OF inv ch this]
  show "\<exists>h' p'. Poller_removeChannel True c (h, p) = Inr (h', p') \<and> poll_inv (h', p') \<and>
    same_channels h h' \<and> poll_watched (h', p') = (poll_watched (h, p))(fd_of ch := None) \<and>
    (\<lambda>m :: event_mask. m) = (\<lambda>m. m)" by simp
next
  fix h :: chan_heap and p c ch
  assume "poll_inv (h, p)" and "h c = Some ch" and "valid_mask (events ch)"
    and "fd_free (poll_watched (h, p)) c ch"
  then show "\<exists>h' p'. Poller_updateChannel True c (h, p) = Inr (h', p') \<and> poll_inv (h', p') \<and>
    same_channels h h' \<and>
    poll_watched (h', p') = (poll_watched (h, p))(fd_of ch \<mapsto> (c, events ch)) \<and>
    (\<lambda>m :: event_mask. m) = (\<lambda>m. m)" using poll_update [of h p c ch] by simp
qed (auto simp: poll_interest Poller_updateChannel_def Poller_removeChannel_def)

section \<open>Collecting the active channels\<close>

definition reported :: "pollfd \<Rightarrow> bool" where
  "reported e \<longleftrightarrow> 0 < sint (prevents e)"

text \<open>The entry \<open>e\<close> belongs to the channel at \<open>c\<close>.\<close>

definition owns :: "(fd \<rightharpoonup> addr) \<Rightarrow> chan_heap \<Rightarrow> pollfd \<Rightarrow> addr \<Rightarrow> bool" where
  "owns m h e c \<longleftrightarrow> m (pfd e) = Some c \<and> (\<exists>ch. h c = Some ch \<and> fd_of ch = pfd e)"

definition report_to :: "chan_heap \<Rightarrow> pollfd \<times> addr \<Rightarrow> chan_heap" where
  "report_to h ec = h(snd ec := map_option (setReturnEvents (scast (prevents (fst ec)))) (h (snd ec)))"

lemma report_to_fd: "map_option fd_of (report_to h ec c) = map_option fd_of (h c)"
  by (simp add: report_to_def setReturnEvents_def option.map_comp comp_def)

lemma owns_report: "owns m h e c \<Longrightarrow> owns m (report_to h ec) e c"
  using report_to_fd [of h ec c] by (auto simp: owns_def)

lemma fill_active:
  assumes "list_all2 (owns m h) (filter reported es) cs" and "int (length cs) \<le> n"
  shows "Poller_fillActiveChannels m es n h act =
    Inr (foldl report_to h (zip (filter reported es) cs), act @ cs)"
  using assms
proof (induction es arbitrary: h n act cs)
  case Nil
  then show ?case by simp
next
  case (Cons e es)
  show ?case
  proof (cases "reported e")
    case True
    with Cons.prems(1) obtain c cs' where cs: "cs = c # cs'" "owns m h e c"
      "list_all2 (owns m h) (filter reported es) cs'" by (auto simp: list_all2_Cons1)
    then obtain ch where ch: "m (pfd e) = Some c" "h c = Some ch" "fd_of ch = pfd e"
      by (auto simp: owns_def)
    let ?h = "h(c \<mapsto> setReturnEvents (scast (prevents e)) ch)"
    have h: "?h = report_to h (e, c)" using ch by (simp add: report_to_def)
    have "list_all2 (owns m ?h) (filter reported es) cs'"
      unfolding h using cs(3) by (rule list_all2_mono) (rule owns_report)
    from Cons.IH [OF this, of "n - 1"] Cons.prems(2) cs(1) True ch h show ?thesis
      by (simp add: reported_def)
  next
    case False
    have "cs = [] \<and> filter reported es = []" if "n \<le> 0"
    proof -
      from that Cons.prems(2) have "cs = []" by (cases cs) simp_all
      with Cons.prems(1) False show ?thesis by simp
    qed
    with False Cons.IH [of h cs n act] Cons.prems show ?thesis by (auto simp: reported_def)
  qed
qed

lemma fill_dangling:
  "\<forall>e' \<in> set xs. \<not> reported e' \<Longrightarrow> reported e \<Longrightarrow> m (pfd e) = Some c \<Longrightarrow> h c = None \<Longrightarrow> 0 < n \<Longrightarrow>
   Poller_fillActiveChannels m (xs @ e # ys) n h act = Inl UseAfterFree"
  by (induction xs) (simp_all add: reported_def)

lemma foldl_report_notin:
  "c \<notin> snd ` set ecs \<Longrightarrow> foldl report_to h ecs c = h c"
  by (induction ecs arbitrary: h) (auto simp: report_to_def)

lemma foldl_report_in:
  "distinct (map snd ecs) \<Longrightarrow> (e, c) \<in> set ecs \<Longrightarrow>
   foldl report_to h ecs c = map_option (setReturnEvents (scast (prevents e))) (h c)"
proof (induction ecs arbitrary: h)
  case (Cons ec ecs)
  show ?case
  proof (cases "ec = (e, c)")
    case True
    with Cons.prems(1) have "c \<notin> snd ` set ecs" by auto
    with True show ?thesis by (simp add: foldl_report_notin) (simp add: report_to_def)
  next
    case False
    with Cons.prems(2) have mem: "(e, c) \<in> set ecs" by auto
    then have "c \<in> set (map snd ecs)" by force
    with Cons.prems(1) have "snd ec \<noteq> c" by auto
    with mem Cons show ?thesis by (simp add: report_to_def)
  qed
qed simp

text \<open>What the kernel's answer may look like: nothing is reported for a flipped descriptor, and a
  report is a non-negative \<open>short\<close>.\<close>

definition poll_answer :: "pollfd list \<Rightarrow> 16 word list \<Rightarrow> bool" where
  "poll_answer L rs \<longleftrightarrow> length rs = length L \<and>
     (\<forall>i < length L. 0 \<le> sint (rs ! i) \<and> (pfd (L ! i) < 0 \<longrightarrow> rs ! i = 0))"

definition owner_at :: "poller \<Rightarrow> nat \<Rightarrow> addr" where
  "owner_at p i = (case channels p (real_fd (pollFdList p ! i)) of None \<Rightarrow> 0 | Some c \<Rightarrow> c)"

definition ready_indices :: "16 word list \<Rightarrow> nat list" where
  "ready_indices rs = filter (\<lambda>i. 0 < sint (rs ! i)) [0..<length rs]"

lemma owner_at_Some:
  assumes "poll_inv (h, p)" and "i < length (pollFdList p)"
  shows "\<exists>ch. channels p (real_fd (pollFdList p ! i)) = Some (owner_at p i) \<and>
    h (owner_at p i) = Some ch \<and> fd_of ch = real_fd (pollFdList p ! i) \<and> index_of ch = int i"
  using poll_invD(1) [OF assms] by (auto simp: owner_at_def)

lemma owner_at_inj:
  assumes "poll_inv (h, p)" and "i < length (pollFdList p)" and "j < length (pollFdList p)"
    and "owner_at p i = owner_at p j"
  shows "i = j"
proof -
  obtain ch where "h (owner_at p i) = Some ch" "index_of ch = int i"
    using owner_at_Some [OF assms(1,2)] by blast
  moreover obtain ch' where "h (owner_at p j) = Some ch'" "index_of ch' = int j"
    using owner_at_Some [OF assms(1,3)] by blast
  ultimately show ?thesis using assms(4) by simp
qed

lemma poll_entries:
  assumes "length rs = length L"
  shows "map2 (\<lambda>e r. e\<lparr>prevents := r\<rparr>) L rs = map (\<lambda>i. (L ! i)\<lparr>prevents := rs ! i\<rparr>) [0..<length rs]"
  by (rule nth_equalityI) (simp_all add: assms)

lemma poll_reports:
  fixes rs :: "16 word list"
  assumes inv: "poll_inv (h, p)" and ans: "poll_answer (pollFdList p) rs"
  defines "R \<equiv> ready_indices rs"
  defines "es \<equiv> map (\<lambda>i. (pollFdList p ! i)\<lparr>prevents := rs ! i\<rparr>) R"
  defines "h' \<equiv> foldl report_to h (zip es (map (owner_at p) R))"
  shows "Poller_poll (Polled (int (length R)) rs) (h, p) =
      Inr (map (owner_at p) R, h',
       p\<lparr>pollFdList := map2 (\<lambda>e r. e\<lparr>prevents := r\<rparr>) (pollFdList p) rs\<rparr>)"
proof -
  let ?L = "pollFdList p"
  let ?list = "map2 (\<lambda>e r. e\<lparr>prevents := r\<rparr>) ?L rs"
  have len: "length rs = length ?L" using ans by (simp add: poll_answer_def)
  have "filter reported ?list = es"
    by (simp add: poll_entries [OF len] filter_map comp_def reported_def es_def R_def ready_indices_def)
  moreover have "list_all2 (owns (channels p) h) es (map (owner_at p) R)"
    unfolding es_def list_all2_map1 list_all2_map2
  proof (rule list.rel_refl_strong)
    fix i
    assume "i \<in> set R"
    then have i: "i < length ?L" "0 < sint (rs ! i)" by (auto simp: R_def ready_indices_def len)
    then have "\<not> pfd (?L ! i) < 0" using ans by (auto simp: poll_answer_def)
    then show "owns (channels p) h ((?L ! i)\<lparr>prevents := rs ! i\<rparr>) (owner_at p i)"
      using owner_at_Some [OF inv i(1)] by (auto simp: owns_def real_fd_def)
  qed
  ultimately have "Poller_fillActiveChannels (channels p) ?list (int (length R)) h [] =
      Inr (h', map (owner_at p) R)"
    using fill_active [of "channels p" h ?list "map (owner_at p) R" "int (length R)" "[]"]
    by (simp add: h'_def)
  moreover have "R = [] \<Longrightarrow> h' = h" by (simp add: h'_def es_def)
  ultimately show ?thesis
    by (cases "R = []") (auto simp: Poller_poll_def Let_def)
qed

lemma poll_reported_channel:
  assumes inv: "poll_inv (h, p)" and ans: "poll_answer (pollFdList p) rs"
    and i: "i \<in> set (ready_indices rs)"
  defines "es \<equiv> map (\<lambda>i. (pollFdList p ! i)\<lparr>prevents := rs ! i\<rparr>) (ready_indices rs)"
  shows "foldl report_to h (zip es (map (owner_at p) (ready_indices rs))) (owner_at p i) =
    map_option (setReturnEvents (scast (rs ! i))) (h (owner_at p i))"
proof -
  let ?R = "ready_indices rs"
  have "\<forall>i \<in> set ?R. i < length (pollFdList p)"
    using ans by (auto simp: ready_indices_def poll_answer_def)
  then have "distinct (map (owner_at p) ?R)"
    using owner_at_inj [OF inv] by (auto simp: distinct_map ready_indices_def intro: inj_onI)
  then have "distinct (map snd (zip es (map (owner_at p) ?R)))" by (simp add: es_def)
  moreover have "((pollFdList p ! i)\<lparr>prevents := rs ! i\<rparr>, owner_at p i) \<in> set (zip es (map (owner_at p) ?R))"
    using i by (auto simp: es_def zip_map1 zip_map2 zip_same_conv_map)
  ultimately show ?thesis using foldl_report_in [of "zip es (map (owner_at p) ?R)" _ _ h] by fastforce
qed

section \<open>Properties\<close>

text \<open>
  Seen from the loop, the poller is a map from descriptors to a channel and a mask.
  An update of any channel whose descriptor no other channel has registered adds or changes
  exactly its entry, to the channel's events; a removal of any registered channel, wherever its
  entry lies in the array, deletes exactly its entry, although the last entry is moved into the
  hole and another channel's index is rewritten. Both keep the array, the map of channels and the
  indices stored in the channels consistent, and change nothing else of any channel.
\<close>

theorem Poller_update_remove_refines:
  assumes "poll_inv (h, p)" and "h c = Some ch"
  shows "(valid_mask (events ch) \<longrightarrow> fd_free (poll_watched (h, p)) c ch \<longrightarrow>
      (\<exists>h' p'. Poller_updateChannel True c (h, p) = Inr (h', p') \<and> poll_inv (h', p') \<and> same_channels h h' \<and>
         poll_watched (h', p') = (poll_watched (h, p))(fd_of ch \<mapsto> (c, events ch)))) \<and>
    (poll_watched (h, p) (fd_of ch) = Some (c, m) \<longrightarrow>
      (\<exists>h' p'. Poller_removeChannel True c (h, p) = Inr (h', p') \<and> poll_inv (h', p') \<and> same_channels h h' \<and>
         poll_watched (h', p') = (poll_watched (h, p))(fd_of ch := None)))"
  using poll.update_law [OF assms] poll.remove_law [OF assms] by blast

theorem Poller_update_remove_refines_witness:
  "\<exists>h' p'. Poller_removeChannel True 1
       ([1 \<mapsto> (Channel_new 0 7)\<lparr>index_of := 0\<rparr>, 2 \<mapsto> (Channel_new 0 9)\<lparr>index_of := 1\<rparr>],
        \<lparr>channels = [7 \<mapsto> 1, 9 \<mapsto> 2],
         pollFdList = [\<lparr>pfd = 7, pevents = 3, prevents = 0\<rparr>, \<lparr>pfd = 9, pevents = 4, prevents = 0\<rparr>]\<rparr>) = Inr (h', p') \<and>
     poll_inv (h', p') \<and> poll_watched (h', p') 7 = None \<and> poll_watched (h', p') 9 = Some (2, 4)"
proof -
  let ?h = "[1 \<mapsto> (Channel_new 0 7)\<lparr>index_of := 0\<rparr>, 2 \<mapsto> (Channel_new 0 9)\<lparr>index_of := 1\<rparr>] :: chan_heap"
  let ?p = "\<lparr>channels = [7 \<mapsto> 1, 9 \<mapsto> 2],
         pollFdList = [\<lparr>pfd = 7, pevents = 3, prevents = 0\<rparr>, \<lparr>pfd = 9, pevents = 4, prevents = 0\<rparr>]\<rparr>"
  have "poll_inv (?h, ?p)"
    by (auto simp: poll_inv_def real_fd_def Channel_new_def NOT_FILL_def less_Suc_eq split: if_splits)
  moreover have "poll_watched (?h, ?p) 7 = Some (1, 3)" "poll_watched (?h, ?p) 9 = Some (2, 4)"
    by (simp_all add: poll_watched_def Channel_new_def)
  moreover have "fd_of ((Channel_new 0 7)\<lparr>index_of := 0\<rparr>) = 7" by (simp add: Channel_new_def)
  ultimately show ?thesis
    using Poller_update_remove_refines [of ?h ?p 1 "(Channel_new 0 7)\<lparr>index_of := 0\<rparr>" 3] by auto
qed

text \<open>
  Whatever the kernel reports for the registered entries, \<open>poll\<close> returns exactly
  the channels of the entries with events, in the order of the table and each once, and stores
  in each of them the events of its own entry.
\<close>

theorem Poller_poll_collects:
  assumes "poll_inv (h, p)" and "poll_answer (pollFdList p) rs"
  shows "\<exists>act h' p'. Poller_poll (Polled (int (length (ready_indices rs))) rs) (h, p) = Inr (act, h', p') \<and>
     act = map (owner_at p) (ready_indices rs) \<and> distinct act \<and>
     (\<forall>i \<in> set (ready_indices rs). \<exists>ch. h (owner_at p i) = Some ch \<and> index_of ch = int i \<and>
        h' (owner_at p i) = Some (setReturnEvents (scast (rs ! i)) ch)) \<and>
     (\<forall>c. c \<notin> set act \<longrightarrow> h' c = h c)"
proof -
  let ?R = "ready_indices rs"
  have R: "\<forall>i \<in> set ?R. i < length (pollFdList p)"
    using assms(2) by (auto simp: ready_indices_def poll_answer_def)
  then have dist: "distinct (map (owner_at p) ?R)"
    using owner_at_inj [OF assms(1)] by (auto simp: distinct_map ready_indices_def intro: inj_onI)
  let ?es = "map (\<lambda>i. (pollFdList p ! i)\<lparr>prevents := rs ! i\<rparr>) ?R"
  let ?h = "foldl report_to h (zip ?es (map (owner_at p) ?R))"
  have "\<exists>ch. h (owner_at p i) = Some ch \<and> index_of ch = int i \<and>
      ?h (owner_at p i) = Some (setReturnEvents (scast (rs ! i)) ch)" if i: "i \<in> set ?R" for i
    using owner_at_Some [OF assms(1)] R i poll_reported_channel [OF assms i] by force
  moreover have "?h c = h c" if "c \<notin> set (map (owner_at p) ?R)" for c
    by (rule foldl_report_notin) (use that in \<open>auto dest: set_zip_rightD\<close>)
  ultimately show ?thesis using poll_reports [OF assms] dist by simp
qed

theorem Poller_poll_collects_witness:
  "\<exists>act h' p'. Poller_poll (Polled (int (length (ready_indices [0, 4]))) [0, 4])
       ([1 \<mapsto> (Channel_new 0 7)\<lparr>index_of := 0\<rparr>, 2 \<mapsto> (Channel_new 0 9)\<lparr>index_of := 1\<rparr>],
        \<lparr>channels = [7 \<mapsto> 1, 9 \<mapsto> 2],
         pollFdList = [\<lparr>pfd = 7, pevents = 3, prevents = 0\<rparr>, \<lparr>pfd = 9, pevents = 4, prevents = 0\<rparr>]\<rparr>)
     = Inr (act, h', p') \<and> act = [2]"
proof -
  let ?h = "[1 \<mapsto> (Channel_new 0 7)\<lparr>index_of := 0\<rparr>, 2 \<mapsto> (Channel_new 0 9)\<lparr>index_of := 1\<rparr>] :: chan_heap"
  let ?p = "\<lparr>channels = [7 \<mapsto> 1, 9 \<mapsto> 2],
         pollFdList = [\<lparr>pfd = 7, pevents = 3, prevents = 0\<rparr>, \<lparr>pfd = 9, pevents = 4, prevents = 0\<rparr>]\<rparr>"
  have "poll_inv (?h, ?p)"
    by (auto simp: poll_inv_def real_fd_def Channel_new_def NOT_FILL_def less_Suc_eq split: if_splits)
  moreover have "poll_answer (pollFdList ?p) [0, 4]"
    by (auto simp: poll_answer_def less_Suc_eq)
  moreover have "map (owner_at ?p) (ready_indices [0, 4]) = [2]"
    by (simp add: ready_indices_def owner_at_def real_fd_def upt_rec)
  ultimately show ?thesis
    using Poller_poll_collects [of ?h ?p "[0, 4]"] by auto
qed

end
