(* ===== verification/Epoller.thy ===== *)
theory Epoller
  imports Poller
begin

text \<open>
  \<open>net/Epoller.cpp\<close>: the \<open>epoll\<close> multiplexer, the default on Linux. The interest list of the
  epoll instance is kept beside the poller's own map; \<open>epoll_ctl\<close> changes it as documented
  (adding a known descriptor and changing an unknown one fail), and may also fail for reasons of
  the kernel, which is an input. \<open>epoll\<close> satisfies the same interface \<open>poller_base\<close> as \<open>poll\<close>.
\<close>

section \<open>Event masks\<close>

definition EPOLLIN :: event_mask where "EPOLLIN = 0x001"
definition EPOLLPRI :: event_mask where "EPOLLPRI = 0x002"
definition EPOLLOUT :: event_mask where "EPOLLOUT = 0x004"
definition EPOLLERR :: event_mask where "EPOLLERR = 0x008"
definition EPOLLHUP :: event_mask where "EPOLLHUP = 0x010"
definition EPOLLRDHUP :: event_mask where "EPOLLRDHUP = 0x2000"

lemmas epoll_bits = EPOLLIN_def EPOLLPRI_def EPOLLOUT_def EPOLLERR_def EPOLLHUP_def EPOLLRDHUP_def

definition or_if :: "bool \<Rightarrow> event_mask \<Rightarrow> event_mask \<Rightarrow> event_mask" where
  "or_if cond bits acc = (if cond then acc OR bits else acc)"

definition pollToEpollEvents :: "event_mask \<Rightarrow> event_mask" where
  "pollToEpollEvents e =
     (or_if (has_any e POLLPRI) EPOLLPRI
       (or_if (has_any e POLLERR) EPOLLERR
         (or_if (has_any e POLLHUP) EPOLLHUP
           (or_if (has_any e POLLOUT) EPOLLOUT
             (or_if (has_any e POLLIN) EPOLLIN 0))))) OR EPOLLRDHUP"

definition setPollEvents :: "event_mask \<Rightarrow> event_mask" where
  "setPollEvents e =
     or_if (has_any e EPOLLRDHUP) POLLHUP
       (or_if (has_any e EPOLLPRI) POLLPRI
         (or_if (has_any e EPOLLERR) POLLERR
           (or_if (has_any e EPOLLHUP) POLLHUP
             (or_if (has_any e EPOLLOUT) POLLOUT
               (or_if (has_any e EPOLLIN) POLLIN 0)))))"

section \<open>State and operations\<close>

record epoll_event =
  ep_events :: event_mask
  ep_ptr :: "addr option"

datatype epoll_op = EPOLL_CTL_ADD | EPOLL_CTL_MOD | EPOLL_CTL_DEL

record epoller =
  events_size :: nat
  channel_map :: "fd \<rightharpoonup> addr"
  interest_list :: "fd \<rightharpoonup> epoll_event"

definition Epoller_new :: epoller where
  "Epoller_new = \<lparr>events_size = 16, channel_map = Map.empty, interest_list = Map.empty\<rparr>"

text \<open>The interest list after a successful \<open>epoll_ctl\<close>, or \<open>None\<close> when the call returns \<open>-1\<close>.\<close>

definition epoll_ctl ::
  "bool \<Rightarrow> epoll_op \<Rightarrow> fd \<Rightarrow> epoll_event option \<Rightarrow> (fd \<rightharpoonup> epoll_event) \<Rightarrow> (fd \<rightharpoonup> epoll_event) option" where
  "epoll_ctl kernel_ok oper fd ev k =
     (if \<not> kernel_ok then None
      else (case oper of
          EPOLL_CTL_ADD \<Rightarrow> if fd \<in> dom k then None else Some (k(fd := ev))
        | EPOLL_CTL_MOD \<Rightarrow> if fd \<in> dom k then Some (k(fd := ev)) else None
        | EPOLL_CTL_DEL \<Rightarrow> if fd \<in> dom k then Some (k(fd := None)) else None))"

definition Epoller_updateChannel ::
  "bool \<Rightarrow> bool \<Rightarrow> addr \<Rightarrow> chan_heap \<times> epoller \<Rightarrow> (chan_heap \<times> epoller) res" where
  "Epoller_updateChannel kernel_ok in_loop_thread c = (\<lambda>(h, p).
     if \<not> in_loop_thread then Inl Abort
     else (case h c of
        None \<Rightarrow> Inl NullDereference
      | Some ch \<Rightarrow>
          (let event = \<lparr>ep_events = pollToEpollEvents (events ch), ep_ptr = Some c\<rparr>;
               oper = (if fd_of ch \<in> dom (channel_map p) then EPOLL_CTL_MOD else EPOLL_CTL_ADD)
           in case epoll_ctl kernel_ok oper (fd_of ch) (Some event) (interest_list p) of
                None \<Rightarrow> Inr (h, p)
              | Some k \<Rightarrow> Inr (h, p\<lparr>interest_list := k,
                                     channel_map := (channel_map p)(fd_of ch \<mapsto> c)\<rparr>))))"

definition Epoller_removeChannel ::
  "bool \<Rightarrow> bool \<Rightarrow> addr \<Rightarrow> chan_heap \<times> epoller \<Rightarrow> (chan_heap \<times> epoller) res" where
  "Epoller_removeChannel kernel_ok in_loop_thread c = (\<lambda>(h, p).
     if \<not> in_loop_thread then Inl Abort
     else (case h c of
        None \<Rightarrow> Inl NullDereference
      | Some ch \<Rightarrow>
          if fd_of ch \<in> dom (channel_map p) then
            (let k = (case epoll_ctl kernel_ok EPOLL_CTL_DEL (fd_of ch) None (interest_list p) of
                        None \<Rightarrow> interest_list p | Some k \<Rightarrow> k)
             in Inr (h, p\<lparr>interest_list := k, channel_map := (channel_map p)(fd_of ch := None)\<rparr>))
          else Inr (h, p)))"

fun Epoller_fillActiveChannels ::
  "epoll_event list \<Rightarrow> chan_heap \<Rightarrow> addr list \<Rightarrow> (chan_heap \<times> addr list) res" where
  "Epoller_fillActiveChannels [] h act = Inr (h, act)"
| "Epoller_fillActiveChannels (ev # evs) h act =
     (case ep_ptr ev of
        None \<Rightarrow> Epoller_fillActiveChannels evs h act
      | Some c \<Rightarrow>
          (case h c of
             None \<Rightarrow> Inl UseAfterFree
           | Some ch \<Rightarrow>
               Epoller_fillActiveChannels evs
                 (h(c \<mapsto> setReturnEvents (setPollEvents (ep_events ev)) ch)) (act @ [c])))"

datatype wait_result = WaitFailed | Waited "epoll_event list"

text \<open>The array of events doubles when one wait has filled it.\<close>

definition Epoller_poll ::
  "wait_result \<Rightarrow> chan_heap \<times> epoller \<Rightarrow> (addr list \<times> chan_heap \<times> epoller) res" where
  "Epoller_poll res = (\<lambda>(h, p).
     (case res of
        WaitFailed \<Rightarrow> Inr ([], h, p)
      | Waited evs \<Rightarrow>
          if length evs > events_size p then Inl OutOfBounds
          else
            (let p1 = (if length evs = events_size p then p\<lparr>events_size := events_size p * 2\<rparr> else p)
             in bind_res (Epoller_fillActiveChannels evs h []) (\<lambda>(h1, act). Inr (act, h1, p1)))))"

section \<open>Invariant and abstraction\<close>

definition epoll_inv :: "chan_heap \<times> epoller \<Rightarrow> bool" where
  "epoll_inv = (\<lambda>(h, p).
     dom (interest_list p) = dom (channel_map p) \<and> 0 < events_size p \<and>
     (\<forall>fd c. channel_map p fd = Some c \<longrightarrow>
        (\<exists>ev ch. interest_list p fd = Some ev \<and> ep_ptr ev = Some c \<and>
           h c = Some ch \<and> fd_of ch = fd)))"

definition epoll_watched :: "chan_heap \<times> epoller \<Rightarrow> fd \<rightharpoonup> (addr \<times> event_mask)" where
  "epoll_watched = (\<lambda>(h, p) fd.
     (case channel_map p fd of
        None \<Rightarrow> None
      | Some c \<Rightarrow> map_option (\<lambda>ev. (c, ep_events ev)) (interest_list p fd)))"

text \<open>What the kernel is asked for on account of an interest: \<open>EPOLLRDHUP\<close> is always added.\<close>

definition with_rdhup :: "event_mask \<Rightarrow> event_mask" where
  "with_rdhup m = m OR EPOLLRDHUP"

lemma valid_mask_cases:
  assumes "valid_mask m"
  shows "m = 0 \<or> m = 1 \<or> m = 2 \<or> m = 3 \<or> m = 4 \<or> m = 5 \<or> m = 6 \<or> m = 7"
proof -
  have "m = (m AND 7) OR (m AND NOT 7)"
    by (simp add: bit.conj_disj_distrib [symmetric])
  then have "m = m AND 7" using assms by (simp add: valid_mask_def)
  then have "unat m \<le> 7" using word_and_le1 [of m 7] by (simp add: word_le_nat_alt)
  then consider "unat m = 0" | "unat m = 1" | "unat m = 2" | "unat m = 3" | "unat m = 4"
    | "unat m = 5" | "unat m = 6" | "unat m = 7" by linarith
  then show ?thesis by cases (simp_all add: word_unat_eq_iff)
qed

section \<open>\<open>epoll\<close> keeps the laws\<close>

lemmas mask_eval = or_if_def has_any_def poll_bits epoll_bits pollToEpollEvents_def setPollEvents_def

text \<open>The kernel is asked for the channel's events, and always for \<open>EPOLLRDHUP\<close> as well.\<close>

lemma pollToEpollEvents_valid:
  "valid_mask m \<Longrightarrow> pollToEpollEvents m = with_rdhup m"
  by (drule valid_mask_cases) (elim disjE; simp add: mask_eval with_rdhup_def)

lemma epoll_invD:
  assumes "epoll_inv (h, p)"
  shows "dom (interest_list p) = dom (channel_map p)"
    and "channel_map p fd = Some c \<Longrightarrow> \<exists>ev ch. interest_list p fd = Some ev \<and> ep_ptr ev = Some c \<and>
           h c = Some ch \<and> fd_of ch = fd"
  using assms by (auto simp: epoll_inv_def)

lemma epoll_update:
  assumes inv: "epoll_inv (h, p)" and ch: "h c = Some ch" and mask: "valid_mask (events ch)"
  shows "\<exists>p'. Epoller_updateChannel True True c (h, p) = Inr (h, p') \<and> epoll_inv (h, p') \<and>
    epoll_watched (h, p') = (epoll_watched (h, p))(fd_of ch \<mapsto> (c, with_rdhup (events ch))) \<and>
    interest_list p' (fd_of ch) = Some \<lparr>ep_events = with_rdhup (events ch), ep_ptr = Some c\<rparr>"
proof -
  let ?ev = "\<lparr>ep_events = pollToEpollEvents (events ch), ep_ptr = Some c\<rparr>"
  let ?p = "p\<lparr>interest_list := (interest_list p)(fd_of ch \<mapsto> ?ev),
      channel_map := (channel_map p)(fd_of ch \<mapsto> c)\<rparr>"
  have "Epoller_updateChannel True True c (h, p) = Inr (h, ?p)"
    using ch epoll_invD(1) [OF inv]
    by (auto simp: Epoller_updateChannel_def epoll_ctl_def Let_def)
  moreover have "epoll_inv (h, ?p)"
    using inv ch by (auto simp: epoll_inv_def)
  moreover have "epoll_watched (h, ?p) = (epoll_watched (h, p))(fd_of ch \<mapsto> (c, with_rdhup (events ch)))"
    using pollToEpollEvents_valid [OF mask] by (auto simp: epoll_watched_def fun_eq_iff split: option.splits)
  ultimately show ?thesis using pollToEpollEvents_valid [OF mask] by auto
qed

lemma epoll_remove:
  assumes inv: "epoll_inv (h, p)" and ch: "h c = Some ch" and reg: "fd_of ch \<in> dom (channel_map p)"
  shows "\<exists>p'. Epoller_removeChannel True True c (h, p) = Inr (h, p') \<and> epoll_inv (h, p') \<and>
    epoll_watched (h, p') = (epoll_watched (h, p))(fd_of ch := None)"
proof -
  let ?p = "p\<lparr>interest_list := (interest_list p)(fd_of ch := None),
      channel_map := (channel_map p)(fd_of ch := None)\<rparr>"
  have "Epoller_removeChannel True True c (h, p) = Inr (h, ?p)"
    using ch reg epoll_invD(1) [OF inv]
    by (auto simp: Epoller_removeChannel_def epoll_ctl_def Let_def)
  moreover have "epoll_inv (h, ?p)" using inv by (auto simp: epoll_inv_def)
  moreover have "epoll_watched (h, ?p) = (epoll_watched (h, p))(fd_of ch := None)"
    by (auto simp: epoll_watched_def fun_eq_iff split: option.splits)
  ultimately show ?thesis by blast
qed

interpretation epoll: poller_base epoll_inv epoll_watched "Epoller_updateChannel True"
  "Epoller_removeChannel True" "\<lambda>_. with_rdhup"
proof unfold_locales
  fix h :: chan_heap and p c ch
  assume "epoll_inv (h, p)" and "h c = Some ch" and "valid_mask (events ch)"
  from epoll_update [OF this] show "\<exists>h' p'. Epoller_updateChannel True True c (h, p) = Inr (h', p') \<and>
    epoll_inv (h', p') \<and> same_channels h h' \<and>
    epoll_watched (h', p') = (epoll_watched (h, p))(fd_of ch \<mapsto> (c, with_rdhup (events ch))) \<and> with_rdhup = with_rdhup"
    using same_channels_refl by blast
next
  fix h :: chan_heap and p c ch m
  assume inv: "epoll_inv (h, p)" and ch: "h c = Some ch"
    and "epoll_watched (h, p) (fd_of ch) = Some (c, m)"
  then have "fd_of ch \<in> dom (channel_map p)" by (auto simp: epoll_watched_def split: option.splits)
  from epoll_remove [OF inv ch this] show "\<exists>h' p'. Epoller_removeChannel True True c (h, p) = Inr (h', p') \<and>
    epoll_inv (h', p') \<and> same_channels h h' \<and>
    epoll_watched (h', p') = (epoll_watched (h, p))(fd_of ch := None) \<and> with_rdhup = with_rdhup"
    using same_channels_refl by blast
next
  fix h :: chan_heap and p c ch m
  assume "epoll_inv (h, p)" and "h c = Some ch"
  then show "epoll_inv (h(c \<mapsto> ch\<lparr>events := m\<rparr>), p) \<and>
      epoll_watched (h(c \<mapsto> ch\<lparr>events := m\<rparr>), p) = epoll_watched (h, p)"
    by (fastforce simp: epoll_inv_def epoll_watched_def fun_eq_iff)
qed (auto simp: Epoller_updateChannel_def Epoller_removeChannel_def)

text \<open>Every reported channel receives the events of its own report, and no other channel is touched.\<close>

lemma epoll_fill_active:
  "\<forall>ev \<in> set evs. \<exists>c. ep_ptr ev = Some c \<and> h c \<noteq> None \<Longrightarrow> distinct (map ep_ptr evs) \<Longrightarrow>
   \<exists>h'. Epoller_fillActiveChannels evs h act = Inr (h', act @ map (\<lambda>ev. the (ep_ptr ev)) evs) \<and>
     (\<forall>ev \<in> set evs. h' (the (ep_ptr ev)) =
        Some (setReturnEvents (setPollEvents (ep_events ev)) (the (h (the (ep_ptr ev)))))) \<and>
     (\<forall>c. Some c \<notin> ep_ptr ` set evs \<longrightarrow> h' c = h c)"
proof (induction evs arbitrary: h act)
  case (Cons ev evs)
  then obtain c ch where c: "ep_ptr ev = Some c" "h c = Some ch" by auto
  let ?h = "h(c \<mapsto> setReturnEvents (setPollEvents (ep_events ev)) ch)"
  have fresh: "Some c \<notin> ep_ptr ` set evs" using Cons.prems(2) c(1) by auto
  have other: "?h (the (ep_ptr e)) = h (the (ep_ptr e))" if "e \<in> set evs" for e
  proof -
    have "ep_ptr e \<noteq> None" using that Cons.prems(1) by auto
    then have "the (ep_ptr e) \<noteq> c" using fresh that by force
    then show ?thesis by simp
  qed
  have "\<forall>e \<in> set evs. \<exists>d. ep_ptr e = Some d \<and> ?h d \<noteq> None" using Cons.prems(1) by (metis fun_upd_apply list.set_intros(2) option.distinct(1))
  moreover have "distinct (map ep_ptr evs)" using Cons.prems(2) by simp
  ultimately obtain h' where
    h': "Epoller_fillActiveChannels evs ?h (act @ [c]) = Inr (h', (act @ [c]) @ map (\<lambda>ev. the (ep_ptr ev)) evs)"
      "\<forall>e \<in> set evs. h' (the (ep_ptr e)) =
        Some (setReturnEvents (setPollEvents (ep_events e)) (the (?h (the (ep_ptr e)))))"
      "\<forall>d. Some d \<notin> ep_ptr ` set evs \<longrightarrow> h' d = ?h d"
    using Cons.IH [of ?h "act @ [c]"] by blast
  have "h' c = ?h c" using h'(3) fresh by blast
  moreover have "\<forall>e \<in> set evs. h' (the (ep_ptr e)) =
        Some (setReturnEvents (setPollEvents (ep_events e)) (the (h (the (ep_ptr e)))))"
    using h'(2) other by metis
  ultimately show ?case using h' c by (intro exI [of _ h']) auto
qed simp

section \<open>Properties\<close>



text \<open>
  A hang-up that \<open>epoll\<close> reports without other events reaches no callback:
  \<open>setPollEvents\<close> translates \<open>EPOLLRDHUP\<close> to \<open>POLLHUP\<close>, which \<open>handleEvent\<close> does not test, so
  the channel's callbacks, whatever they are, are not called. (Under \<open>poll\<close> the same
  condition, \<open>POLLRDHUP\<close>, runs the read callback.)
\<close>

theorem epoll_hangup_reaches_no_callback:
  assumes "ev \<in> {EPOLLRDHUP, EPOLLHUP, EPOLLRDHUP OR EPOLLHUP}"
  shows "handleEvent (setReturnEvents (setPollEvents ev) ch) = [] \<and>
     (read_callback ch = Some cb \<longrightarrow>
        OnRead cb \<in> set (handleEvent (setReturnEvents POLLRDHUP ch)))"
proof -
  have "setPollEvents ev = POLLHUP" using assms by (auto simp: mask_eval)
  then show ?thesis
    by (simp add: handleEvent_def setReturnEvents_def call_if_def has_any_def poll_bits)
qed

theorem epoll_hangup_reaches_no_callback_witness:
  "handleEvent (setReturnEvents (setPollEvents EPOLLRDHUP)
       ((Channel_new 0 7)\<lparr>read_callback := Some WakeupRead\<rparr>)) = [] \<and>
   OnRead WakeupRead \<in> set (handleEvent (setReturnEvents POLLRDHUP
       ((Channel_new 0 7)\<lparr>read_callback := Some WakeupRead\<rparr>)))"
  using epoll_hangup_reaches_no_callback [of EPOLLRDHUP
      "(Channel_new 0 7)\<lparr>read_callback := Some WakeupRead\<rparr>" WakeupRead] by simp

text \<open>
  A channel that ignores all events is still watched by \<open>epoll\<close> for a hang-up of
  the peer: the interest it registers is \<open>EPOLLRDHUP\<close>, never empty.
\<close>

theorem epoll_ignored_channel_still_watched:
  assumes "epoll_inv (h, p)" and "h c = Some ch"
  shows "\<exists>p'. Epoller_updateChannel True True c (h(c \<mapsto> ignoreAll ch), p) = Inr (h(c \<mapsto> ignoreAll ch), p') \<and>
     interest_list p' (fd_of ch) = Some \<lparr>ep_events = EPOLLRDHUP, ep_ptr = Some c\<rparr>"
proof -
  have "epoll_inv (h(c \<mapsto> ignoreAll ch), p)"
    using assms by (fastforce simp: epoll_inv_def ignoreAll_def)
  from epoll_update [OF this, of c "ignoreAll ch"] show ?thesis
    by (auto simp: valid_mask_interest(5)) (auto simp: ignoreAll_def kNoneEvent_def with_rdhup_def)
qed

theorem epoll_ignored_channel_still_watched_witness:
  "\<exists>p'. Epoller_updateChannel True True 3 ([3 \<mapsto> ignoreAll (Channel_new 0 7)], Epoller_new) =
       Inr ([3 \<mapsto> ignoreAll (Channel_new 0 7)], p') \<and>
     interest_list p' 7 = Some \<lparr>ep_events = EPOLLRDHUP, ep_ptr = Some 3\<rparr>"
proof -
  have "epoll_inv ([3 \<mapsto> Channel_new 0 7], Epoller_new)"
    by (simp add: epoll_inv_def Epoller_new_def)
  from epoll_ignored_channel_still_watched [OF this, of 3 "Channel_new 0 7"] show ?thesis
    by (simp add: Channel_new_def)
qed

end
