(* ===== verification/TimerQueue.thy ===== *)
theory TimerQueue
  imports Prelude "HOL-Library.Product_Lexorder" "HOL-Library.Sublist"
begin

text \<open>
  \<open>net/Timer.cpp\<close>, \<open>net/Timer.hpp\<close> and \<open>net/TimerQueue.cpp\<close>: timers with lazy cancellation. A
  time point is the number of nanoseconds since the epoch of \<open>steady_clock\<close>. The priority queue
  of the standard library is known by its interface only: the interface \<open>min_queue\<close> states it,
  and the ascending list of entries is the instance the model computes with. A user callback is
  a number; what it does to the queue is the list of calls it makes while it runs (it may add
  and cancel timers), given by a function that is a parameter of the model.
\<close>

section \<open>Timers\<close>

type_synonym time = int
type_synonym seqno = int
type_synonym timer_callback = nat

record timer =
  expiration :: time
  interval_ms :: int
  cb_of :: timer_callback
  sequence :: seqno

definition isRepeated :: "timer \<Rightarrow> bool" where
  "isRepeated t \<longleftrightarrow> interval_ms t > 0"

definition ms_to_ns :: "int \<Rightarrow> int" where
  "ms_to_ns ms = ms * 1000000"

definition restart :: "time \<Rightarrow> timer \<Rightarrow> timer" where
  "restart now t = (if isRepeated t then t\<lparr>expiration := now + ms_to_ns (interval_ms t)\<rparr> else t)"

section \<open>The queue\<close>

type_synonym entry = "time \<times> seqno"

record timer_queue =
  heap_of :: "entry list"
  timers :: "seqno \<rightharpoonup> timer"
  itimer :: "int \<times> int"
  counter :: seqno

definition TimerQueue_new :: "seqno \<Rightarrow> timer_queue" where
  "TimerQueue_new n = \<lparr>heap_of = [], timers = Map.empty, itimer = (0, 0), counter = n\<rparr>"

text \<open>
  \<open>itimer\<close> is the \<open>it_value\<close> (seconds and nanoseconds) that was last passed to
  \<open>timerfd_settime\<close>; zero in both fields asks the kernel to disarm the descriptor.
  \<open>duration_cast\<close> truncates towards zero.
\<close>

definition trunc_div :: "int \<Rightarrow> int \<Rightarrow> int" where
  "trunc_div a b = sgn a * sgn b * (\<bar>a\<bar> div \<bar>b\<bar>)"

definition to_timespec :: "time \<Rightarrow> int \<times> int" where
  "to_timespec tp = (let s = trunc_div tp 1000000000 in (s, tp - s * 1000000000))"

definition resetTimerFd :: "timer_queue \<Rightarrow> timer_queue" where
  "resetTimerFd q =
     q\<lparr>itimer := (case heap_of q of [] \<Rightarrow> (0, 0) | (first_tp, _) # _ \<Rightarrow> to_timespec first_tp)\<rparr>"

text \<open>
  \<open>addTimer\<close> takes the next sequence number and runs its lambda in the loop: \<open>addTimer_in_loop\<close>
  is the lambda. \<open>cancelTimer\<close> only forgets the timer; its entry stays in the heap.
\<close>

definition Timer_new :: "timer_callback \<Rightarrow> time \<Rightarrow> int \<Rightarrow> timer_queue \<Rightarrow> timer \<times> timer_queue" where
  "Timer_new cb tp ms q =
     (\<lparr>expiration = tp, interval_ms = ms, cb_of = cb, sequence = counter q\<rparr>,
      q\<lparr>counter := counter q + 1\<rparr>)"

definition addTimer_in_loop :: "timer \<Rightarrow> timer_queue \<Rightarrow> timer_queue" where
  "addTimer_in_loop t q =
     (let tp = expiration t; n = sequence t;
          q1 = q\<lparr>timers := (timers q)(n \<mapsto> t), heap_of := insort (tp, n) (heap_of q)\<rparr>
      in case heap_of q1 of
           [] \<Rightarrow> q1
         | (earliest, _) # _ \<Rightarrow> if tp = earliest then resetTimerFd q1 else q1)"

definition addTimer :: "timer_callback \<Rightarrow> time \<Rightarrow> int \<Rightarrow> timer_queue \<Rightarrow> seqno \<times> timer_queue" where
  "addTimer cb tp ms q =
     (let (t, q1) = Timer_new cb tp ms q in (sequence t, addTimer_in_loop t q1))"

definition cancelTimer :: "seqno \<Rightarrow> timer_queue \<Rightarrow> timer_queue" where
  "cancelTimer n q = q\<lparr>timers := (timers q)(n := None)\<rparr>"

datatype timer_call = AddTimer timer_callback time int | CancelTimer seqno

fun do_call :: "timer_call \<Rightarrow> timer_queue \<Rightarrow> timer_queue" where
  "do_call (AddTimer cb tp ms) q = snd (addTimer cb tp ms q)"
| "do_call (CancelTimer n) q = cancelTimer n q"

definition do_calls :: "timer_call list \<Rightarrow> timer_queue \<Rightarrow> timer_queue" where
  "do_calls cs q = fold do_call cs q"

fun getExpiredTimers :: "time \<Rightarrow> entry list \<Rightarrow> entry list \<times> entry list" where
  "getExpiredTimers now [] = ([], [])"
| "getExpiredTimers now (e # es) =
     (if fst e \<le> now then (let (out, rest) = getExpiredTimers now es in (e # out, rest))
      else ([], e # es))"

text \<open>
  The loop over the expired entries. \<open>calls cb\<close> are the calls the callback makes, \<open>clock n\<close> is
  what the clock shows when timer \<open>n\<close> is restarted. The result lists what was called.
  \<open>settle\<close> is what the loop does after a callback: nothing for a timer that was cancelled
  meanwhile, a new heap entry for a repeated one, removal for any other.
\<close>

definition settle :: "time \<Rightarrow> seqno \<Rightarrow> timer_queue \<Rightarrow> timer_queue" where
  "settle now n q =
     (case timers q n of
        None \<Rightarrow> q
      | Some t \<Rightarrow>
          if isRepeated t then
            (let t' = restart now t
             in q\<lparr>timers := (timers q)(n \<mapsto> t'), heap_of := insort (expiration t', n) (heap_of q)\<rparr>)
          else q\<lparr>timers := (timers q)(n := None)\<rparr>)"

fun run_expired ::
  "(timer_callback \<Rightarrow> timer_call list) \<Rightarrow> (seqno \<Rightarrow> time) \<Rightarrow> entry list \<Rightarrow> timer_queue \<Rightarrow>
   (seqno \<times> timer_callback) list \<times> timer_queue" where
  "run_expired calls clock [] q = ([], q)"
| "run_expired calls clock ((tp, n) # es) q =
     (case timers q n of
        None \<Rightarrow> run_expired calls clock es q
      | Some t \<Rightarrow>
          (let q1 = settle (clock n) n (do_calls (calls (cb_of t)) q);
               (fired, q2) = run_expired calls clock es q1
           in ((n, cb_of t) # fired, q2)))"

definition handleExpiredTimers ::
  "(timer_callback \<Rightarrow> timer_call list) \<Rightarrow> (seqno \<Rightarrow> time) \<Rightarrow> bool \<Rightarrow> time \<Rightarrow> timer_queue \<Rightarrow>
   (seqno \<times> timer_callback) list \<times> timer_queue" where
  "handleExpiredTimers calls clock read_ok now q =
     (if \<not> read_ok then ([], q)
      else (let (expired, rest) = getExpiredTimers now (heap_of q);
                (fired, q1) = run_expired calls clock expired (q\<lparr>heap_of := rest\<rparr>)
            in (fired, resetTimerFd q1)))"

section \<open>The interface of the priority queue\<close>

text \<open>
  \<open>std::priority_queue\<close> with \<open>std::greater\<close>: \<open>top\<close> is a least entry, \<open>push\<close> adds one, \<open>pop\<close>
  removes the top. Draining what is due only needs these laws.
\<close>

fun drain :: "('q \<Rightarrow> entry option) \<Rightarrow> ('q \<Rightarrow> 'q) \<Rightarrow> time \<Rightarrow> nat \<Rightarrow> 'q \<Rightarrow> entry list \<times> 'q" where
  "drain least pop now 0 q = ([], q)"
| "drain least pop now (Suc k) q =
     (case least q of
        None \<Rightarrow> ([], q)
      | Some e \<Rightarrow> if fst e \<le> now then (let (out, q') = drain least pop now k (pop q) in (e # out, q'))
                  else ([], q))"

locale min_queue =
  fixes inv :: "'q \<Rightarrow> bool"
    and entries :: "'q \<Rightarrow> entry list"
    and push :: "entry \<Rightarrow> 'q \<Rightarrow> 'q"
    and least :: "'q \<Rightarrow> entry option"
    and pop :: "'q \<Rightarrow> 'q"
  assumes push_law: "inv q \<Longrightarrow> inv (push e q) \<and> set (entries (push e q)) = insert e (set (entries q)) \<and>
      length (entries (push e q)) = Suc (length (entries q))"
    and top_law: "inv q \<Longrightarrow> (case least q of None \<Rightarrow> entries q = []
      | Some e \<Rightarrow> e \<in> set (entries q) \<and> (\<forall>x \<in> set (entries q). e \<le> x))"
    and pop_law: "inv q \<Longrightarrow> least q = Some e \<Longrightarrow> inv (pop q) \<and>
      length (entries q) = Suc (length (entries (pop q))) \<and>
      set (entries q) = insert e (set (entries (pop q)))"
begin

lemma drain_complete:
  "inv q \<Longrightarrow> length (entries q) \<le> k \<Longrightarrow> drain least pop now k q = (out, q') \<Longrightarrow>
   inv q' \<and> set (entries q) = set out \<union> set (entries q') \<and> sorted out \<and>
   (\<forall>e \<in> set out. fst e \<le> now) \<and> (\<forall>e \<in> set (entries q'). now < fst e)"
proof (induction k arbitrary: q out)
  case 0
  then show ?case by simp
next
  case (Suc k)
  show ?case
  proof (cases "least q")
    case None
    with Suc.prems top_law [OF Suc.prems(1)] show ?thesis by simp
  next
    case (Some e)
    have min: "\<forall>x \<in> set (entries q). e \<le> x" using top_law [OF Suc.prems(1)] Some by simp
    show ?thesis
    proof (cases "fst e \<le> now")
      case True
      with Suc.prems(3) Some obtain out' where
        o: "drain least pop now k (pop q) = (out', q')" "out = e # out'" by (auto split: prod.splits)
      note pl = pop_law [OF Suc.prems(1) Some]
      from Suc.IH [OF _ _ o(1)] pl Suc.prems(2) have
        IH: "inv q'" "set (entries (pop q)) = set out' \<union> set (entries q')" "sorted out'"
          "\<forall>e \<in> set out'. fst e \<le> now" "\<forall>e \<in> set (entries q'). now < fst e" by auto
      moreover have "\<forall>x \<in> set out'. e \<le> x" using min pl IH(2) by auto
      ultimately show ?thesis using pl True o(2) by auto
    next
      case False
      moreover have "now < fst x" if "x \<in> set (entries q)" for x
        using min that False by (auto simp: less_eq_prod_def)
      ultimately show ?thesis using Suc.prems Some by auto
    qed
  qed
qed

end

definition list_top :: "entry list \<Rightarrow> entry option" where
  "list_top es = (case es of [] \<Rightarrow> None | e # _ \<Rightarrow> Some e)"

interpretation tq: min_queue sorted "\<lambda>es. es" insort list_top tl
proof unfold_locales
  fix q :: "entry list" and e :: entry
  assume s: "sorted q"
  show "sorted (insort e q) \<and> set (insort e q) = insert e (set q) \<and>
      length (insort e q) = Suc (length q)"
    using s by (simp add: sorted_insort set_insort_key length_insort)
  show "case list_top q of None \<Rightarrow> q = [] | Some e \<Rightarrow> e \<in> set q \<and> (\<forall>x\<in>set q. e \<le> x)"
    using s by (cases q) (auto simp: list_top_def)
  show "sorted (tl q) \<and> length q = Suc (length (tl q)) \<and> set q = insert e (set (tl q))"
    if "list_top q = Some e" using that s by (cases q) (auto simp: list_top_def)
qed

lemma getExpiredTimers_drain:
  "getExpiredTimers now es = drain list_top tl now (length es) es"
  by (induction es) (simp_all add: list_top_def)

lemma getExpiredTimers_parts:
  "getExpiredTimers now es = (out, rest) \<Longrightarrow> es = out @ rest"
  by (induction es arbitrary: out) (auto split: if_splits prod.splits)

lemma getExpiredTimers_spec:
  assumes "sorted es" and "getExpiredTimers now es = (out, rest)"
  shows "es = out @ rest" "sorted out" "sorted rest"
    "\<forall>e \<in> set out. fst e \<le> now" "\<forall>e \<in> set rest. now < fst e"
  using assms tq.drain_complete [of es "length es" now out rest] getExpiredTimers_parts
  by (simp_all add: getExpiredTimers_drain)

section \<open>The invariant\<close>

text \<open>
  \<open>fl_inv F q\<close>: the numbers in \<open>F\<close> belong to entries that were taken from the heap and not yet
  treated. Every other live timer has an entry with its own expiration in the heap, no number
  has two entries, and no number that the generator has still to give occurs anywhere.
\<close>

definition fl_inv :: "seqno set \<Rightarrow> timer_queue \<Rightarrow> bool" where
  "fl_inv F q \<longleftrightarrow> sorted (heap_of q) \<and> distinct (map snd (heap_of q)) \<and>
     (\<forall>e \<in> set (heap_of q). snd e \<notin> F \<and> snd e < counter q) \<and> (\<forall>n \<in> F. n < counter q) \<and>
     (\<forall>n t. timers q n = Some t \<longrightarrow> sequence t = n \<and> n < counter q \<and>
        (n \<notin> F \<longrightarrow> (expiration t, n) \<in> set (heap_of q)))"

definition tq_inv :: "timer_queue \<Rightarrow> bool" where
  "tq_inv q \<longleftrightarrow> fl_inv {} q"

lemma resetTimerFd_fields [simp]:
  "heap_of (resetTimerFd q) = heap_of q" "timers (resetTimerFd q) = timers q"
  "counter (resetTimerFd q) = counter q"
  by (simp_all add: resetTimerFd_def)

lemma addTimer_fields [simp]:
  "fst (addTimer cb tp ms q) = counter q"
  "heap_of (snd (addTimer cb tp ms q)) = insort (tp, counter q) (heap_of q)"
  "timers (snd (addTimer cb tp ms q)) = (timers q)(counter q \<mapsto>
     \<lparr>expiration = tp, interval_ms = ms, cb_of = cb, sequence = counter q\<rparr>)"
  "counter (snd (addTimer cb tp ms q)) = counter q + 1"
  by (simp_all add: addTimer_def addTimer_in_loop_def Timer_new_def Let_def split: list.split prod.split)

lemma cancelTimer_fields [simp]:
  "heap_of (cancelTimer n q) = heap_of q" "timers (cancelTimer n q) = (timers q)(n := None)"
  "counter (cancelTimer n q) = counter q" "itimer (cancelTimer n q) = itimer q"
  by (simp_all add: cancelTimer_def)

lemma fl_inv_resetTimerFd [simp]: "fl_inv F (resetTimerFd q) = fl_inv F q"
  by (simp add: fl_inv_def)

lemma distinct_insort_snd:
  "distinct (map snd es) \<Longrightarrow> n \<notin> snd ` set es \<Longrightarrow> distinct (map snd (insort (tp, n) es))"
  by (induction es) (auto simp: set_insort_key)

lemma fl_inv_do_call: "fl_inv F q \<Longrightarrow> fl_inv F (do_call c q)"
proof (cases c)
  case (AddTimer cb tp ms)
  assume inv: "fl_inv F q"
  then have "counter q \<notin> snd ` set (heap_of q)" by (auto simp: fl_inv_def)
  with inv AddTimer show ?thesis
    by (auto simp: fl_inv_def sorted_insort set_insort_key intro!: distinct_insort_snd less_imp_le)
next
  case (CancelTimer n)
  assume "fl_inv F q"
  with CancelTimer show ?thesis by (auto simp: fl_inv_def)
qed

lemma fl_inv_do_calls: "fl_inv F q \<Longrightarrow> fl_inv F (do_calls cs q)"
  unfolding do_calls_def by (induction cs arbitrary: q) (auto intro: fl_inv_do_call)

lemma fl_inv_dead: "fl_inv (insert n F) q \<Longrightarrow> timers q n = None \<Longrightarrow> fl_inv F q"
  unfolding fl_inv_def by (metis insertE insertI2 option.distinct(1))

lemma fl_inv_settle:
  assumes inv: "fl_inv (insert n F) q" and "n \<notin> F"
  shows "fl_inv F (settle now n q)"
proof (cases "timers q n")
  case None
  with inv show ?thesis by (simp add: settle_def fl_inv_dead)
next
  case (Some t)
  from inv have "n \<notin> snd ` set (heap_of q)" by (auto simp: fl_inv_def)
  with inv Some \<open>n \<notin> F\<close> show ?thesis
    by (auto simp: fl_inv_def settle_def restart_def Let_def sorted_insort set_insort_key
        intro!: distinct_insort_snd)
qed

lemma run_expired_inv:
  "fl_inv (set (map snd es)) q \<Longrightarrow> distinct (map snd es) \<Longrightarrow>
   fl_inv {} (snd (run_expired calls clock es q))"
proof (induction calls clock es q rule: run_expired.induct)
  case (2 calls clock tp n es q)
  show ?case
  proof (cases "timers q n")
    case None
    with 2 show ?thesis by (simp add: fl_inv_dead)
  next
    case (Some t)
    have "fl_inv (set (map snd es)) (settle (clock n) n (do_calls (calls (cb_of t)) q))"
      using 2(3,4) by (intro fl_inv_settle fl_inv_do_calls) auto
    from 2(2) [OF Some refl this] 2(4) Some show ?thesis by (simp add: case_prod_beta Let_def)
  qed
qed simp

lemma fl_inv_expired:
  assumes "tq_inv q" and "getExpiredTimers now (heap_of q) = (out, rest)"
  shows "fl_inv (set (map snd out)) (q\<lparr>heap_of := rest\<rparr>)" "distinct (map snd out)"
proof -
  have "sorted (heap_of q)" using assms(1) by (simp add: tq_inv_def fl_inv_def)
  note g = getExpiredTimers_spec [OF this assms(2)]
  show "distinct (map snd out)" using assms(1) g(1) by (simp add: tq_inv_def fl_inv_def)
  show "fl_inv (set (map snd out)) (q\<lparr>heap_of := rest\<rparr>)"
    unfolding fl_inv_def
  proof (intro conjI allI impI ballI)
    have d: "snd ` set out \<inter> snd ` set rest = {}"
      using assms(1) g(1) by (simp add: tq_inv_def fl_inv_def)
    show "sorted (heap_of (q\<lparr>heap_of := rest\<rparr>))" using g(3) by simp
    show "distinct (map snd (heap_of (q\<lparr>heap_of := rest\<rparr>)))"
      using assms(1) g(1) by (simp add: tq_inv_def fl_inv_def)
    show "snd e \<notin> set (map snd out)" "snd e < counter (q\<lparr>heap_of := rest\<rparr>)"
      if "e \<in> set (heap_of (q\<lparr>heap_of := rest\<rparr>))" for e
      using assms(1) g(1) d that by (auto simp: tq_inv_def fl_inv_def)
    show "n < counter (q\<lparr>heap_of := rest\<rparr>)" if "n \<in> set (map snd out)" for n
      using assms(1) g(1) that by (auto simp: tq_inv_def fl_inv_def)
    fix n t
    assume "timers (q\<lparr>heap_of := rest\<rparr>) n = Some t"
    then have live: "sequence t = n \<and> n < counter q \<and> (expiration t, n) \<in> set out \<union> set rest"
      using assms(1) g(1) by (simp add: tq_inv_def fl_inv_def)
    then show "sequence t = n" "n < counter (q\<lparr>heap_of := rest\<rparr>)" by simp_all
    show "(expiration t, n) \<in> set (heap_of (q\<lparr>heap_of := rest\<rparr>))" if "n \<notin> set (map snd out)"
      using live that by force
  qed
qed

lemma handleExpiredTimers_inv:
  assumes "tq_inv q"
  shows "tq_inv (snd (handleExpiredTimers calls clock read_ok now q))"
proof (cases "getExpiredTimers now (heap_of q)")
  case (Pair out rest)
  show ?thesis
    using run_expired_inv [OF fl_inv_expired [OF assms Pair], of calls clock] assms Pair
    by (auto simp: handleExpiredTimers_def tq_inv_def split: prod.split)
qed

section \<open>What a callback and a round change\<close>

definition cancels :: "(timer_callback \<Rightarrow> timer_call list) \<Rightarrow> (seqno \<times> timer_callback) list \<Rightarrow> seqno \<Rightarrow> bool"
  where "cancels calls fired n \<longleftrightarrow> (\<exists>f \<in> set fired. CancelTimer n \<in> set (calls (snd f)))"

lemma cancels_simps [simp]:
  "\<not> cancels calls [] n"
  "cancels calls (f # fs) n \<longleftrightarrow> CancelTimer n \<in> set (calls (snd f)) \<or> cancels calls fs n"
  by (auto simp: cancels_def)

lemma do_calls_timers:
  "n < counter q \<Longrightarrow> timers (do_calls cs q) n = (if CancelTimer n \<in> set cs then None else timers q n)"
  unfolding do_calls_def
proof (induction cs arbitrary: q)
  case (Cons c cs)
  then show ?case by (cases c) (auto simp del: addTimer_fields(1))
qed simp

lemma do_calls_counter: "counter q \<le> counter (do_calls cs q)"
  unfolding do_calls_def
proof (induction cs arbitrary: q)
  case (Cons c cs)
  from Cons [of "do_call c q"] show ?case by (cases c) auto
qed simp

lemma settle_counter [simp]: "counter (settle now n q) = counter q"
  by (simp add: settle_def Let_def split: option.split)

lemma settle_timers:
  "timers (settle now n q) m =
     (if m = n then (case timers q n of None \<Rightarrow> None | Some t \<Rightarrow> if isRepeated t then Some (restart now t) else None)
      else timers q m)"
  by (simp add: settle_def Let_def split: option.split)

lemma run_expired_fires:
  "run_expired calls clock es q = (fired, q') \<Longrightarrow> \<forall>n \<in> snd ` set es. n < counter q \<Longrightarrow>
   distinct (map snd es) \<Longrightarrow> subseq (map fst fired) (map snd es) \<and>
   (\<forall>f \<in> set fired. \<exists>t. timers q (fst f) = Some t \<and> snd f = cb_of t)"
proof (induction calls clock es q arbitrary: fired rule: run_expired.induct)
  case (2 calls clock tp n es q)
  show ?case
  proof (cases "timers q n")
    case None
    with 2 show ?thesis by auto
  next
    case (Some t)
    define q1 where "q1 = settle (clock n) n (do_calls (calls (cb_of t)) q)"
    from 2(3) Some obtain fs where fs: "run_expired calls clock es q1 = (fs, q')"
      and f: "fired = (n, cb_of t) # fs" by (auto simp: q1_def split: prod.splits)
    have c: "counter q \<le> counter q1" using do_calls_counter by (simp add: q1_def)
    have IH: "subseq (map fst fs) (map snd es) \<and>
        (\<forall>f \<in> set fs. \<exists>t. timers q1 (fst f) = Some t \<and> snd f = cb_of t)"
      using 2(2) [OF Some q1_def fs] 2(4,5) c by fastforce
    moreover have "fst ` set fs \<subseteq> snd ` set es"
      using IH list_emb_set [of "(=)" "map fst fs" "map snd es"] by auto
    ultimately have "\<exists>t. timers q (fst f) = Some t \<and> snd f = cb_of t" if "f \<in> set fs" for f
    proof -
      have "fst f \<noteq> n" "fst f < counter q"
        using \<open>fst ` set fs \<subseteq> snd ` set es\<close> that 2(4,5) by (force simp: subset_iff)+
      then show ?thesis using IH that
        by (force simp: q1_def settle_timers do_calls_timers split: if_splits)
    qed
    with IH f Some show ?thesis by auto
  qed
qed simp

lemma run_expired_timers:
  "run_expired calls clock es q = (fired, q') \<Longrightarrow> \<forall>n \<in> snd ` set es. n < counter q \<Longrightarrow>
   distinct (map snd es) \<Longrightarrow> m < counter q \<Longrightarrow>
   timers q' m =
     (if cancels calls fired m then None
      else if m \<in> snd ` set es then
        (case timers q m of None \<Rightarrow> None
         | Some t \<Rightarrow> if isRepeated t then Some (restart (clock m) t) else None)
      else timers q m)"
proof (induction calls clock es q arbitrary: fired rule: run_expired.induct)
  case (2 calls clock tp n es q)
  show ?case
  proof (cases "timers q n")
    case None
    with 2 show ?thesis by auto
  next
    case (Some t)
    define q1 where "q1 = settle (clock n) n (do_calls (calls (cb_of t)) q)"
    from 2(3) Some obtain fs where fs: "run_expired calls clock es q1 = (fs, q')"
      and f: "fired = (n, cb_of t) # fs" by (auto simp: q1_def split: prod.splits)
    have c: "counter q \<le> counter q1" using do_calls_counter by (simp add: q1_def)
    have IH: "timers q' m = (if cancels calls fs m then None
      else if m \<in> snd ` set es then
        (case timers q1 m of None \<Rightarrow> None
         | Some t \<Rightarrow> if isRepeated t then Some (restart (clock m) t) else None)
      else timers q1 m)"
      using 2(2) [OF Some q1_def fs] 2(4-6) c by fastforce
    have q1: "timers q1 m = (if CancelTimer m \<in> set (calls (cb_of t)) then None
      else if m = n then (if isRepeated t then Some (restart (clock n) t) else None)
      else timers q m)"
      using 2(4,6) Some by (auto simp: q1_def settle_timers do_calls_timers)
    have "m \<noteq> n" if "m \<in> snd ` set es" using that 2(5) by auto
    with IH q1 f Some show ?thesis by (cases "m = n") auto
  qed
qed simp

lemma run_expired_complete:
  "run_expired calls clock es q = (fired, q') \<Longrightarrow> \<forall>n \<in> snd ` set es. n < counter q \<Longrightarrow>
   distinct (map snd es) \<Longrightarrow> m \<in> snd ` set es \<Longrightarrow> timers q m = Some t \<Longrightarrow>
   (m, cb_of t) \<in> set fired \<or> cancels calls fired m"
proof (induction calls clock es q arbitrary: fired rule: run_expired.induct)
  case (2 calls clock tp n es q)
  show ?case
  proof (cases "timers q n")
    case None
    with 2 show ?thesis by auto
  next
    case (Some t')
    define q1 where "q1 = settle (clock n) n (do_calls (calls (cb_of t')) q)"
    from 2(3) Some obtain fs where fs: "run_expired calls clock es q1 = (fs, q')"
      and f: "fired = (n, cb_of t') # fs" by (auto simp: q1_def split: prod.splits)
    have c: "counter q \<le> counter q1" using do_calls_counter by (simp add: q1_def)
    show ?thesis
    proof (cases "m = n \<or> CancelTimer m \<in> set (calls (cb_of t'))")
      case True
      with f Some 2(7) show ?thesis by auto
    next
      case False
      with 2(4,6,7) have "timers q1 m = Some t" by (auto simp: q1_def settle_timers do_calls_timers)
      with 2(2) [OF Some q1_def fs] 2(4-6) c False f show ?thesis by fastforce
    qed
  qed
qed simp

section \<open>Cancellation inside a round\<close>

definition gone :: "seqno \<Rightarrow> timer_queue \<Rightarrow> bool" where
  "gone n q \<longleftrightarrow> n < counter q \<and> timers q n = None"

lemma gone_do_calls: "gone n q \<Longrightarrow> gone n (do_calls cs q)"
  using do_calls_counter [of q cs] by (simp add: gone_def do_calls_timers)

lemma gone_settle: "gone n q \<Longrightarrow> gone n (settle now m q)"
  by (cases "n = m") (simp_all add: gone_def settle_timers)

lemma gone_run_expired:
  "gone n q \<Longrightarrow> gone n (snd (run_expired calls clock es q)) \<and> n \<notin> fst ` set (fst (run_expired calls clock es q))"
proof (induction calls clock es q rule: run_expired.induct)
  case (2 calls clock tp m es q)
  show ?case
  proof (cases "timers q m")
    case (Some t)
    then have "m \<noteq> n" using 2(3) by (auto simp: gone_def)
    with 2(2) [OF Some refl gone_settle [OF gone_do_calls [OF 2(3)]]] Some show ?thesis
      by (simp add: case_prod_beta Let_def)
  qed (use 2 in auto)
qed simp

text \<open>
  Whether the turn of a due timer comes to a call: it does exactly if none of the timers that
  ran before it in the round cancelled it.
\<close>

lemma run_expired_turn:
  "run_expired calls clock es q = (fired, q') \<Longrightarrow> \<forall>n \<in> snd ` set es. n < counter q \<Longrightarrow>
   distinct (map snd es) \<Longrightarrow> m \<in> snd ` set es \<Longrightarrow> timers q m = Some t \<Longrightarrow>
   m \<in> fst ` set fired \<longleftrightarrow>
     \<not> (\<exists>f \<in> set fired. fst f \<in> set (takeWhile (\<lambda>x. x \<noteq> m) (map snd es)) \<and>
          CancelTimer m \<in> set (calls (snd f)))"
proof (induction calls clock es q arbitrary: fired rule: run_expired.induct)
  case (2 calls clock tp n es q)
  have only: "fst f \<noteq> n" if "run_expired calls clock es p = (fs, q')" "counter q \<le> counter p"
    "f \<in> set fs" for p fs f
  proof -
    have "\<forall>n \<in> snd ` set es. n < counter p" using 2(4) that(2) by force
    from run_expired_fires [OF that(1) this] 2(5) have "subseq (map fst fs) (map snd es)" by simp
    with list_emb_set [OF this, of "fst f"] that(3) 2(5) show ?thesis by auto
  qed
  show ?case
  proof (cases "timers q n")
    case None
    then have run: "run_expired calls clock es q = (fired, q')" and "m \<noteq> n" using 2(3,7) by auto
    from \<open>m \<noteq> n\<close> 2(6) have es: "m \<in> snd ` set es" by auto
    have "m \<in> fst ` set fired \<longleftrightarrow>
      \<not> (\<exists>f \<in> set fired. fst f \<in> set (takeWhile (\<lambda>x. x \<noteq> m) (map snd es)) \<and>
           CancelTimer m \<in> set (calls (snd f)))"
      using 2(1) [OF None run _ _ es 2(7)] 2(4,5) by simp
    with only [OF run] \<open>m \<noteq> n\<close> show ?thesis by auto
  next
    case (Some t')
    define q1 where "q1 = settle (clock n) n (do_calls (calls (cb_of t')) q)"
    from 2(3) Some obtain fs where fs: "run_expired calls clock es q1 = (fs, q')"
      and f: "fired = (n, cb_of t') # fs" by (auto simp: q1_def split: prod.splits)
    have c: "counter q \<le> counter q1" using do_calls_counter by (simp add: q1_def)
    have lt: "m < counter q" using 2(4,6) by auto
    show ?thesis
    proof (cases "m = n")
      case False
      show ?thesis
      proof (cases "CancelTimer m \<in> set (calls (cb_of t'))")
        case True
        have "gone m q1" unfolding q1_def
          using True lt do_calls_counter [of q "calls (cb_of t')"]
          by (intro gone_settle) (simp add: gone_def do_calls_timers)
        from gone_run_expired [OF this, of calls clock es] fs f True False show ?thesis by auto
      next
        case live: False
        have "timers q1 m = Some t" using live False 2(7) lt
          by (auto simp: q1_def settle_timers do_calls_timers)
        moreover have "m \<in> snd ` set es" using False 2(6) by auto
        moreover have "\<forall>n \<in> snd ` set es. n < counter q1" using 2(4) c by force
        ultimately have IH: "m \<in> fst ` set fs \<longleftrightarrow>
          \<not> (\<exists>f \<in> set fs. fst f \<in> set (takeWhile (\<lambda>x. x \<noteq> m) (map snd es)) \<and>
               CancelTimer m \<in> set (calls (snd f)))"
          using 2(2) [OF Some q1_def fs] 2(5) by simp
        from IH live False only [OF fs c] show ?thesis unfolding f by auto
      qed
    qed (simp add: f)
  qed
qed simp

lemma takeWhile_before:
  assumes "sorted es" and "distinct (map snd es)" and "(a, x) \<in> set es" and "(b, m) \<in> set es"
  shows "x \<in> set (takeWhile (\<lambda>y. y \<noteq> m) (map snd es)) \<longleftrightarrow> (a, x) < (b, m :: seqno)"
  using assms
proof (induction es)
  case (Cons e es)
  have le: "e \<le> e'" if "e' \<in> set es" for e' using Cons.prems(1) that by simp
  have nd: "snd e' \<noteq> snd e" if "e' \<in> set es" for e'
    using Cons.prems(2) imageI [OF that, of snd] by (metis distinct.simps(2) list.simps(9) set_map)
  show ?case
  proof (cases "e = (b, m)")
    case True
    have "\<not> (a, x) < (b, m)" using le [of "(a, x)"] Cons.prems(3) True by auto
    then show ?thesis using True by simp
  next
    case False
    then have bm: "(b, m) \<in> set es" using Cons.prems(4) by simp
    show ?thesis
    proof (cases "e = (a, x)")
      case True
      have "(a, x) < (b, m)" using le [OF bm] False True by auto
      then show ?thesis using True nd [OF bm] by auto
    next
      case neq: False
      then have ax: "(a, x) \<in> set es" using Cons.prems(3) by simp
      from Cons.IH [OF _ _ ax bm] Cons.prems(1,2) nd [OF ax] nd [OF bm] show ?thesis by simp
    qed
  qed
qed simp

section \<open>Runs of the queue\<close>

text \<open>
  What the event loop does to the queue: calls of \<open>addTimer\<close> and \<open>cancelTimer\<close>, and rounds of
  \<open>handleExpiredTimers\<close> with what the read of the descriptor and the clock gave.
\<close>

datatype tq_op = Call timer_call | Expire bool time "seqno \<Rightarrow> time"

fun tq_step ::
  "(timer_callback \<Rightarrow> timer_call list) \<Rightarrow> tq_op \<Rightarrow> timer_queue \<Rightarrow>
   (seqno \<times> timer_callback) list \<times> timer_queue" where
  "tq_step calls (Call c) q = ([], do_call c q)"
| "tq_step calls (Expire read_ok now clock) q = handleExpiredTimers calls clock read_ok now q"

fun tq_run ::
  "(timer_callback \<Rightarrow> timer_call list) \<Rightarrow> tq_op list \<Rightarrow> timer_queue \<Rightarrow>
   (seqno \<times> timer_callback) list \<times> timer_queue" where
  "tq_run calls [] q = ([], q)"
| "tq_run calls (op # ops) q =
     (let (fired, q1) = tq_step calls op q; (later, q2) = tq_run calls ops q1
      in (fired @ later, q2))"

lemma tq_step_inv: "tq_inv q \<Longrightarrow> tq_inv (snd (tq_step calls op q))"
  by (cases op) (auto simp: handleExpiredTimers_inv tq_inv_def [symmetric]
      intro: fl_inv_do_call [where F = "{}", folded tq_inv_def])

lemma tq_run_inv: "tq_inv q \<Longrightarrow> tq_inv (snd (tq_run calls ops q))"
proof (induction ops arbitrary: q)
  case (Cons op ops)
  from Cons.IH [OF tq_step_inv [OF Cons.prems], of calls op] show ?case
    by (simp add: case_prod_beta Let_def)
qed simp

lemma TimerQueue_new_inv [simp]: "tq_inv (TimerQueue_new n)"
  by (simp add: tq_inv_def fl_inv_def TimerQueue_new_def)

text \<open>
  Whatever calls are made, whatever the callbacks do and whenever the descriptor
  becomes readable, the queue keeps its invariant: the heap is ordered, no timer has two
  entries in it, and every timer that was neither run nor cancelled has an entry with exactly
  its expiration, so lazy cancellation never loses a live timer.
\<close>
theorem timer_queue_invariant:
  "tq_inv (snd (tq_run calls ops (TimerQueue_new n)))"
  by (simp add: tq_run_inv)

subsection \<open>One round\<close>

lemma handleExpiredTimers_cases:
  assumes "tq_inv q" and "handleExpiredTimers calls clock True now q = (fired, q')"
  obtains es rest q1 where "getExpiredTimers now (heap_of q) = (es, rest)"
    "run_expired calls clock es (q\<lparr>heap_of := rest\<rparr>) = (fired, q1)" "q' = resetTimerFd q1"
    "\<forall>n \<in> snd ` set es. n < counter (q\<lparr>heap_of := rest\<rparr>)" "distinct (map snd es)"
proof -
  obtain es rest where g: "getExpiredTimers now (heap_of q) = (es, rest)" by fastforce
  obtain q1 where "run_expired calls clock es (q\<lparr>heap_of := rest\<rparr>) = (fired, q1)" "q' = resetTimerFd q1"
    using assms(2) g by (auto simp: handleExpiredTimers_def split: prod.splits)
  with g fl_inv_expired [OF assms(1) g] show thesis by (intro that) (auto simp: fl_inv_def)
qed

lemma live_entry_due:
  assumes "tq_inv q" and "getExpiredTimers now (heap_of q) = (es, rest)" and "timers q n = Some t"
  shows "n \<in> snd ` set es \<longleftrightarrow> expiration t \<le> now"
    and "n \<in> snd ` set es \<Longrightarrow> (expiration t, n) \<in> set es"
proof -
  have srt: "sorted (heap_of q)" and dist: "distinct (map snd (heap_of q))"
    and mem: "(expiration t, n) \<in> set (heap_of q)"
    using assms(1,3) by (auto simp: tq_inv_def fl_inv_def)
  note g = getExpiredTimers_spec [OF srt assms(2)]
  have d: "snd ` set es \<inter> snd ` set rest = {}" using dist g(1) by simp
  show iff: "n \<in> snd ` set es \<longleftrightarrow> expiration t \<le> now"
    using mem g(1,4,5) d by force
  show "(expiration t, n) \<in> set es" if "n \<in> snd ` set es"
    using mem g(1) d that by force
qed

lemma sorted_subseq_keys:
  assumes "sorted es" and "subseq ns (map snd es)" and "distinct (map snd es)"
    and "\<forall>n \<in> set ns. (k n, n) \<in> set es"
  shows "sorted (map (\<lambda>n. (k n, n)) ns)"
  using assms
proof (induction es arbitrary: ns)
  case (Cons e es)
  show ?case
  proof (cases ns)
    case (Cons m ms)
    have sub: "set ms \<subseteq> snd ` set es" if "subseq ms (map snd es)"
      using list_emb_set [OF that] by auto
    show ?thesis
    proof (cases "m = snd e")
      case True
      then have ms: "subseq ms (map snd es)" using Cons.prems(2) Cons by simp
      have "(k n, n) \<in> set es" if "n \<in> set ms" for n
        using Cons.prems(3,4) Cons sub [OF ms] that by (force simp: subset_iff)
      moreover have "(k m, m) = e"
        using Cons.prems(3,4) Cons True by (cases e) force
      ultimately show ?thesis
        using Cons.IH [OF _ ms] Cons.prems(1,3) Cons by auto
    next
      case False
      then have ms: "subseq ns (map snd es)" using Cons.prems(2) Cons by simp
      then have "set ns \<subseteq> snd ` set es" using list_emb_set [OF ms] by auto
      then have "\<forall>n \<in> set ns. (k n, n) \<in> set es"
        using Cons.prems(3,4) by (force simp: subset_iff)
      then show ?thesis using Cons.IH [OF _ ms] Cons.prems(1,3) by auto
    qed
  qed simp
qed (auto dest: list_emb_Nil2)

lemma subseq_keeps_distinct: "subseq xs ys \<Longrightarrow> distinct ys \<Longrightarrow> distinct xs"
proof (induction rule: list_emb.induct)
  case (list_emb_Cons2 x y xs ys)
  then show ?case using list_emb_set [of "(=)" xs ys] by auto
qed simp_all

lemma round_fires_in_order:
  assumes "tq_inv q" and "handleExpiredTimers calls clock True now q = (fired, q')"
  shows "sorted (map (\<lambda>n. (expiration (the (timers q n)), n)) (map fst fired))"
    "distinct (map fst fired)"
    "f \<in> set fired \<Longrightarrow> \<exists>t. timers q (fst f) = Some t \<and> snd f = cb_of t \<and> expiration t \<le> now"
proof -
  from assms obtain es rest q1 where g: "getExpiredTimers now (heap_of q) = (es, rest)"
    and run: "run_expired calls clock es (q\<lparr>heap_of := rest\<rparr>) = (fired, q1)"
    and c: "\<forall>n \<in> snd ` set es. n < counter (q\<lparr>heap_of := rest\<rparr>)" and d: "distinct (map snd es)"
    by (rule handleExpiredTimers_cases)
  note fires = run_expired_fires [OF run c d]
  have srt: "sorted es"
    using assms(1) getExpiredTimers_spec(2) [OF _ g] by (simp add: tq_inv_def fl_inv_def)
  have es: "fst f \<in> snd ` set es" if "f \<in> set fired" for f
    using fires list_emb_set [of "(=)" "map fst fired" "map snd es" "fst f"] that by auto
  have live: "\<exists>t. timers q (fst f) = Some t \<and> snd f = cb_of t" if "f \<in> set fired" for f
    using fires that by auto
  show "\<exists>t. timers q (fst f) = Some t \<and> snd f = cb_of t \<and> expiration t \<le> now" if f: "f \<in> set fired"
  proof -
    obtain t where t: "timers q (fst f) = Some t" "snd f = cb_of t" using live [OF f] by blast
    with live_entry_due(1) [OF assms(1) g t(1)] es [OF f] show ?thesis by simp
  qed
  show "distinct (map fst fired)" using fires d subseq_keeps_distinct by blast
  have "(expiration (the (timers q n)), n) \<in> set es" if n: "n \<in> set (map fst fired)" for n
  proof -
    obtain f where f: "f \<in> set fired" "n = fst f" using n by auto
    obtain t where "timers q n = Some t" using live [OF f(1)] f(2) by blast
    with live_entry_due(2) [OF assms(1) g this] es [OF f(1)] f(2) show ?thesis by simp
  qed
  then show "sorted (map (\<lambda>n. (expiration (the (timers q n)), n)) (map fst fired))"
    by (intro sorted_subseq_keys [OF srt conjunct1 [OF fires] d]) blast
qed

lemma round_complete:
  assumes "tq_inv q" and "handleExpiredTimers calls clock True now q = (fired, q')"
    and "timers q n = Some t" and "expiration t \<le> now"
  shows "(n, cb_of t) \<in> set fired \<or> cancels calls fired n"
proof -
  from assms(1,2) obtain es rest q1 where g: "getExpiredTimers now (heap_of q) = (es, rest)"
    and run: "run_expired calls clock es (q\<lparr>heap_of := rest\<rparr>) = (fired, q1)"
    and c: "\<forall>n \<in> snd ` set es. n < counter (q\<lparr>heap_of := rest\<rparr>)" and d: "distinct (map snd es)"
    by (rule handleExpiredTimers_cases)
  show ?thesis
    using run_expired_complete [OF run c d, of n t] live_entry_due(1) [OF assms(1) g assms(3)] assms(3,4)
    by simp
qed

lemma round_turn:
  assumes "tq_inv q" and "handleExpiredTimers calls clock True now q = (fired, q')"
    and "timers q n = Some t" and "expiration t \<le> now"
  shows "(n, cb_of t) \<in> set fired \<longleftrightarrow>
    \<not> (\<exists>(m, cb) \<in> set fired. (expiration (the (timers q m)), m) < (expiration t, n) \<and>
         CancelTimer n \<in> set (calls cb))"
proof -
  from assms(1,2) obtain es rest q1 where g: "getExpiredTimers now (heap_of q) = (es, rest)"
    and run: "run_expired calls clock es (q\<lparr>heap_of := rest\<rparr>) = (fired, q1)"
    and c: "\<forall>n \<in> snd ` set es. n < counter (q\<lparr>heap_of := rest\<rparr>)" and d: "distinct (map snd es)"
    by (rule handleExpiredTimers_cases)
  have srt: "sorted es"
    using assms(1) getExpiredTimers_spec(2) [OF _ g] by (simp add: tq_inv_def fl_inv_def)
  have n: "n \<in> snd ` set es" "(expiration t, n) \<in> set es"
    using live_entry_due [OF assms(1) g assms(3)] assms(4) by simp_all
  have key: "fst f \<in> set (takeWhile (\<lambda>x. x \<noteq> n) (map snd es)) \<longleftrightarrow>
      (expiration (the (timers q (fst f))), fst f) < (expiration t, n)" if f: "f \<in> set fired" for f
  proof -
    obtain t' where t': "timers q (fst f) = Some t'" "expiration t' \<le> now"
      using round_fires_in_order(3) [OF assms(1,2) f] by blast
    then have "(expiration t', fst f) \<in> set es"
      using live_entry_due [OF assms(1) g t'(1)] by simp
    from takeWhile_before [OF srt d this n(2)] t'(1) show ?thesis by simp
  qed
  have "(n, cb_of t) \<in> set fired \<longleftrightarrow> n \<in> fst ` set fired"
  proof
    show "n \<in> fst ` set fired" if "(n, cb_of t) \<in> set fired" using imageI [OF that, of fst] by simp
    assume "n \<in> fst ` set fired"
    then obtain f where f: "f \<in> set fired" "fst f = n" by auto
    with round_fires_in_order(3) [OF assms(1,2) f(1)] assms(3) show "(n, cb_of t) \<in> set fired"
      by (cases f) auto
  qed
  also have "\<dots> \<longleftrightarrow> \<not> (\<exists>f \<in> set fired. fst f \<in> set (takeWhile (\<lambda>x. x \<noteq> n) (map snd es)) \<and>
      CancelTimer n \<in> set (calls (snd f)))"
    using run_expired_turn [OF run c d n(1)] assms(3) by simp
  finally show ?thesis using key by (auto simp: case_prod_beta)
qed

lemma round_timers:
  assumes "tq_inv q" and "handleExpiredTimers calls clock True now q = (fired, q')"
    and "timers q n = Some t"
  shows "timers q' n =
    (if cancels calls fired n then None
     else if expiration t \<le> now then
       (if interval_ms t > 0 then Some (t\<lparr>expiration := clock n + interval_ms t * 1000000\<rparr>) else None)
     else Some t)"
proof -
  from assms(1,2) obtain es rest q1 where g: "getExpiredTimers now (heap_of q) = (es, rest)"
    and run: "run_expired calls clock es (q\<lparr>heap_of := rest\<rparr>) = (fired, q1)" "q' = resetTimerFd q1"
    and c: "\<forall>n \<in> snd ` set es. n < counter (q\<lparr>heap_of := rest\<rparr>)" and d: "distinct (map snd es)"
    by (rule handleExpiredTimers_cases)
  have "n < counter q" using assms(1,3) by (simp add: tq_inv_def fl_inv_def)
  then show ?thesis
    using run_expired_timers [OF run(1) c d, of n] live_entry_due(1) [OF assms(1) g assms(3)] run(2) assms(3)
    by (simp add: restart_def isRepeated_def ms_to_ns_def)
qed

text \<open>
  Property C14. A round of \<open>handleExpiredTimers\<close> runs exactly what is due: the callbacks run in
  order of expiration and, for equal times, of creation; no timer runs twice or before its
  time; and a live timer whose time has come runs if and only if none of the timers that ran
  before it in this round cancelled it. A timer that is cancelled before its turn is not called.
\<close>
theorem expired_round_exact:
  assumes "tq_inv q" and "handleExpiredTimers calls clock True now q = (fired, q')"
  shows "sorted (map (\<lambda>n. (expiration (the (timers q n)), n)) (map fst fired)) \<and>
    distinct (map fst fired) \<and>
    (\<forall>(n, cb) \<in> set fired. \<exists>t. timers q n = Some t \<and> cb = cb_of t \<and> expiration t \<le> now) \<and>
    (\<forall>n t. timers q n = Some t \<longrightarrow> expiration t \<le> now \<longrightarrow>
       ((n, cb_of t) \<in> set fired \<longleftrightarrow>
        \<not> (\<exists>(m, cb) \<in> set fired. (expiration (the (timers q m)), m) < (expiration t, n) \<and>
             CancelTimer n \<in> set (calls cb))))"
  using round_fires_in_order [OF assms] round_turn [OF assms] by (auto split: prod.splits)

definition two_timers :: timer_queue where
  "two_timers = snd (addTimer 1 5 0 (snd (addTimer 2 3 10 (TimerQueue_new 0))))"

lemmas tq_eval = two_timers_def addTimer_def addTimer_in_loop_def Timer_new_def TimerQueue_new_def
  resetTimerFd_def to_timespec_def trunc_div_def handleExpiredTimers_def
  do_calls_def settle_def restart_def isRepeated_def ms_to_ns_def tq_inv_def fl_inv_def
  cancelTimer_def less_eq_prod_def

theorem expired_round_exact_witness:
  "let (fired, q') = handleExpiredTimers (\<lambda>cb. if cb = 2 then [CancelTimer 1] else []) (\<lambda>_. 6) True 6 two_timers
   in fired = [(0, 2)] \<and> timers two_timers 1 = Some \<lparr>expiration = 5, interval_ms = 0, cb_of = 1, sequence = 1\<rparr> \<and>
      (1, 1) \<notin> set fired"
  using expired_round_exact [of two_timers "\<lambda>cb. if cb = 2 then [CancelTimer 1] else []" "\<lambda>_. 6" 6 "[(0, 2)]"
      "snd (handleExpiredTimers (\<lambda>cb. if cb = 2 then [CancelTimer 1] else []) (\<lambda>_. 6) True 6 two_timers)"]
  by (simp add: tq_eval)

text \<open>
  What a round leaves of a timer that was live before it: nothing if a callback of
  the round cancelled it (its own callback included); the same timer if it was not due; and of
  a timer that was due, the timer with its interval added to the time of its restart when it
  repeats, and nothing when it does not.
\<close>
theorem expired_round_rearms:
  assumes "tq_inv q" and "handleExpiredTimers calls clock True now q = (fired, q')"
    and "timers q n = Some t"
  shows "timers q' n =
    (if cancels calls fired n then None
     else if expiration t \<le> now then
       (if interval_ms t > 0 then Some (t\<lparr>expiration := clock n + interval_ms t * 1000000\<rparr>) else None)
     else Some t)"
  using assms by (rule round_timers)

theorem expired_round_rearms_witness:
  "timers (snd (handleExpiredTimers (\<lambda>_. []) (\<lambda>_. 6) True 6 two_timers)) 0 =
     Some \<lparr>expiration = 10000006, interval_ms = 10, cb_of = 2, sequence = 0\<rparr>"
  using expired_round_rearms [of two_timers "\<lambda>_. []" "\<lambda>_. 6" 6 "[(0, 2), (1, 1)]"
      "snd (handleExpiredTimers (\<lambda>_. []) (\<lambda>_. 6) True 6 two_timers)" 0
      "\<lparr>expiration = 3, interval_ms = 10, cb_of = 2, sequence = 0\<rparr>"]
  by (simp add: tq_eval)

subsection \<open>Cancelled timers\<close>

lemma gone_step:
  assumes "gone n q"
  shows "gone n (snd (tq_step calls op q)) \<and> n \<notin> fst ` set (fst (tq_step calls op q))"
proof (cases op)
  case (Call c)
  with gone_do_calls [OF assms, of "[c]"] show ?thesis by (simp add: do_calls_def)
next
  case (Expire ok now clock)
  have "gone n (q\<lparr>heap_of := es\<rparr>)" for es using assms by (simp add: gone_def)
  from gone_run_expired [OF this] Expire assms show ?thesis
    by (auto simp: handleExpiredTimers_def gone_def case_prod_beta)
qed

lemma gone_run: "gone n q \<Longrightarrow> n \<notin> fst ` set (fst (tq_run calls ops q))"
proof (induction ops arbitrary: q)
  case (Cons op ops)
  from gone_step [OF Cons.prems, of calls op] Cons.IH [of "snd (tq_step calls op q)"] show ?case
    by (simp add: case_prod_beta Let_def image_Un)
qed simp

text \<open>
  Property C18. Once \<open>cancelTimer\<close> has run for an issued timer, that timer is never called again,
  in any later course of calls and rounds, although its entry may still be in the heap: numbers
  are not given twice and a restart only happens to a timer that is still in the table.
\<close>
theorem cancelled_never_fires:
  assumes "n < counter q"
  shows "n \<notin> fst ` set (fst (tq_run calls ops (cancelTimer n q)))"
  using assms by (intro gone_run) (simp add: gone_def)

theorem cancelled_never_fires_witness:
  "1 < counter two_timers \<and>
   1 \<notin> fst ` set (fst (tq_run (\<lambda>_. []) [Expire True 6 (\<lambda>_. 6)] (cancelTimer 1 two_timers)))"
proof -
  have "1 < counter two_timers" by (simp add: two_timers_def TimerQueue_new_def)
  with cancelled_never_fires [OF this] show ?thesis by blast
qed

subsection \<open>The timer descriptor\<close>

definition earliest :: "timer_queue \<Rightarrow> time option" where
  "earliest q = map_option fst (list_top (heap_of q))"

lemma to_timespec_nonneg:
  "0 \<le> tp \<Longrightarrow> to_timespec tp = (tp div 1000000000, tp mod 1000000000)"
  by (cases "tp = 0") (simp_all add: to_timespec_def trunc_div_def minus_div_mult_eq_mod)

lemma to_timespec_neg:
  "tp < 0 \<Longrightarrow> to_timespec tp = (- (- tp div 1000000000), - (- tp mod 1000000000))"
  using minus_div_mult_eq_mod [of "- tp" 1000000000]
  by (simp add: to_timespec_def trunc_div_def)

lemma to_timespec_value:
  "fst (to_timespec tp) * 1000000000 + snd (to_timespec tp) = tp"
  by (simp add: to_timespec_def Let_def)

lemma to_timespec_bounds:
  "\<bar>snd (to_timespec tp)\<bar> < 1000000000"
  "0 \<le> fst (to_timespec tp) \<and> 0 \<le> snd (to_timespec tp) \<longleftrightarrow> 0 \<le> tp"
proof -
  have m: "0 \<le> m mod 1000000000" "m mod 1000000000 < 1000000000" for m :: int by simp_all
  show "\<bar>snd (to_timespec tp)\<bar> < 1000000000"
    using m by (cases "0 \<le> tp") (simp_all add: to_timespec_nonneg to_timespec_neg)
  have "0 \<le> tp" if "0 \<le> fst (to_timespec tp) \<and> 0 \<le> snd (to_timespec tp)"
    using that to_timespec_value [of tp] by linarith
  moreover have "0 \<le> fst (to_timespec tp) \<and> 0 \<le> snd (to_timespec tp)" if "0 \<le> tp"
    using that by (simp add: to_timespec_nonneg)
  ultimately show "0 \<le> fst (to_timespec tp) \<and> 0 \<le> snd (to_timespec tp) \<longleftrightarrow> 0 \<le> tp" by blast
qed

lemma itimer_reset:
  "itimer (resetTimerFd q) = (case earliest q of None \<Rightarrow> (0, 0) | Some tp \<Rightarrow> to_timespec tp)"
  by (cases "heap_of q") (auto simp: resetTimerFd_def earliest_def list_top_def)

text \<open>
  What \<open>resetTimerFd\<close> passes to \<open>timerfd_settime\<close>, for every queue: the time of the
  earliest entry to the nanosecond, with nanoseconds below one second, and zero for an empty
  heap. Both fields are non-negative, as the kernel requires, exactly for times not before the
  epoch of the clock. A timer at the epoch itself is passed as the zero value that disarms the
  descriptor, as if the heap were empty.
\<close>
theorem resetTimerFd_arms:
  "let tp = (case earliest q of None \<Rightarrow> 0 | Some tp \<Rightarrow> tp); (s, ns) = itimer (resetTimerFd q)
   in s * 1000000000 + ns = tp \<and> \<bar>ns\<bar> < 1000000000 \<and> (0 \<le> s \<and> 0 \<le> ns \<longleftrightarrow> 0 \<le> tp) \<and>
      ((s, ns) = (0, 0) \<longleftrightarrow> earliest q = None \<or> earliest q = Some 0)"
proof (cases "earliest q")
  case None
  then show ?thesis by (simp add: itimer_reset)
next
  case (Some tp)
  obtain s ns where t: "to_timespec tp = (s, ns)" by fastforce
  with to_timespec_value [of tp] to_timespec_bounds [of tp] have
    "s * 1000000000 + ns = tp" "\<bar>ns\<bar> < 1000000000" "0 \<le> s \<and> 0 \<le> ns \<longleftrightarrow> 0 \<le> tp" by simp_all
  moreover from this have "s = 0 \<and> ns = 0 \<longleftrightarrow> tp = 0" by auto
  ultimately show ?thesis using Some t by (simp add: itimer_reset)
qed

definition armed_ok :: "timer_queue \<Rightarrow> bool" where
  "armed_ok q \<longleftrightarrow> itimer q = (case earliest q of None \<Rightarrow> (0, 0) | Some tp \<Rightarrow> to_timespec tp)"

lemma earliest_reset [simp]: "earliest (resetTimerFd q) = earliest q"
  by (simp add: earliest_def)

lemma armed_ok_reset: "armed_ok (resetTimerFd q)"
  by (simp add: armed_ok_def itimer_reset)

lemma armed_ok_add: "armed_ok q \<Longrightarrow> armed_ok (snd (addTimer cb tp ms q))"
proof -
  assume ok: "armed_ok q"
  define q1 where "q1 = q\<lparr>counter := counter q + 1, timers := (timers q)(counter q \<mapsto>
      \<lparr>expiration = tp, interval_ms = ms, cb_of = cb, sequence = counter q\<rparr>),
      heap_of := insort (tp, counter q) (heap_of q)\<rparr>"
  have a: "snd (addTimer cb tp ms q) = (if tp = fst (hd (heap_of q1)) then resetTimerFd q1 else q1)"
    by (cases "heap_of q1")
      (auto simp: addTimer_def addTimer_in_loop_def Timer_new_def Let_def q1_def split: list.split prod.split)
  have "armed_ok q1" if "tp \<noteq> fst (hd (heap_of q1))"
    using that ok by (cases "heap_of q") (auto simp: armed_ok_def q1_def earliest_def list_top_def)
  then show ?thesis using armed_ok_reset a by simp
qed

lemma armed_ok_step: "armed_ok q \<Longrightarrow> armed_ok (snd (tq_step calls op q))"
proof (induction calls op q rule: tq_step.induct)
  case (1 calls c q)
  then show ?case using armed_ok_add by (cases c) (auto simp: armed_ok_def earliest_def)
next
  case (2 calls read_ok now clock q)
  then show ?case using armed_ok_reset by (simp add: handleExpiredTimers_def case_prod_beta)
qed

lemma armed_ok_run: "armed_ok q \<Longrightarrow> armed_ok (snd (tq_run calls ops q))"
proof (induction ops arbitrary: q)
  case (Cons op ops)
  from Cons.IH [OF armed_ok_step [OF Cons.prems], of calls op] show ?case
    by (simp add: case_prod_beta Let_def)
qed simp

text \<open>
  After every course of calls, cancellations and rounds, the value last passed to
  \<open>timerfd_settime\<close> is the time of the earliest entry of the heap (zero when there is none):
  \<open>addTimer\<close> may skip the system call exactly when it does not change the earliest time, so no
  timer waits for a wakeup that was not asked for.
\<close>
theorem descriptor_follows_heap:
  "let q = snd (tq_run calls ops (TimerQueue_new n))
   in fst (itimer q) * 1000000000 + snd (itimer q) = (case earliest q of None \<Rightarrow> 0 | Some tp \<Rightarrow> tp)"
proof -
  have "armed_ok (TimerQueue_new n)"
    by (simp add: armed_ok_def earliest_def list_top_def TimerQueue_new_def)
  from armed_ok_run [OF this] show ?thesis
    by (auto simp: armed_ok_def Let_def to_timespec_value split: option.split)
qed

end
