(* ===== verification/EventLoop.thy ===== *)
theory EventLoop
  imports Epoller TimerQueue
begin

text \<open>
  \<open>net/EventLoop.cpp\<close> and \<open>Base/CurrentThread\<close>: the loop of one thread, the queue through which
  other threads hand it tasks, and the event descriptor that wakes it. The operations are
  functions on the state; \<open>loop_step\<close> interleaves the atomic steps of the loop's own thread with
  those of any number of other threads. A task is a number, and the fields \<open>submitted\<close> and
  \<open>executed\<close> record what was queued and what was run.
\<close>

section \<open>The current thread\<close>

text \<open>\<open>getTid\<close> asks the kernel once and then answers from the thread-local cache.\<close>

definition getTid :: "tid \<Rightarrow> tid \<Rightarrow> tid \<times> tid" where
  "getTid kernel_tid cached =
     (if cached = 0 then (kernel_tid, kernel_tid) else (cached, cached))"

section \<open>State\<close>

type_synonym task = nat

text \<open>
  Where the loop's thread is: outside of \<open>loop()\<close>, at the test of \<open>quit_\<close>, in the poller, in the
  callbacks of the ready channels (with those still to call), in \<open>executePendingTasks\<close> before the
  swap, and in the loop over the tasks.
\<close>

datatype loop_pc = Outside | Testing | Polling | Handling "callback list" | Swapping | Running

record event_loop =
  is_running :: bool
  quit_flag :: bool
  is_processing :: bool
  thread_id :: tid
  task_queue :: "task list"
  wakeup_count :: nat
  pc :: loop_pc
  tasks :: "task list"
  pushed :: "tid set"
  quitting :: "tid set"
  early :: bool
  submitted :: "task list"
  executed :: "task list"

definition EventLoop_init :: "tid \<Rightarrow> event_loop" where
  "EventLoop_init tid =
     \<lparr>is_running = False, quit_flag = True, is_processing = False, thread_id = tid, task_queue = [],
      wakeup_count = 0, pc = Outside, tasks = [], pushed = {}, quitting = {}, early = False,
      submitted = [], executed = []\<rparr>"

definition isInLoopThread :: "tid \<Rightarrow> event_loop \<Rightarrow> bool" where
  "isInLoopThread tid s \<longleftrightarrow> thread_id s = tid"

definition assertInLoopThread :: "tid \<Rightarrow> event_loop \<Rightarrow> unit res" where
  "assertInLoopThread tid s = (if isInLoopThread tid s then Inr () else Inl Abort)"

section \<open>Operations\<close>

text \<open>
  \<open>wakeup\<close> adds one to the event counter; a counter at its maximum makes the non-blocking write
  fail and stays as it is.
\<close>

definition EVENTFD_MAX :: nat where
  "EVENTFD_MAX = 2 ^ 64 - 2"

definition wakeup :: "event_loop \<Rightarrow> event_loop" where
  "wakeup s = (if wakeup_count s < EVENTFD_MAX then s\<lparr>wakeup_count := wakeup_count s + 1\<rparr> else s)"

definition handleWakeupRead :: "event_loop \<Rightarrow> event_loop" where
  "handleWakeupRead s = s\<lparr>wakeup_count := 0\<rparr>"

text \<open>The two halves of \<open>queueInLoop\<close>: the push under the lock, and the wakeup after it.\<close>

definition push_task :: "tid \<Rightarrow> task \<Rightarrow> event_loop \<Rightarrow> event_loop" where
  "push_task tid t s =
     s\<lparr>task_queue := task_queue s @ [t], submitted := submitted s @ [t], pushed := insert tid (pushed s),
       early := (early s \<or> isInLoopThread tid s \<and> pc s = Outside)\<rparr>"

definition wake_after_push :: "tid \<Rightarrow> event_loop \<Rightarrow> event_loop" where
  "wake_after_push tid s =
     (let s1 = s\<lparr>pushed := pushed s - {tid}\<rparr>
      in if \<not> isInLoopThread tid s1 \<or> is_processing s1 then wakeup s1 else s1)"

definition queueInLoop :: "tid \<Rightarrow> task \<Rightarrow> event_loop \<Rightarrow> event_loop" where
  "queueInLoop tid t s = wake_after_push tid (push_task tid t s)"

text \<open>\<open>runInLoop\<close> in the loop's thread calls the task at once; \<open>body\<close> is what the task does.\<close>

definition runInLoop ::
  "(task \<Rightarrow> event_loop \<Rightarrow> event_loop) \<Rightarrow> tid \<Rightarrow> task \<Rightarrow> event_loop \<Rightarrow> event_loop" where
  "runInLoop body tid t s = (if isInLoopThread tid s then body t s else queueInLoop tid t s)"

definition set_quit :: "tid \<Rightarrow> event_loop \<Rightarrow> event_loop" where
  "set_quit tid s =
     s\<lparr>quit_flag := True, quitting := (if isInLoopThread tid s then quitting s else insert tid (quitting s))\<rparr>"

definition wake_after_quit :: "tid \<Rightarrow> event_loop \<Rightarrow> event_loop" where
  "wake_after_quit tid s = wakeup (s\<lparr>quitting := quitting s - {tid}\<rparr>)"

definition quit :: "tid \<Rightarrow> event_loop \<Rightarrow> event_loop" where
  "quit tid s = (let s1 = set_quit tid s in if isInLoopThread tid s1 then s1 else wake_after_quit tid s1)"

text \<open>
  The beginning of \<open>loop()\<close>. A call while the loop runs only clears \<open>is_running_\<close>, whoever makes it.
\<close>

definition loop_enter :: "tid \<Rightarrow> event_loop \<Rightarrow> event_loop res" where
  "loop_enter tid s =
     (if is_running s then Inr (s\<lparr>is_running := False\<rparr>)
      else bind_res (assertInLoopThread tid s)
             (\<lambda>_. Inr (s\<lparr>is_running := True, quit_flag := False, pc := Testing\<rparr>)))"

definition loop_test :: "event_loop \<Rightarrow> event_loop" where
  "loop_test s = (if quit_flag s then s\<lparr>is_running := False, pc := Outside\<rparr> else s\<lparr>pc := Polling\<rparr>)"

text \<open>\<open>executePendingTasks\<close>, first in its steps and then as one call of the loop's thread.\<close>

definition begin_tasks :: "event_loop \<Rightarrow> event_loop" where
  "begin_tasks s = s\<lparr>is_processing := True, pc := Swapping\<rparr>"

definition swap_tasks :: "event_loop \<Rightarrow> event_loop" where
  "swap_tasks s = s\<lparr>tasks := task_queue s, task_queue := [], early := False, pc := Running\<rparr>"

definition take_task :: "event_loop \<Rightarrow> event_loop" where
  "take_task s = s\<lparr>executed := executed s @ [hd (tasks s)], tasks := tl (tasks s)\<rparr>"

definition end_tasks :: "event_loop \<Rightarrow> event_loop" where
  "end_tasks s = s\<lparr>is_processing := False, pc := Testing\<rparr>"

datatype loop_call = QueueInLoop task | Quit

fun do_loop_call :: "tid \<Rightarrow> loop_call \<Rightarrow> event_loop \<Rightarrow> event_loop" where
  "do_loop_call tid (QueueInLoop t) s = queueInLoop tid t s"
| "do_loop_call tid Quit s = quit tid s"

fun run_tasks :: "(task \<Rightarrow> loop_call list) \<Rightarrow> task list \<Rightarrow> event_loop \<Rightarrow> event_loop" where
  "run_tasks calls [] s = s"
| "run_tasks calls (t # ts) s =
     run_tasks calls ts (fold (do_loop_call (thread_id s)) (calls t) (take_task s))"

definition executePendingTasks :: "(task \<Rightarrow> loop_call list) \<Rightarrow> event_loop \<Rightarrow> event_loop" where
  "executePendingTasks calls s =
     (let s1 = swap_tasks (begin_tasks s) in end_tasks (run_tasks calls (tasks s1) s1))"

section \<open>Interleaving\<close>

text \<open>
  The atomic steps. A thread inside \<open>queueInLoop\<close> or \<open>quit\<close> (in \<open>pushed\<close> or \<open>quitting\<close>) finishes it
  before it does anything else; the loop's thread calls them from user code only: outside of
  \<open>loop()\<close>, in a callback, or in a task. \<open>poll\<close> may return at any time (it has a timeout of 10 ms)
  and reports the wakeup channel only when the counter is positive.
\<close>

definition user_code :: "event_loop \<Rightarrow> bool" where
  "user_code s \<longleftrightarrow> (case pc s of Outside \<Rightarrow> True | Handling _ \<Rightarrow> True | Running \<Rightarrow> True | _ \<Rightarrow> False)"

definition may_call :: "tid \<Rightarrow> event_loop \<Rightarrow> bool" where
  "may_call tid s \<longleftrightarrow> tid \<notin> pushed s \<and> tid \<notin> quitting s \<and> (isInLoopThread tid s \<longrightarrow> user_code s)"

definition loop_free :: "event_loop \<Rightarrow> bool" where
  "loop_free s \<longleftrightarrow> thread_id s \<notin> pushed s"

inductive loop_step :: "event_loop \<Rightarrow> event_loop \<Rightarrow> bool" where
  push: "may_call tid s \<Longrightarrow> loop_step s (push_task tid t s)"
| wake: "tid \<in> pushed s \<Longrightarrow> loop_step s (wake_after_push tid s)"
| quit_set: "may_call tid s \<Longrightarrow> loop_step s (set_quit tid s)"
| quit_wake: "tid \<in> quitting s \<Longrightarrow> loop_step s (wake_after_quit tid s)"
| enter: "pc s = Outside \<Longrightarrow> loop_free s \<Longrightarrow> \<not> is_running s \<Longrightarrow>
    loop_enter (thread_id s) s = Inr s' \<Longrightarrow> loop_step s s'"
| reenter: "is_running s \<Longrightarrow> loop_enter tid s = Inr s' \<Longrightarrow> loop_step s s'"
| test: "pc s = Testing \<Longrightarrow> loop_step s (loop_test s)"
| poll: "pc s = Polling \<Longrightarrow> WakeupRead \<in> set ready \<longrightarrow> 0 < wakeup_count s \<Longrightarrow>
    loop_step s (s\<lparr>pc := Handling ready\<rparr>)"
| handle_wakeup: "pc s = Handling (WakeupRead # ready) \<Longrightarrow> loop_free s \<Longrightarrow>
    loop_step s (handleWakeupRead (s\<lparr>pc := Handling ready\<rparr>))"
| handle_other: "pc s = Handling (cb # ready) \<Longrightarrow> loop_free s \<Longrightarrow> cb \<noteq> WakeupRead \<Longrightarrow>
    loop_step s (s\<lparr>pc := Handling ready\<rparr>)"
| begin_tasks: "pc s = Handling [] \<Longrightarrow> loop_free s \<Longrightarrow> loop_step s (begin_tasks s)"
| swap: "pc s = Swapping \<Longrightarrow> loop_step s (swap_tasks s)"
| task: "pc s = Running \<Longrightarrow> loop_free s \<Longrightarrow> tasks s \<noteq> [] \<Longrightarrow> loop_step s (take_task s)"
| end_tasks: "pc s = Running \<Longrightarrow> loop_free s \<Longrightarrow> tasks s = [] \<Longrightarrow> loop_step s (end_tasks s)"

inductive reachable :: "tid \<Rightarrow> event_loop \<Rightarrow> bool" for tid where
  init: "reachable tid (EventLoop_init tid)"
| step: "reachable tid s \<Longrightarrow> loop_step s s' \<Longrightarrow> reachable tid s'"

section \<open>The invariant\<close>

text \<open>
  \<open>covered\<close>: a waiting task has a wakeup that is there or about to come, unless it was queued by
  the loop's own thread before it entered \<open>loop()\<close>.
\<close>

definition covered :: "event_loop \<Rightarrow> bool" where
  "covered s \<longleftrightarrow> task_queue s = [] \<or> 0 < wakeup_count s \<or> pushed s - {thread_id s} \<noteq> {} \<or> early s"

definition quit_covered :: "event_loop \<Rightarrow> bool" where
  "quit_covered s \<longleftrightarrow> \<not> quit_flag s \<or> 0 < wakeup_count s \<or> quitting s \<noteq> {}"

definition in_order :: "event_loop \<Rightarrow> bool" where
  "in_order s \<longleftrightarrow> submitted s = executed s @ tasks s @ task_queue s"

definition phase_ok :: "event_loop \<Rightarrow> bool" where
  "phase_ok s \<longleftrightarrow> (is_processing s \<longleftrightarrow> pc s = Swapping \<or> pc s = Running) \<and>
     (tasks s \<noteq> [] \<longrightarrow> pc s = Running) \<and> (thread_id s \<in> pushed s \<longrightarrow> user_code s)"

definition wake_ok :: "event_loop \<Rightarrow> bool" where
  "wake_ok s \<longleftrightarrow>
     (case pc s of
        Handling _ \<Rightarrow> True
      | Swapping \<Rightarrow> True
      | Running \<Rightarrow> covered s \<or> thread_id s \<in> pushed s
      | Polling \<Rightarrow> covered s \<and> quit_covered s
      | _ \<Rightarrow> covered s)"

definition loop_inv :: "event_loop \<Rightarrow> bool" where
  "loop_inv s \<longleftrightarrow> in_order s \<and> phase_ok s \<and> wake_ok s"

lemmas loop_defs = push_task_def wake_after_push_def set_quit_def wake_after_quit_def
  loop_enter_def assertInLoopThread_def isInLoopThread_def loop_test_def begin_tasks_def
  swap_tasks_def take_task_def end_tasks_def handleWakeupRead_def Let_def

lemmas phase_defs = phase_ok_def user_code_def may_call_def loop_free_def

lemma EVENTFD_MAX_pos [simp]: "0 < EVENTFD_MAX"
  by (simp add: EVENTFD_MAX_def)

lemma wakeup_positive [simp]: "0 < wakeup_count (wakeup s)"
  by (cases "wakeup_count s = 0") (simp_all add: wakeup_def)

lemma wakeup_fields [simp]:
  "task_queue (wakeup s) = task_queue s" "pushed (wakeup s) = pushed s" "quitting (wakeup s) = quitting s"
  "thread_id (wakeup s) = thread_id s" "pc (wakeup s) = pc s" "tasks (wakeup s) = tasks s"
  "early (wakeup s) = early s" "submitted (wakeup s) = submitted s" "executed (wakeup s) = executed s"
  "is_processing (wakeup s) = is_processing s" "quit_flag (wakeup s) = quit_flag s"
  "is_running (wakeup s) = is_running s"
  by (simp_all add: wakeup_def)

lemma step_in_order: "loop_step s s' \<Longrightarrow> in_order s \<Longrightarrow> phase_ok s \<Longrightarrow> in_order s'"
  by (induction rule: loop_step.induct)
    (auto simp: in_order_def phase_ok_def loop_defs split: if_splits)

lemma step_phase_ok: "loop_step s s' \<Longrightarrow> phase_ok s \<Longrightarrow> phase_ok s'"
  by (induction rule: loop_step.induct)
    (auto simp: phase_defs loop_defs split: if_splits loop_pc.splits)

lemma step_wake_ok: "loop_step s s' \<Longrightarrow> phase_ok s \<Longrightarrow> wake_ok s \<Longrightarrow> wake_ok s'"
  by (induction rule: loop_step.induct)
    (auto simp: wake_ok_def covered_def quit_covered_def phase_defs loop_defs
      split: if_splits loop_pc.splits)

lemma step_thread_id: "loop_step s s' \<Longrightarrow> thread_id s' = thread_id s"
  by (induction rule: loop_step.induct) (auto simp: loop_defs split: if_splits)

lemma reachable_inv: "reachable tid s \<Longrightarrow> loop_inv s"
proof (induction rule: reachable.induct)
  case init
  show ?case
    by (simp add: loop_inv_def in_order_def phase_ok_def wake_ok_def covered_def EventLoop_init_def)
next
  case (step s s')
  then show ?case
    using step_in_order step_phase_ok step_wake_ok by (auto simp: loop_inv_def)
qed

lemma reachable_thread_id: "reachable tid s \<Longrightarrow> thread_id s = tid"
  by (induction rule: reachable.induct) (auto simp: EventLoop_init_def step_thread_id)

section \<open>The interface of a task queue\<close>

text \<open>
  What those who queue tasks rely on: in every step tasks leave at the front and enter at the back.
  Hence nothing that waits is overtaken, dropped or repeated, which is all the picture of a
  queue as a list needs. The loop is one provider; the queues of a server's world are another.
\<close>

locale fifo_tasks =
  fixes ok :: "'s \<Rightarrow> bool"
    and step :: "'s \<Rightarrow> 's \<Rightarrow> bool"
    and waiting :: "'s \<Rightarrow> 't list"
  assumes keeps_ok: "ok s \<Longrightarrow> step s s' \<Longrightarrow> ok s'"
    and front_to_back: "ok s \<Longrightarrow> step s s' \<Longrightarrow> \<exists>k added. waiting s' = drop k (waiting s) @ added"
begin

lemma run_front_to_back:
  "step\<^sup>*\<^sup>* s s' \<Longrightarrow> ok s \<Longrightarrow> ok s' \<and> (\<exists>k added. waiting s' = drop k (waiting s) @ added)"
proof (induction rule: rtranclp_induct)
  case base
  then show ?case by (metis append_Nil2 drop0)
next
  case (step s' s'')
  then obtain k added where IH: "ok s'" "waiting s' = drop k (waiting s) @ added" by blast
  obtain m more where "waiting s'' = drop m (waiting s') @ more" using front_to_back [OF IH(1) step.hyps(2)] by blast
  then have "waiting s'' = drop (m + k) (waiting s) @ (drop (m - length (drop k (waiting s))) added @ more)"
    by (simp add: IH(2))
  with keeps_ok [OF IH(1) step.hyps(2)] show ?case by blast
qed

lemma no_overtaking:
  assumes "step\<^sup>*\<^sup>* s s'" and "ok s" and "waiting s = before @ after"
  shows "(\<exists>k added. waiting s' = drop k before @ after @ added) \<or> (\<exists>k added. waiting s' = drop k after @ added)"
proof -
  obtain k added where w: "waiting s' = drop k (waiting s) @ added" using run_front_to_back [OF assms(1,2)] by blast
  show ?thesis
  proof (cases "k \<le> length before")
    case True
    with w have "waiting s' = drop k before @ after @ added" by (simp add: assms(3))
    then show ?thesis by blast
  next
    case False
    with w have "waiting s' = drop (k - length before) after @ added" by (simp add: assms(3))
    then show ?thesis by blast
  qed
qed

end

definition waiting_tasks :: "event_loop \<Rightarrow> task list" where
  "waiting_tasks s = tasks s @ task_queue s"

lemma loop_step_inv: "loop_step s s' \<Longrightarrow> loop_inv s \<Longrightarrow> loop_inv s'"
  using step_in_order step_phase_ok step_wake_ok by (auto simp: loop_inv_def)

lemma loop_step_waiting:
  "loop_step s s' \<Longrightarrow> phase_ok s \<Longrightarrow>
   waiting_tasks s' = waiting_tasks s \<or> (\<exists>t. waiting_tasks s' = waiting_tasks s @ [t]) \<or> waiting_tasks s' = tl (waiting_tasks s)"
  by (induction rule: loop_step.induct)
    (auto simp: waiting_tasks_def phase_ok_def loop_defs split: if_splits)

interpretation lq: fifo_tasks loop_inv loop_step waiting_tasks
proof unfold_locales
  fix s s' assume a: "loop_inv s" "loop_step s s'"
  show "loop_inv s'" by (rule loop_step_inv [OF a(2,1)])
  have "phase_ok s" using a(1) by (simp add: loop_inv_def)
  then consider "waiting_tasks s' = drop 0 (waiting_tasks s) @ []" | t where "waiting_tasks s' = drop 0 (waiting_tasks s) @ [t]"
    | "waiting_tasks s' = drop 1 (waiting_tasks s) @ []"
    using loop_step_waiting [OF a(2)] by (auto simp: drop_Suc)
  then show "\<exists>k added. waiting_tasks s' = drop k (waiting_tasks s) @ added" by cases blast+
qed

section \<open>Properties of the interleaved loop\<close>

text \<open>A small run for the witnesses: thread 2 queues task 7 on the loop of thread 1.\<close>

definition polling_loop :: event_loop where
  "polling_loop = (EventLoop_init 1)\<lparr>is_running := True, quit_flag := False, pc := Polling\<rparr>"

lemma polling_loop_reachable: "reachable 1 polling_loop"
proof -
  let ?a = "(EventLoop_init 1)\<lparr>is_running := True, quit_flag := False, pc := Testing\<rparr>"
  have "loop_step (EventLoop_init 1) ?a"
    by (rule loop_step.enter) (simp_all add: EventLoop_init_def loop_free_def loop_defs)
  then have "reachable 1 ?a" by (rule reachable.step [OF reachable.init])
  moreover have "loop_step ?a (loop_test ?a)" by (rule loop_step.test) simp
  ultimately have "reachable 1 (loop_test ?a)" by (rule reachable.step)
  then show ?thesis by (simp add: loop_test_def polling_loop_def)
qed

lemma pushed_reachable: "reachable 1 (push_task 2 7 polling_loop)"
  by (rule reachable.step [OF polling_loop_reachable])
    (rule loop_step.push, simp add: polling_loop_def EventLoop_init_def may_call_def isInLoopThread_def)

text \<open>
  Property C7. Tasks handed to the loop run exactly once and in the order in which they entered
  the queue, whatever the interleaving of the submitting threads with the loop: at every moment
  the tasks submitted so far are those executed, then those of the batch being run, then those
  waiting.
\<close>
theorem tasks_fifo_exactly_once:
  assumes "reachable tid s"
  shows "submitted s = executed s @ tasks s @ task_queue s"
  using reachable_inv [OF assms] by (simp add: loop_inv_def in_order_def)

theorem tasks_fifo_exactly_once_witness:
  "let s = push_task 2 7 polling_loop in submitted s = [7] \<and> submitted s = executed s @ tasks s @ task_queue s"
  using tasks_fifo_exactly_once [OF pushed_reachable]
  by (simp add: Let_def push_task_def polling_loop_def EventLoop_init_def)



text \<open>
  The exception occurs: the thread of the loop queues a task before it calls \<open>loop()\<close>;
  \<open>queueInLoop\<close> writes no wakeup, because the caller is the loop's thread and no tasks are being
  processed, and \<open>loop()\<close> then polls with the task waiting, the counter zero and nobody about to
  write it.
\<close>
theorem early_task_without_wakeup:
  "\<exists>s. reachable 1 s \<and> pc s = Polling \<and> task_queue s = [7] \<and> wakeup_count s = 0 \<and> pushed s = {} \<and> early s"
proof -
  let ?a = "push_task 1 7 (EventLoop_init 1)"
  let ?b = "wake_after_push 1 ?a"
  let ?c = "?b\<lparr>is_running := True, quit_flag := False, pc := Testing\<rparr>"
  note eval = push_task_def wake_after_push_def EventLoop_init_def isInLoopThread_def may_call_def
    user_code_def loop_free_def loop_enter_def assertInLoopThread_def loop_test_def
  have "reachable 1 ?a"
    by (rule reachable.step [OF reachable.init]) (rule loop_step.push, simp add: eval)
  moreover have "loop_step ?a ?b" by (rule loop_step.wake) (simp add: eval)
  ultimately have "reachable 1 ?b" by (rule reachable.step)
  moreover have "loop_step ?b ?c" by (rule loop_step.enter) (simp_all add: eval)
  ultimately have "reachable 1 ?c" by (rule reachable.step)
  moreover have "loop_step ?c (loop_test ?c)" by (rule loop_step.test) simp
  ultimately have "reachable 1 (loop_test ?c)" by (rule reachable.step)
  then show ?thesis by (rule exI [of _ "loop_test ?c", OF conjI]) (simp add: eval)
qed

section \<open>One batch of tasks\<close>

definition queued_by :: "loop_call list \<Rightarrow> task list" where
  "queued_by cs = concat (map (\<lambda>c. case c of QueueInLoop t \<Rightarrow> [t] | Quit \<Rightarrow> []) cs)"

lemma queued_by_simps [simp]:
  "queued_by [] = []" "queued_by (QueueInLoop t # cs) = t # queued_by cs" "queued_by (Quit # cs) = queued_by cs"
  by (simp_all add: queued_by_def)

fun requeued :: "(task \<Rightarrow> loop_call list) \<Rightarrow> task list \<Rightarrow> task list" where
  "requeued calls [] = []"
| "requeued calls (t # ts) = queued_by (calls t) @ requeued calls ts"

text \<open>The state in which a task runs, and what the calls of a task leave as it was.\<close>

definition in_task :: "event_loop \<Rightarrow> bool" where
  "in_task s \<longleftrightarrow> pc s = Running \<and> is_processing s \<and> thread_id s \<notin> pushed s \<and> thread_id s \<notin> quitting s"

lemma queueInLoop_in_task:
  assumes "in_task s"
  shows "in_task (queueInLoop (thread_id s) t s)"
    and "task_queue (queueInLoop (thread_id s) t s) = task_queue s @ [t]"
    and "0 < wakeup_count (queueInLoop (thread_id s) t s)"
    and "executed (queueInLoop (thread_id s) t s) = executed s"
    and "tasks (queueInLoop (thread_id s) t s) = tasks s"
    and "thread_id (queueInLoop (thread_id s) t s) = thread_id s"
    and "loop_step\<^sup>*\<^sup>* s (queueInLoop (thread_id s) t s)"
proof -
  show "in_task (queueInLoop (thread_id s) t s)"
    "task_queue (queueInLoop (thread_id s) t s) = task_queue s @ [t]"
    "0 < wakeup_count (queueInLoop (thread_id s) t s)"
    "executed (queueInLoop (thread_id s) t s) = executed s"
    "tasks (queueInLoop (thread_id s) t s) = tasks s"
    "thread_id (queueInLoop (thread_id s) t s) = thread_id s"
    using assms by (simp_all add: in_task_def queueInLoop_def push_task_def wake_after_push_def Let_def)
  have "loop_step s (push_task (thread_id s) t s)"
    using assms by (intro loop_step.push) (simp add: in_task_def may_call_def user_code_def)
  moreover have "loop_step (push_task (thread_id s) t s) (queueInLoop (thread_id s) t s)"
    unfolding queueInLoop_def by (rule loop_step.wake) (simp add: push_task_def)
  ultimately show "loop_step\<^sup>*\<^sup>* s (queueInLoop (thread_id s) t s)" by auto
qed

lemma quit_in_task:
  assumes "in_task s"
  shows "quit (thread_id s) s = s\<lparr>quit_flag := True\<rparr>" "in_task (s\<lparr>quit_flag := True\<rparr>)"
    "loop_step s (s\<lparr>quit_flag := True\<rparr>)"
proof -
  show "quit (thread_id s) s = s\<lparr>quit_flag := True\<rparr>" "in_task (s\<lparr>quit_flag := True\<rparr>)"
    using assms by (simp_all add: quit_def set_quit_def isInLoopThread_def in_task_def)
  have "set_quit (thread_id s) s = s\<lparr>quit_flag := True\<rparr>" by (simp add: set_quit_def isInLoopThread_def)
  moreover have "loop_step s (set_quit (thread_id s) s)"
    using assms by (intro loop_step.quit_set) (simp add: in_task_def may_call_def user_code_def)
  ultimately show "loop_step s (s\<lparr>quit_flag := True\<rparr>)" by simp
qed

lemma call_in_task:
  assumes "in_task s"
  shows "let s' = do_loop_call (thread_id s) c s
    in in_task s' \<and> thread_id s' = thread_id s \<and> task_queue s' = task_queue s @ queued_by [c] \<and>
       (queued_by [c] = [] \<or> 0 < wakeup_count s') \<and> wakeup_count s' \<ge> min 1 (wakeup_count s) \<and>
       executed s' = executed s \<and> tasks s' = tasks s \<and> loop_step\<^sup>*\<^sup>* s s'"
proof (cases c)
  case (QueueInLoop t)
  moreover have "min 1 (wakeup_count s) \<le> wakeup_count (queueInLoop (thread_id s) t s)"
    using queueInLoop_in_task(3) [OF assms, of t] by linarith
  ultimately show ?thesis by (simp add: queueInLoop_in_task [OF assms] Let_def)
next
  case Quit
  then show ?thesis by (simp add: quit_in_task [OF assms] r_into_rtranclp Let_def)
qed

lemma calls_in_task:
  "in_task s \<Longrightarrow> thread_id s = tid \<Longrightarrow> s' = fold (do_loop_call tid) cs s \<Longrightarrow>
   in_task s' \<and> thread_id s' = tid \<and> task_queue s' = task_queue s @ queued_by cs \<and>
   (queued_by cs = [] \<or> 0 < wakeup_count s') \<and> wakeup_count s' \<ge> min 1 (wakeup_count s) \<and>
   executed s' = executed s \<and> tasks s' = tasks s \<and> loop_step\<^sup>*\<^sup>* s s'"
proof (induction cs arbitrary: s)
  case (Cons c cs)
  let ?s = "do_loop_call tid c s"
  have s1: "in_task ?s" "thread_id ?s = tid" "task_queue ?s = task_queue s @ queued_by [c]"
    "queued_by [c] = [] \<or> 0 < wakeup_count ?s" "wakeup_count ?s \<ge> min 1 (wakeup_count s)"
    "executed ?s = executed s" "tasks ?s = tasks s" "loop_step\<^sup>*\<^sup>* s ?s"
    using call_in_task [OF Cons.prems(1), of c] Cons.prems(2) by (simp_all add: Let_def)
  have app: "queued_by (c # cs) = queued_by [c] @ queued_by cs" by (cases c) simp_all
  from Cons.IH [OF s1(1,2)] Cons.prems(3) have
    IH: "in_task s'" "thread_id s' = tid" "task_queue s' = task_queue ?s @ queued_by cs"
      "queued_by cs = [] \<or> 0 < wakeup_count s'" "wakeup_count s' \<ge> min 1 (wakeup_count ?s)"
      "executed s' = executed ?s" "tasks s' = tasks ?s" "loop_step\<^sup>*\<^sup>* ?s s'" by simp_all
  have "loop_step\<^sup>*\<^sup>* s s'" using s1(8) IH(8) by (rule rtranclp_trans)
  moreover have "queued_by (c # cs) = [] \<or> 0 < wakeup_count s'" using s1(4) IH(4,5) app by auto
  moreover have "wakeup_count s' \<ge> min 1 (wakeup_count s)" using s1(5) IH(5) by linarith
  ultimately show ?case using s1 IH app by simp
qed simp

lemma run_tasks_steps:
  "in_task s \<Longrightarrow> tasks s = ts \<Longrightarrow> s' = run_tasks calls ts s \<Longrightarrow>
   in_task s' \<and> thread_id s' = thread_id s \<and> tasks s' = [] \<and> executed s' = executed s @ ts \<and>
   task_queue s' = task_queue s @ requeued calls ts \<and>
   (requeued calls ts = [] \<or> 0 < wakeup_count s') \<and>
   wakeup_count s' \<ge> min 1 (wakeup_count s) \<and> loop_step\<^sup>*\<^sup>* s s'"
proof (induction ts arbitrary: s)
  case (Cons t ts)
  let ?s = "take_task s" and ?u = "fold (do_loop_call (thread_id s)) (calls t) (take_task s)"
  have s1: "in_task ?s" "thread_id ?s = thread_id s" "tasks ?s = ts" "executed ?s = executed s @ [t]"
    "task_queue ?s = task_queue s" "wakeup_count ?s = wakeup_count s"
    using Cons.prems(1,2) by (simp_all add: take_task_def in_task_def)
  have st: "loop_step s ?s"
    using Cons.prems(1,2) by (intro loop_step.task) (simp_all add: in_task_def loop_free_def)
  note u = calls_in_task [OF s1(1,2) refl, of "calls t"]
  from u s1(3) Cons.prems(3) Cons.IH [of ?u] have
    IH: "in_task s'" "thread_id s' = thread_id ?u" "tasks s' = []" "executed s' = executed ?u @ ts"
      "task_queue s' = task_queue ?u @ requeued calls ts"
      "requeued calls ts = [] \<or> 0 < wakeup_count s'"
      "wakeup_count s' \<ge> min 1 (wakeup_count ?u)" "loop_step\<^sup>*\<^sup>* ?u s'" by simp_all
  have "loop_step\<^sup>*\<^sup>* s s'" using st u IH(8) by (meson converse_rtranclp_into_rtranclp rtranclp_trans)
  moreover have "wakeup_count s' \<ge> min 1 (wakeup_count s)" using u IH(7) s1(6) by linarith
  moreover have "requeued calls (t # ts) = [] \<or> 0 < wakeup_count s'"
    using u IH(6,7) by auto
  ultimately show ?case using u s1 IH by simp
qed simp

lemma executePendingTasks_steps:
  assumes "pc s = Handling []" and "thread_id s \<notin> pushed s" and "thread_id s \<notin> quitting s"
    and "s' = executePendingTasks calls s"
  shows "loop_step\<^sup>*\<^sup>* s s'" "executed s' = executed s @ task_queue s"
    "task_queue s' = requeued calls (task_queue s)" "task_queue s' = [] \<or> 0 < wakeup_count s'"
    "pc s' = Testing" "\<not> is_processing s'" "thread_id s' = thread_id s"
    "thread_id s' \<notin> pushed s'" "thread_id s' \<notin> quitting s'"
proof -
  let ?a = "EventLoop.begin_tasks s" and ?b = "swap_tasks (EventLoop.begin_tasks s)"
  let ?c = "run_tasks calls (task_queue s) ?b"
  have b: "in_task ?b" "tasks ?b = task_queue s" "executed ?b = executed s" "task_queue ?b = []"
    using assms by (simp_all add: in_task_def swap_tasks_def begin_tasks_def)
  note c = run_tasks_steps [OF b(1,2) refl, of calls]
  have "loop_step s ?a" using assms by (intro loop_step.begin_tasks) (simp_all add: loop_free_def)
  moreover have "loop_step ?a ?b" by (rule loop_step.swap) (simp add: begin_tasks_def)
  moreover have "in_task ?c" "tasks ?c = []" using c by blast+
  then have "loop_step ?c (end_tasks ?c)"
    by (intro loop_step.end_tasks) (simp_all add: in_task_def loop_free_def)
  ultimately have "loop_step\<^sup>*\<^sup>* s (end_tasks ?c)"
    using c by (meson converse_rtranclp_into_rtranclp rtranclp.rtrancl_into_rtrancl)
  moreover have s': "s' = end_tasks ?c" using assms(4) b(2) by (simp add: executePendingTasks_def Let_def)
  ultimately show "loop_step\<^sup>*\<^sup>* s s'" by simp
  have "thread_id ?b = thread_id s" by (simp add: swap_tasks_def begin_tasks_def)
  with b c show "executed s' = executed s @ task_queue s" "task_queue s' = requeued calls (task_queue s)"
    "task_queue s' = [] \<or> 0 < wakeup_count s'" "pc s' = Testing" "\<not> is_processing s'" "thread_id s' = thread_id s"
    "thread_id s' \<notin> pushed s'" "thread_id s' \<notin> quitting s'"
    by (auto simp: s' end_tasks_def in_task_def)
qed

text \<open>
  A call of \<open>executePendingTasks\<close> is a run of the atomic steps of the loop. It
  executes exactly the tasks that waited when it swapped the queue, in their order. What these
  tasks queue in turn is not executed in the same call but is exactly what waits afterwards,
  and then the event counter is positive, so the next poll returns at once.
\<close>
theorem executePendingTasks_batch:
  assumes "pc s = Handling []" and "thread_id s \<notin> pushed s" and "thread_id s \<notin> quitting s"
  shows "let s' = executePendingTasks calls s
    in loop_step\<^sup>*\<^sup>* s s' \<and> executed s' = executed s @ task_queue s \<and>
       task_queue s' = requeued calls (task_queue s) \<and>
       (task_queue s' = [] \<or> 0 < wakeup_count s') \<and> pc s' = Testing \<and> is_processing s' = False"
  using executePendingTasks_steps [OF assms refl] by (simp add: Let_def)

theorem executePendingTasks_batch_witness:
  "let s = (EventLoop_init 1)\<lparr>is_running := True, quit_flag := False, pc := Handling [], task_queue := [5, 6]\<rparr>;
       s' = executePendingTasks (\<lambda>t. if t = 5 then [QueueInLoop 9] else [Quit]) s
   in executed s' = [5, 6] \<and> task_queue s' = [9] \<and> 0 < wakeup_count s'"
  using executePendingTasks_batch [of
      "(EventLoop_init 1)\<lparr>is_running := True, quit_flag := False, pc := Handling [], task_queue := [5, 6]\<rparr>"
      "\<lambda>t. if t = 5 then [QueueInLoop 9] else [Quit]"]
  by (auto simp: EventLoop_init_def Let_def)

text \<open>
  A \<open>quit()\<close> that reaches the loop before \<open>loop()\<close> is entered has no effect: \<open>loop()\<close>
  clears the request, and the loop polls with nothing that records it. A thread that waits for
  the loop to end after such a \<open>quit()\<close> waits forever.
\<close>
theorem quit_before_loop_is_lost:
  assumes "pc s = Outside" and "\<not> is_running s" and "other \<noteq> thread_id s"
  shows "\<exists>s'. loop_enter (thread_id s) (quit other s) = Inr s' \<and> \<not> quit_flag s' \<and> pc (loop_test s') = Polling"
  using assms
  by (simp add: loop_enter_def quit_def set_quit_def wake_after_quit_def assertInLoopThread_def
      isInLoopThread_def Let_def loop_test_def)

theorem quit_before_loop_is_lost_witness:
  "\<exists>s'. loop_enter 1 (quit 2 (EventLoop_init 1)) = Inr s' \<and> \<not> quit_flag s' \<and> pc (loop_test s') = Polling"
  using quit_before_loop_is_lost [of "EventLoop_init 1" 2] by (simp add: EventLoop_init_def)

section \<open>Leaving the loop\<close>

text \<open>
  What the loop's thread does next on its own, when a poll it is in runs into its timeout.
\<close>

definition own_step :: "event_loop \<Rightarrow> event_loop" where
  "own_step s =
     (case pc s of
        Outside \<Rightarrow> s
      | Testing \<Rightarrow> loop_test s
      | Polling \<Rightarrow> s\<lparr>pc := Handling []\<rparr>
      | Handling [] \<Rightarrow> begin_tasks s
      | Handling (cb # ready) \<Rightarrow>
          if cb = WakeupRead then handleWakeupRead (s\<lparr>pc := Handling ready\<rparr>) else s\<lparr>pc := Handling ready\<rparr>
      | Swapping \<Rightarrow> swap_tasks s
      | Running \<Rightarrow> if tasks s = [] then end_tasks s else take_task s)"

lemmas own_step_defs = own_step_def loop_test_def begin_tasks_def swap_tasks_def take_task_def end_tasks_def
  handleWakeupRead_def

lemma own_step_is_step:
  assumes "pc s \<noteq> Outside" and "loop_free s"
  shows "loop_step s (own_step s)"
proof (cases "pc s")
  case (Handling ready)
  then show ?thesis using assms(2)
    by (cases ready) (auto simp: own_step_def intro: loop_step.begin_tasks loop_step.handle_wakeup loop_step.handle_other)
next
  case Polling
  then show ?thesis using loop_step.poll [of s "[]"] by (simp add: own_step_def)
next
  case Running
  then show ?thesis using assms(2) by (auto simp: own_step_def intro: loop_step.task loop_step.end_tasks)
qed (use assms in \<open>auto simp: own_step_def intro: loop_step.test loop_step.swap\<close>)

lemma own_step_moves: "pc s \<noteq> Outside \<Longrightarrow> (pc (own_step s), tasks (own_step s)) \<noteq> (pc s, tasks s)"
  by (auto simp: own_step_defs split: loop_pc.splits list.splits) (metis list.collapse not_Cons_self2)

section \<open>Channels of a loop\<close>

text \<open>
  The poller of a loop is chosen once, from the environment variable \<open>HYPERMUDUO_USE_POLL\<close> (on
  Linux). Both kinds keep the laws of \<open>poller_base\<close>, hence so does the chosen one.
\<close>

datatype backend = PollBackend poller | EpollBackend epoller

definition getPoller :: "string option \<Rightarrow> backend" where
  "getPoller env =
     (case env of
        None \<Rightarrow> EpollBackend Epoller_new
      | Some v \<Rightarrow> if v = ''1'' then PollBackend Poller_new else EpollBackend Epoller_new)"

definition lift_backend :: "('p \<Rightarrow> backend) \<Rightarrow> (chan_heap \<times> 'p) res \<Rightarrow> (chan_heap \<times> backend) res" where
  "lift_backend k r = bind_res r (\<lambda>(h, p). Inr (h, k p))"

definition backend_update ::
  "bool \<Rightarrow> bool \<Rightarrow> addr \<Rightarrow> chan_heap \<times> backend \<Rightarrow> (chan_heap \<times> backend) res" where
  "backend_update kernel_ok in_loop_thread c = (\<lambda>(h, b).
     (case b of
        PollBackend p \<Rightarrow> lift_backend PollBackend (Poller_updateChannel in_loop_thread c (h, p))
      | EpollBackend p \<Rightarrow> lift_backend EpollBackend (Epoller_updateChannel kernel_ok in_loop_thread c (h, p))))"

definition backend_remove ::
  "bool \<Rightarrow> bool \<Rightarrow> addr \<Rightarrow> chan_heap \<times> backend \<Rightarrow> (chan_heap \<times> backend) res" where
  "backend_remove kernel_ok in_loop_thread c = (\<lambda>(h, b).
     (case b of
        PollBackend p \<Rightarrow> lift_backend PollBackend (Poller_removeChannel in_loop_thread c (h, p))
      | EpollBackend p \<Rightarrow> lift_backend EpollBackend (Epoller_removeChannel kernel_ok in_loop_thread c (h, p))))"

text \<open>\<open>updateChannel\<close> and \<open>removeChannel\<close> of the loop with the number \<open>this\<close>, called by thread \<open>tid\<close>.\<close>

definition EventLoop_updateChannel ::
  "nat \<Rightarrow> tid \<Rightarrow> event_loop \<Rightarrow> bool \<Rightarrow> addr \<Rightarrow> chan_heap \<times> backend \<Rightarrow> (chan_heap \<times> backend) res" where
  "EventLoop_updateChannel this tid s kernel_ok c hb =
     (case fst hb c of
        None \<Rightarrow> Inl NullDereference
      | Some ch \<Rightarrow>
          if loop_of ch = this
          then bind_res (assertInLoopThread tid s) (\<lambda>_. backend_update kernel_ok (isInLoopThread tid s) c hb)
          else Inr hb)"

definition EventLoop_removeChannel ::
  "nat \<Rightarrow> tid \<Rightarrow> event_loop \<Rightarrow> bool \<Rightarrow> addr \<Rightarrow> chan_heap \<times> backend \<Rightarrow> (chan_heap \<times> backend) res" where
  "EventLoop_removeChannel this tid s kernel_ok c hb =
     (case fst hb c of
        None \<Rightarrow> Inl NullDereference
      | Some ch \<Rightarrow>
          if loop_of ch = this
          then bind_res (assertInLoopThread tid s) (\<lambda>_. backend_remove kernel_ok (isInLoopThread tid s) c hb)
          else Inr hb)"

definition backend_inv :: "chan_heap \<times> backend \<Rightarrow> bool" where
  "backend_inv = (\<lambda>(h, b). case b of PollBackend p \<Rightarrow> poll_inv (h, p) | EpollBackend p \<Rightarrow> epoll_inv (h, p))"

definition backend_watched :: "chan_heap \<times> backend \<Rightarrow> fd \<rightharpoonup> (addr \<times> event_mask)" where
  "backend_watched = (\<lambda>(h, b).
     case b of PollBackend p \<Rightarrow> poll_watched (h, p) | EpollBackend p \<Rightarrow> epoll_watched (h, p))"

text \<open>What the poller in use asks the kernel for on account of an interest.\<close>

definition backend_asked :: "backend \<Rightarrow> event_mask \<Rightarrow> event_mask" where
  "backend_asked b m = (case b of PollBackend p \<Rightarrow> m | EpollBackend p \<Rightarrow> m OR EPOLLRDHUP)"

lemma lift_backend_simps [simp]:
  "lift_backend k (Inl e) = Inl e" "lift_backend k (Inr (h, p)) = Inr (h, k p)"
  by (simp_all add: lift_backend_def)

lemma backend_asked_simps [simp]:
  "backend_asked (PollBackend p) = (\<lambda>m. m)" "backend_asked (EpollBackend q) = with_rdhup"
  by (simp_all add: backend_asked_def with_rdhup_def fun_eq_iff)

lemmas backend_defs = backend_update_def backend_remove_def backend_inv_def backend_watched_def

interpretation backend: poller_base backend_inv backend_watched "backend_update True" "backend_remove True" backend_asked
proof unfold_locales
  fix c :: addr and hb :: "chan_heap \<times> backend"
  show "backend_update True False c hb = Inl Abort" "backend_remove True False c hb = Inl Abort"
    by (cases hb; cases "snd hb"; simp add: backend_defs poll.thread_law epoll.thread_law)+
next
  fix h :: chan_heap and b c ch
  assume a: "backend_inv (h, b)" "h c = Some ch" "valid_mask (events ch)"
    "fd_free (backend_watched (h, b)) c ch"
  show "\<exists>h' b'. backend_update True True c (h, b) = Inr (h', b') \<and> backend_inv (h', b') \<and>
      same_channels h h' \<and> backend_watched (h', b') = (backend_watched (h, b))(fd_of ch \<mapsto> (c, backend_asked b (events ch))) \<and>
      backend_asked b' = backend_asked b"
  proof (cases b)
    case (PollBackend p)
    with a poll.update_law [of h p c ch] show ?thesis by (fastforce simp: backend_defs)
  next
    case (EpollBackend p)
    with a epoll.update_law [of h p c ch] show ?thesis by (fastforce simp: backend_defs)
  qed
next
  fix h :: chan_heap and b c ch m
  assume a: "backend_inv (h, b)" "h c = Some ch" "backend_watched (h, b) (fd_of ch) = Some (c, m)"
  show "\<exists>h' b'. backend_remove True True c (h, b) = Inr (h', b') \<and> backend_inv (h', b') \<and>
      same_channels h h' \<and> backend_watched (h', b') = (backend_watched (h, b))(fd_of ch := None) \<and>
      backend_asked b' = backend_asked b"
  proof (cases b)
    case (PollBackend p)
    with a poll.remove_law [of h p c ch m] show ?thesis by (fastforce simp: backend_defs)
  next
    case (EpollBackend p)
    with a epoll.remove_law [of h p c ch m] show ?thesis by (fastforce simp: backend_defs)
  qed
next
  fix h :: chan_heap and b c ch m
  assume "backend_inv (h, b)" and "h c = Some ch"
  then show "backend_inv (h(c \<mapsto> ch\<lparr>events := m\<rparr>), b) \<and>
      backend_watched (h(c \<mapsto> ch\<lparr>events := m\<rparr>), b) = backend_watched (h, b)"
    using poll.interest_law epoll.interest_law by (cases b) (simp_all add: backend_defs)
qed

lemma getPoller_inv: "backend_inv (h, getPoller env)" if "\<forall>c ch. h c = Some ch \<longrightarrow> index_of ch = NOT_FILL \<and> 0 \<le> fd_of ch"
  using that by (auto simp: getPoller_def backend_inv_def poll_inv_def epoll_inv_def Poller_new_def
      Epoller_new_def split: option.split)

lemma getPoller_watches_nothing: "backend_watched (h, getPoller env) fd = None"
  by (auto simp: getPoller_def backend_watched_def poll_watched_def epoll_watched_def Poller_new_def
      Epoller_new_def split: option.split)

text \<open>
  What a loop promises for a channel of its own, whichever poller the environment
  chose: in the loop's thread, \<open>updateChannel\<close> makes the descriptor watched for the channel's
  events (and, with \<open>epoll\<close>, for \<open>EPOLLRDHUP\<close>), and a following \<open>removeChannel\<close> restores what was watched before. From any
  other thread both calls abort, and a channel of another loop is left alone.
\<close>
theorem loop_channel_lifecycle:
  assumes "backend_inv (h, b)" and "h c = Some ch" and "loop_of ch = this" and "valid_mask (events ch)"
    and "backend_watched (h, b) (fd_of ch) = None" and "tid \<noteq> thread_id s" and "other \<noteq> this"
  shows "(\<exists>s1 s2. EventLoop_updateChannel this (thread_id s) s True c (h, b) = Inr s1 \<and>
      backend_watched s1 (fd_of ch) = Some (c, backend_asked b (events ch)) \<and>
      EventLoop_removeChannel this (thread_id s) s True c s1 = Inr s2 \<and>
      backend_inv s2 \<and> backend_watched s2 = backend_watched (h, b)) \<and>
    EventLoop_updateChannel this tid s True c (h, b) = Inl Abort \<and>
    EventLoop_removeChannel this tid s True c (h, b) = Inl Abort \<and>
    EventLoop_updateChannel other tid s True c (h, b) = Inr (h, b) \<and>
    EventLoop_removeChannel other tid s True c (h, b) = Inr (h, b)"
proof -
  obtain h1 b1 s2 where u: "backend_update True True c (h, b) = Inr (h1, b1)" "same_channels h h1"
      "backend_watched (h1, b1) (fd_of ch) = Some (c, backend_asked b (events ch))"
      "backend_remove True True c (h1, b1) = Inr s2" "backend_inv s2" "backend_watched s2 = backend_watched (h, b)"
    using backend.update_then_remove [OF assms(1,2,4,5)] by fast
  obtain i where "h1 c = Some (setIndex i ch)" using same_channelsD [OF u(2) assms(2)] by blast
  with u assms(2,3,6,7) show ?thesis
    by (cases s2) (auto simp: EventLoop_updateChannel_def EventLoop_removeChannel_def assertInLoopThread_def
        isInLoopThread_def setIndex_def)
qed

theorem loop_channel_lifecycle_witness:
  "\<exists>s1. EventLoop_updateChannel 0 1 (EventLoop_init 1) True 5
      ([5 \<mapsto> listenTillReadable (Channel_new 0 7)], getPoller (Some ''1'')) = Inr s1 \<and>
    backend_watched s1 7 = Some (5, kReadEvent)"
proof -
  let ?ch = "listenTillReadable (Channel_new 0 7)" and ?b = "getPoller (Some ''1'')"
  have f: "loop_of ?ch = 0" "fd_of ?ch = 7" "index_of ?ch = NOT_FILL" "events ?ch = kReadEvent"
    by (simp_all add: listenTillReadable_def Channel_new_def kNoneEvent_def)
  have "backend_inv ([5 \<mapsto> ?ch], ?b)" by (rule getPoller_inv) (simp add: f)
  moreover have "valid_mask (events ?ch)" by (simp only: valid_mask_interest)
  moreover have "backend_asked ?b kReadEvent = kReadEvent" by (simp add: getPoller_def)
  ultimately show ?thesis
    using loop_channel_lifecycle [of "[5 \<mapsto> ?ch]" ?b 5 ?ch 0 2 "EventLoop_init 1" 1] f
      getPoller_watches_nothing
    by (auto simp: EventLoop_init_def)
qed

section \<open>One iteration of the loop\<close>

text \<open>
  The body of the loop before the pending tasks: \<open>poll\<close>, then \<open>handleEvent\<close> of every ready channel
  in turn. \<open>pr\<close> and \<open>wr\<close> are the kernel's answers to \<open>poll\<close> and \<open>epoll_wait\<close>. What a callback does to
  the channels and the poller is given by \<open>run\<close>; a channel that is gone when its turn comes is a
  use of freed memory.
\<close>

definition backend_poll ::
  "poll_result \<Rightarrow> wait_result \<Rightarrow> chan_heap \<times> backend \<Rightarrow> (addr list \<times> chan_heap \<times> backend) res" where
  "backend_poll pr wr = (\<lambda>(h, b).
     (case b of
        PollBackend p \<Rightarrow> bind_res (Poller_poll pr (h, p)) (\<lambda>(act, h1, p1). Inr (act, h1, PollBackend p1))
      | EpollBackend p \<Rightarrow> bind_res (Epoller_poll wr (h, p)) (\<lambda>(act, h1, p1). Inr (act, h1, EpollBackend p1))))"

text \<open>
  \<open>handleEvent\<close> on the store of channels: before each of its three tests the channel has to exist,
  since the callback of the test before may have destroyed it.
\<close>

type_synonym cb_effect = "addr \<Rightarrow> invocation \<Rightarrow> chan_heap \<times> backend \<Rightarrow> (chan_heap \<times> backend) res"

fun call_each :: "cb_effect \<Rightarrow> addr \<Rightarrow> invocation list \<Rightarrow> chan_heap \<times> backend \<Rightarrow> (chan_heap \<times> backend) res" where
  "call_each run c [] hb = Inr hb"
| "call_each run c (i # is) hb = bind_res (run c i hb) (call_each run c is)"

fun handle_tests ::
  "cb_effect \<Rightarrow> addr \<Rightarrow> (channel \<Rightarrow> invocation list) list \<Rightarrow> chan_heap \<times> backend \<Rightarrow>
   (invocation list \<times> chan_heap \<times> backend) res" where
  "handle_tests run c [] hb = Inr ([], hb)"
| "handle_tests run c (t # ts) hb =
     (case fst hb c of
        None \<Rightarrow> Inl UseAfterFree
      | Some ch \<Rightarrow>
          bind_res (call_each run c (t ch) hb) (\<lambda>hb1.
          bind_res (handle_tests run c ts hb1) (\<lambda>(more, hb2). Inr (t ch @ more, hb2))))"

fun handle_ready ::
  "cb_effect \<Rightarrow> addr list \<Rightarrow> chan_heap \<times> backend \<Rightarrow> (invocation list \<times> chan_heap \<times> backend) res" where
  "handle_ready run [] hb = Inr ([], hb)"
| "handle_ready run (c # cs) hb =
     bind_res (handle_tests run c event_tests hb) (\<lambda>(calls, hb1).
     bind_res (handle_ready run cs hb1) (\<lambda>(more, hb2). Inr (calls @ more, hb2)))"

definition loop_round ::
  "cb_effect \<Rightarrow> poll_result \<Rightarrow> wait_result \<Rightarrow> chan_heap \<times> backend \<Rightarrow>
   (invocation list \<times> chan_heap \<times> backend) res" where
  "loop_round run pr wr hb =
     bind_res (backend_poll pr wr hb) (\<lambda>(ready_channels, hb1). handle_ready run ready_channels hb1)"

text \<open>
  What \<open>handleEvent\<close> looks at, and what callbacks have to keep of it while an invariant \<open>I\<close> of the
  program holds, which the polls and the callbacks keep (\<open>::poll\<close> answers for every entry). A callback may create channels, change
  the interest of channels, register and unregister them. It may not destroy a channel or
  exchange its callbacks, with one exception: the write callback is the last thing \<open>handleEvent\<close>
  calls, so it may do so with its own channel, as that of \<open>Connector\<close> does.
\<close>

definition handlers :: "channel \<Rightarrow> event_mask \<times> callback option \<times> callback option \<times> callback option" where
  "handlers ch = (return_events ch, read_callback ch, write_callback ch, error_callback ch)"

definition same_handlers :: "addr set \<Rightarrow> chan_heap \<Rightarrow> chan_heap \<Rightarrow> bool" where
  "same_handlers A h h' \<longleftrightarrow>
     (\<forall>c \<in> A. \<forall>ch. h c = Some ch \<longrightarrow> (\<exists>ch'. h' c = Some ch' \<and> handlers ch' = handlers ch))"

definition protected :: "addr \<Rightarrow> invocation \<Rightarrow> addr set" where
  "protected c i = (case i of OnWrite _ \<Rightarrow> - {c} | _ \<Rightarrow> UNIV)"

definition full_answer :: "poll_result \<Rightarrow> chan_heap \<times> backend \<Rightarrow> bool" where
  "full_answer pr hb \<longleftrightarrow>
     (\<forall>n rs p. pr = Polled n rs \<longrightarrow> snd hb = PollBackend p \<longrightarrow> length rs = length (pollFdList p))"

definition keeps_handlers :: "(chan_heap \<times> backend \<Rightarrow> bool) \<Rightarrow> cb_effect \<Rightarrow> bool" where
  "keeps_handlers I run \<longleftrightarrow>
     (\<forall>pr wr hb act hb'. I hb \<longrightarrow> full_answer pr hb \<longrightarrow> backend_poll pr wr hb = Inr (act, hb') \<longrightarrow> I hb') \<and>
     (\<forall>c i hb. I hb \<longrightarrow> fst hb c \<noteq> None \<longrightarrow>
        (\<exists>hb'. run c i hb = Inr hb' \<and> I hb' \<and> same_handlers (protected c i) (fst hb) (fst hb')))"

lemma test_handlers: "t \<in> set event_tests \<Longrightarrow> handlers ch = handlers ch' \<Longrightarrow> t ch = t ch'"
  by (auto simp: event_tests_def handlers_def)

lemma handleEvent_handlers: "handlers ch = handlers ch' \<Longrightarrow> handleEvent ch = handleEvent ch'"
  by (simp add: handlers_def handleEvent_def)

lemma same_handlers_refl [simp]: "same_handlers A h h"
  by (simp add: same_handlers_def)

lemma same_handlers_trans: "same_handlers A h h1 \<Longrightarrow> same_handlers A h1 h2 \<Longrightarrow> same_handlers A h h2"
  unfolding same_handlers_def by metis

lemma same_handlers_mono: "same_handlers A h h' \<Longrightarrow> B \<subseteq> A \<Longrightarrow> same_handlers B h h'"
  unfolding same_handlers_def by blast

lemma same_handlersD:
  "same_handlers A h h' \<Longrightarrow> c \<in> A \<Longrightarrow> h c = Some ch \<Longrightarrow> \<exists>ch'. h' c = Some ch' \<and> handlers ch' = handlers ch"
  unfolding same_handlers_def by blast

lemma keeps_handlersD:
  assumes "keeps_handlers I run" and "I hb"
  shows "full_answer pr hb \<Longrightarrow> backend_poll pr wr hb = Inr (act, hb') \<Longrightarrow> I hb'"
    and "fst hb c = Some ch \<Longrightarrow>
      \<exists>hb'. run c i hb = Inr hb' \<and> I hb' \<and> same_handlers (protected c i) (fst hb) (fst hb')"
  using assms unfolding keeps_handlers_def by blast+

lemma call_each_keeps:
  assumes "keeps_handlers I run" and "I hb" and "fst hb c = Some ch" and "calls = call_if b kind cb"
    and "\<And>x. A \<subseteq> protected c (kind x)"
  shows "\<exists>hb'. call_each run c calls hb = Inr hb' \<and> I hb' \<and> same_handlers A (fst hb) (fst hb')"
proof (cases calls)
  case Nil
  then show ?thesis using assms(2) by simp
next
  case (Cons i more)
  have i: "more = []" "\<exists>x. i = kind x" using assms(4) Cons by (auto simp: call_if_def split: if_splits option.splits)
  moreover obtain hb1 where r: "run c i hb = Inr hb1" "I hb1" "same_handlers (protected c i) (fst hb) (fst hb1)"
    using keeps_handlersD(2) [OF assms(1-3)] by blast
  moreover have "same_handlers A (fst hb) (fst hb1)" by (rule same_handlers_mono [OF r(3)]) (use assms(5) i(2) in auto)
  ultimately show ?thesis using Cons i(1) by simp
qed

text \<open>One test: it runs what the channel asked for, and only the last one may touch the channel itself.\<close>

lemma handle_test:
  assumes "keeps_handlers I run" and "I hb" and "fst hb c = Some ch" and "\<exists>b cb. t ch = call_if b kind cb"
    and "\<And>x. A \<subseteq> protected c (kind x)"
  shows "\<exists>hb1. I hb1 \<and> same_handlers A (fst hb) (fst hb1) \<and>
    handle_tests run c (t # ts) hb = bind_res (handle_tests run c ts hb1) (\<lambda>(more, hb2). Inr (t ch @ more, hb2))"
proof -
  obtain b cb where "t ch = call_if b kind cb" using assms(4) by blast
  from call_each_keeps [OF assms(1-3) this assms(5)] obtain hb1 where
    "call_each run c (t ch) hb = Inr hb1" "I hb1" "same_handlers A (fst hb) (fst hb1)" by blast
  then show ?thesis using assms(3) by (intro exI [of _ hb1]) simp
qed

lemma protected_simps [simp]:
  "protected c (OnError x) = UNIV" "protected c (OnRead x) = UNIV" "protected c (OnWrite x) = - {c}"
  by (simp_all add: protected_def)

lemma handle_channel:
  assumes "keeps_handlers I run" and "I hb" and "fst hb c = Some ch"
  shows "\<exists>hb'. handle_tests run c event_tests hb = Inr (handleEvent ch, hb') \<and> I hb' \<and>
    same_handlers (- {c}) (fst hb) (fst hb')"
proof -
  obtain e r w where ts: "event_tests = [e, r, w]" and
    p: "\<And>ch. \<exists>b cb. e ch = call_if b OnError cb" "\<And>ch. \<exists>b cb. r ch = call_if b OnRead cb"
      "\<And>ch. \<exists>b cb. w ch = call_if b OnWrite cb"
    by (rule event_tests_parts) (rule that)
  have A: "UNIV \<subseteq> protected c (OnError x)" "UNIV \<subseteq> protected c (OnRead x)" "- {c} \<subseteq> protected c (OnWrite x)" for x
    by simp_all
  note same = test_handlers [unfolded ts]
  obtain hb1 where 1: "I hb1" "same_handlers UNIV (fst hb) (fst hb1)" "handle_tests run c [e, r, w] hb =
      bind_res (handle_tests run c [r, w] hb1) (\<lambda>(more, hb2). Inr (e ch @ more, hb2))"
    using handle_test [where t = e and kind = OnError and ts = "[r, w]", OF assms p(1) A(1)] by blast
  obtain ch1 where c1: "fst hb1 c = Some ch1" "handlers ch1 = handlers ch" using same_handlersD [OF 1(2) _ assms(3)] by blast
  obtain hb2 where 2: "I hb2" "same_handlers UNIV (fst hb1) (fst hb2)" "handle_tests run c [r, w] hb1 =
      bind_res (handle_tests run c [w] hb2) (\<lambda>(more, hb3). Inr (r ch1 @ more, hb3))"
    using handle_test [where t = r and kind = OnRead and ts = "[w]", OF assms(1) 1(1) c1(1) p(2) A(2)] by blast
  obtain ch2 where c2: "fst hb2 c = Some ch2" "handlers ch2 = handlers ch1" using same_handlersD [OF 2(2) _ c1(1)] by blast
  obtain hb3 where 3: "I hb3" "same_handlers (- {c}) (fst hb2) (fst hb3)" "handle_tests run c [w] hb2 =
      bind_res (handle_tests run c [] hb3) (\<lambda>(more, hb4). Inr (w ch2 @ more, hb4))"
    using handle_test [where t = w and kind = OnWrite and ts = "[]", OF assms(1) 2(1) c2(1) p(3) A(3)] by blast
  have "handleEvent ch = e ch @ r ch1 @ w ch2"
    using same [of r ch1 ch] same [of w ch2 ch] c1(2) c2(2) by (simp add: handleEvent_tests ts)
  moreover have "same_handlers (- {c}) (fst hb) (fst hb3)"
    using 1(2) 2(2) 3(2) same_handlers_mono same_handlers_trans by (metis subset_UNIV)
  ultimately show ?thesis using 1(3) 2(3) 3(1,3) by (simp add: ts)
qed

lemma handle_ready_calls:
  assumes "keeps_handlers I run"
  shows "distinct cs \<Longrightarrow> same_handlers (set cs) h (fst hb) \<Longrightarrow> \<forall>c \<in> set cs. h c \<noteq> None \<Longrightarrow> I hb \<Longrightarrow>
    \<exists>hb'. handle_ready run cs hb = Inr (concat (map (\<lambda>c. handleEvent (the (h c))) cs), hb') \<and> I hb' \<and>
      same_handlers (- set cs) (fst hb) (fst hb')"
proof (induction cs arbitrary: hb)
  case (Cons c cs)
  obtain ch ch' where c: "h c = Some ch" "fst hb c = Some ch'" "handlers ch' = handlers ch"
    using Cons.prems(2,3) same_handlersD [of "set (c # cs)" h "fst hb" c] by auto
  obtain hb1 where r: "handle_tests run c event_tests hb = Inr (handleEvent ch', hb1)" "I hb1"
    "same_handlers (- {c}) (fst hb) (fst hb1)" using handle_channel [OF assms Cons.prems(4) c(2)] by blast
  have "same_handlers (set cs) h (fst hb)" "same_handlers (set cs) (fst hb) (fst hb1)"
    using Cons.prems(1,2) r(3) by (auto elim: same_handlers_mono)
  then have "same_handlers (set cs) h (fst hb1)" by (rule same_handlers_trans)
  with Cons.IH [of hb1] Cons.prems(1,3) r(2) obtain hb' where
    r': "handle_ready run cs hb1 = Inr (concat (map (\<lambda>c. handleEvent (the (h c))) cs), hb')" "I hb'"
    "same_handlers (- set cs) (fst hb1) (fst hb')" by auto
  have "same_handlers (- set (c # cs)) (fst hb) (fst hb')"
    by (rule same_handlers_trans [OF same_handlers_mono [OF r(3)] same_handlers_mono [OF r'(3)]]) auto
  with r(1) r' c handleEvent_handlers [OF c(3)] show ?case by simp
qed simp

lemma keeps_handlers_id [simp]: "keeps_handlers (\<lambda>_. True) (\<lambda>_ _. Inr)"
  by (simp add: keeps_handlers_def)

section \<open>One loop per thread\<close>

text \<open>
  The thread-local \<open>t_current_thread_loop\<close> of every thread; the constructor aborts when the
  thread already has a loop, the destructor frees the place.
\<close>

type_synonym loop_registry = "tid \<rightharpoonup> nat"

definition EventLoop_new :: "tid \<Rightarrow> nat \<Rightarrow> loop_registry \<Rightarrow> (event_loop \<times> loop_registry) res" where
  "EventLoop_new tid this reg =
     (case reg tid of
        None \<Rightarrow> Inr (EventLoop_init tid, reg(tid \<mapsto> this))
      | Some _ \<Rightarrow> Inl Abort)"

definition EventLoop_delete :: "tid \<Rightarrow> event_loop \<Rightarrow> loop_registry \<Rightarrow> loop_registry res" where
  "EventLoop_delete tid s reg = (if is_running s then Inl Abort else Inr (reg(tid := None)))"

definition getEventLoopOfCurrentThread :: "tid \<Rightarrow> loop_registry \<Rightarrow> nat option" where
  "getEventLoopOfCurrentThread tid reg = reg tid"

section \<open>Timers of a loop\<close>

definition runAt :: "time \<Rightarrow> timer_callback \<Rightarrow> timer_queue \<Rightarrow> seqno \<times> timer_queue" where
  "runAt tp cb q = addTimer cb tp 0 q"

definition runEvery :: "time \<Rightarrow> int \<Rightarrow> timer_callback \<Rightarrow> timer_queue \<Rightarrow> seqno \<times> timer_queue" where
  "runEvery now ms cb q = addTimer cb (now + ms_to_ns ms) ms q"

definition runAfter :: "time \<Rightarrow> int \<Rightarrow> timer_callback \<Rightarrow> timer_queue \<Rightarrow> seqno \<times> timer_queue" where
  "runAfter now ms cb q = addTimer cb (now + ms_to_ns ms) 0 q"

definition EventLoop_cancelTimer :: "seqno \<Rightarrow> timer_queue \<Rightarrow> timer_queue" where
  "EventLoop_cancelTimer n q = cancelTimer n q"

lemma addTimer_inv: "tq_inv q \<Longrightarrow> tq_inv (snd (addTimer cb tp ms q))"
  using fl_inv_do_call [of "{}" q "AddTimer cb tp ms"] by (simp add: tq_inv_def)

lemma addTimer_live:
  assumes "addTimer cb tp ms q = (n, q')"
  shows "timers q' n = Some \<lparr>expiration = tp, interval_ms = ms, cb_of = cb, sequence = n\<rparr>"
proof -
  have "q' = snd (addTimer cb tp ms q)" "n = counter q" using assms addTimer_fields(1) [of cb tp ms q] by auto
  then show ?thesis by simp
qed

text \<open>
  \<open>runAfter\<close> and \<open>runEvery\<close> deliver what they promise. In a round at time \<open>t\<close> whose
  callbacks do not cancel it, a timer of either kind runs its callback exactly when the delay
  has passed. Afterwards the timer of \<open>runAfter\<close> is gone if it ran, and the timer of \<open>runEvery\<close> is
  set to one interval after its restart.
\<close>
theorem runAfter_runEvery_fire:
  assumes "tq_inv q" and "m \<in> {0, ms}" and "0 < ms"
    and "addTimer cb (now + ms_to_ns ms) m q = (n, q1)"
    and "handleExpiredTimers calls clock True t q1 = (fired, q2)" and "\<not> cancels calls fired n"
  shows "((n, cb) \<in> set fired \<longleftrightarrow> now + ms * 1000000 \<le> t) \<and>
    (runEvery now ms cb q = (n, q1) \<longrightarrow> map_option expiration (timers q2 n) =
       Some (if now + ms * 1000000 \<le> t then clock n + ms * 1000000 else now + ms * 1000000)) \<and>
    (runAfter now ms cb q = (n, q1) \<longrightarrow> (timers q2 n = None \<longleftrightarrow> now + ms * 1000000 \<le> t))"
proof -
  let ?t = "\<lparr>expiration = now + ms_to_ns ms, interval_ms = m, cb_of = cb, sequence = n\<rparr>"
  have inv: "tq_inv q1" using addTimer_inv [OF assms(1), of cb "now + ms_to_ns ms" m] assms(4) by simp
  have live: "timers q1 n = Some ?t"
    by (rule addTimer_live [OF assms(4)])
  have every: "m = ms" if "runEvery now ms cb q = (n, q1)"
    using addTimer_live [OF that [unfolded runEvery_def]] live by simp
  have after: "m = 0" if "runAfter now ms cb q = (n, q1)"
    using addTimer_live [OF that [unfolded runAfter_def]] live by simp
  have "(n, cb) \<in> set fired \<longleftrightarrow> now + ms * 1000000 \<le> t"
    using round_fires_in_order(3) [OF inv assms(5), of "(n, cb)"] round_complete [OF inv assms(5) live]
      live assms(6) by (auto simp: ms_to_ns_def)
  with round_timers [OF inv assms(5) live] assms(3,6) every after show ?thesis
    by (auto simp: ms_to_ns_def)
qed

theorem runAfter_runEvery_fire_witness:
  "let (n, q1) = runEvery 0 5 3 (TimerQueue_new 0);
       (fired, q2) = handleExpiredTimers (\<lambda>_. []) (\<lambda>_. 5000001) True 5000000 q1
   in fired = [(0, 3)] \<and> map_option expiration (timers q2 n) = Some 10000001"
  using runAfter_runEvery_fire [of "TimerQueue_new 0" 5 5 3 0 0 "snd (addTimer 3 (0 + ms_to_ns 5) 5 (TimerQueue_new 0))"
      "\<lambda>_. []" "\<lambda>_. 5000001" 5000000 "[(0, 3)]"
      "snd (handleExpiredTimers (\<lambda>_. []) (\<lambda>_. 5000001) True 5000000 (snd (addTimer 3 (0 + ms_to_ns 5) 5 (TimerQueue_new 0))))"]
  by (simp add: runEvery_def tq_eval)

section \<open>A run with a task of another thread\<close>

text \<open>
  Steps that neither submit nor execute a task; and the way of the loop of thread 1 from a task that
  thread 2 has pushed to the point where the task is the next to run.
\<close>

definition quiet_step :: "event_loop \<Rightarrow> event_loop \<Rightarrow> bool" where
  "quiet_step s s' \<longleftrightarrow> loop_step s s' \<and> executed s' = executed s \<and> submitted s' = submitted s"

definition queued_loop :: event_loop where
  "queued_loop = wake_after_push 2 (push_task 2 0 (EventLoop_init 1))"

definition serving_loop :: event_loop where
  "serving_loop = queued_loop\<lparr>is_running := True, quit_flag := False, is_processing := True,
     tasks := [0], task_queue := [], early := False, pc := Running\<rparr>"

lemma queued_loop_fields:
  "pc queued_loop = Outside" "\<not> is_running queued_loop" "task_queue queued_loop = [0]" "pushed queued_loop = {}"
  "executed queued_loop = []" "submitted queued_loop = [0]" "thread_id queued_loop = 1"
  by (simp_all add: queued_loop_def EventLoop_init_def wake_after_push_def push_task_def isInLoopThread_def)

lemma serving_loop_steps:
  "quiet_step\<^sup>*\<^sup>* (push_task 2 0 (EventLoop_init 1)) serving_loop" (is "quiet_step\<^sup>*\<^sup>* ?s0 _")
proof -
  let ?s1 = "queued_loop\<lparr>is_running := True, quit_flag := False, pc := Testing\<rparr>"
  let ?s2 = "?s1\<lparr>pc := Polling\<rparr>" and ?s3 = "?s1\<lparr>pc := Handling []\<rparr>"
  note f = queued_loop_fields
  have a: "quiet_step ?s0 queued_loop"
  proof -
    have "loop_step ?s0 queued_loop" unfolding queued_loop_def by (rule loop_step.wake) (simp add: push_task_def)
    then show ?thesis by (simp add: quiet_step_def f push_task_def EventLoop_init_def)
  qed
  have b: "quiet_step queued_loop ?s1"
    using loop_step.enter [of queued_loop ?s1] f
    by (simp add: quiet_step_def loop_free_def loop_enter_def assertInLoopThread_def isInLoopThread_def)
  have c: "quiet_step ?s1 ?s2" using loop_step.test [of ?s1] by (simp add: quiet_step_def loop_test_def)
  have d: "quiet_step ?s2 ?s3" using loop_step.poll [of ?s2 "[]"] by (simp add: quiet_step_def)
  have e: "quiet_step ?s3 (begin_tasks ?s3)" using loop_step.begin_tasks [of ?s3] f by (simp add: quiet_step_def loop_free_def begin_tasks_def)
  have g: "quiet_step (begin_tasks ?s3) serving_loop"
    using loop_step.swap [of "begin_tasks ?s3"] f by (simp add: quiet_step_def begin_tasks_def swap_tasks_def serving_loop_def)
  show ?thesis using a b c d e g by (meson converse_rtranclp_into_rtranclp r_into_rtranclp)
qed

end
