(* ===== verification/TcpConnection.thy ===== *)
theory TcpConnection
  imports Buffer Channel
begin

text \<open>
  \<open>net/TcpConnection.cpp\<close>: one connection, with its state, its channel and its two buffers. What
  an operation does outside of the connection (system calls, calls of user callbacks, tasks for
  the loop, notifications of the poller) is the list of effects it returns, in the order in
  which it happens. The results of \<open>write\<close> and \<open>readv\<close> are inputs. The field \<open>wire\<close> records the
  bytes the kernel has accepted.
\<close>

section \<open>State\<close>

datatype conn_state = Connecting | Connected | Disconnected | Disconnecting

record tcp_connection =
  loop_thread :: tid
  conn_name :: string
  state_of :: conn_state
  chan :: channel
  receive_buffer :: buffer
  send_buffer :: buffer
  message_callback :: "nat option"
  connection_callback :: "nat option"
  high_water_mark :: size_t
  high_water_callback :: "nat option"
  write_complete_callback :: "nat option"
  close_callback :: "nat option"
  wire :: "byte list"

datatype effect =
    UpdateChannel event_mask
  | RemoveChannel
  | CallMessage nat
  | CallConnection nat
  | CallClose nat
  | QueueWriteComplete nat
  | QueueHighWater nat
  | QueueShutdown
  | QueueSend "byte list"
  | QueueSendBuffer buffer
  | QueueSendPtr size_t size_t
  | ShutdownSocket

type_synonym conn_result = "(effect list \<times> tcp_connection) res"

text \<open>The constructor installs the read callback and nothing else on the channel.\<close>

definition TcpConnection_new :: "tid \<Rightarrow> nat \<Rightarrow> conn_id \<Rightarrow> string \<Rightarrow> fd \<Rightarrow> tcp_connection res" where
  "TcpConnection_new thread loop cid nm fd =
     bind_res (Buffer_new INITIALIZE_SIZE) (\<lambda>rb. bind_res (Buffer_new INITIALIZE_SIZE) (\<lambda>sb.
       Inr \<lparr>loop_thread = thread, conn_name = nm, state_of = Connecting,
            chan = setReadCallback (Some (ConnectionRead cid)) (Channel_new loop fd),
            receive_buffer = rb, send_buffer = sb, message_callback = None,
            connection_callback = None, high_water_mark = 0, high_water_callback = None,
            write_complete_callback = None, close_callback = None, wire = []\<rparr>))"

definition setMessageCallback :: "nat option \<Rightarrow> tcp_connection \<Rightarrow> tcp_connection" where
  "setMessageCallback cb c = c\<lparr>message_callback := cb\<rparr>"

definition setConnectionCallback :: "nat option \<Rightarrow> tcp_connection \<Rightarrow> tcp_connection" where
  "setConnectionCallback cb c = c\<lparr>connection_callback := cb\<rparr>"

definition setWriteCompleteCallback :: "nat option \<Rightarrow> tcp_connection \<Rightarrow> tcp_connection" where
  "setWriteCompleteCallback cb c = c\<lparr>write_complete_callback := cb\<rparr>"

definition setHighWaterCallback :: "nat option \<Rightarrow> size_t \<Rightarrow> tcp_connection \<Rightarrow> tcp_connection" where
  "setHighWaterCallback cb n c = c\<lparr>high_water_mark := n, high_water_callback := cb\<rparr>"

definition setCloseCallback :: "nat option \<Rightarrow> tcp_connection \<Rightarrow> tcp_connection" where
  "setCloseCallback cb c = c\<lparr>close_callback := cb\<rparr>"

definition connected :: "tcp_connection \<Rightarrow> bool" where
  "connected c \<longleftrightarrow> state_of c = Connected"

section \<open>Sending\<close>

definition in_loop :: "tid \<Rightarrow> tcp_connection \<Rightarrow> bool" where
  "in_loop tid c \<longleftrightarrow> loop_thread c = tid"

definition opt_effect :: "(nat \<Rightarrow> effect) \<Rightarrow> nat option \<Rightarrow> effect list" where
  "opt_effect k cb = (case cb of None \<Rightarrow> [] | Some f \<Rightarrow> [k f])"

definition idle :: "tcp_connection \<Rightarrow> bool" where
  "idle c \<longleftrightarrow> \<not> isWriting (chan c) \<and> readableBytes (send_buffer c) = 0"

text \<open>\<open>if (!channel_->isWriting()) channel_->listenTillWritable()\<close> and the check of the mark.\<close>

definition want_write :: "tcp_connection \<Rightarrow> effect list \<times> tcp_connection" where
  "want_write c =
     (if isWriting (chan c) then ([], c)
      else (let ch = listenTillWritable (chan c) in ([UpdateChannel (events ch)], c\<lparr>chan := ch\<rparr>)))"

definition high_water :: "tcp_connection \<Rightarrow> effect list" where
  "high_water c =
     (if readableBytes (send_buffer c) \<ge> high_water_mark c
      then opt_effect QueueHighWater (high_water_callback c) else [])"

text \<open>The first half of \<open>sendInLoop\<close>: a direct \<open>write\<close> when nothing is buffered.\<close>

definition direct_write ::
  "write_result \<Rightarrow> byte list \<Rightarrow> tcp_connection \<Rightarrow> size_t \<times> tcp_connection" where
  "direct_write w msg c =
     (if idle c then
        (case w of
           WriteCount n \<Rightarrow> (n, c\<lparr>wire := wire c @ take n msg\<rparr>)
         | WriteError e \<Rightarrow> (0, c))
      else (0, c))"

definition sendInLoop :: "tid \<Rightarrow> write_result \<Rightarrow> byte list \<Rightarrow> tcp_connection \<Rightarrow> conn_result" where
  "sendInLoop tid w msg c =
     (if \<not> in_loop tid c then Inl Abort
      else
        (let (n_write, c1) = direct_write w msg c;
             done_effect = (case w of
                 WriteCount n \<Rightarrow> if idle c \<and> \<not> n < length msg
                                 then opt_effect QueueWriteComplete (write_complete_callback c) else []
               | WriteError e \<Rightarrow> [])
         in if n_write < length msg then
              bind_res (buf_append (drop n_write msg) (send_buffer c1)) (\<lambda>b.
                (let (notify, c2) = want_write (c1\<lparr>send_buffer := b\<rparr>)
                 in Inr (done_effect @ notify @ high_water c2, c2)))
            else Inr (done_effect, c1)))"

text \<open>The variant for a buffer also returns what it leaves in the caller's buffer.\<close>

definition sendInLoop_buffer ::
  "tid \<Rightarrow> write_result \<Rightarrow> buffer \<Rightarrow> tcp_connection \<Rightarrow> (effect list \<times> tcp_connection \<times> buffer) res" where
  "sendInLoop_buffer tid w b c =
     (if \<not> in_loop tid c then Inl Abort
      else bind_res (peek_at b 0 (readableBytes b)) (\<lambda>msg.
        (let (n_write, c1) = direct_write w msg c;
             b1 = (case w of WriteCount n \<Rightarrow> if idle c then retrieve n b else b | WriteError e \<Rightarrow> b)
         in if 0 < readableBytes b1 then
              bind_res
                (if readableBytes (send_buffer c1) = 0 then Inr (buf_swap (send_buffer c1) b1)
                 else bind_res (peek_at b1 0 (readableBytes b1)) (\<lambda>rest.
                        bind_res (buf_append rest (send_buffer c1)) (\<lambda>sb. Inr (sb, retrieveAll b1))))
                (\<lambda>(sb, b2).
                   (let c2 = c1\<lparr>send_buffer := sb\<rparr>; (notify, c3) = want_write c2
                    in Inr (high_water c2 @ notify, c3, b2)))
            else Inr ([], c1, b1))))"

text \<open>
  The three \<open>send\<close> functions: nothing unless connected, \<open>sendInLoop\<close> in the loop's thread, and
  otherwise a task for the loop. The task of \<open>send(std::string)\<close> holds the bytes and that of
  \<open>send(Buffer&)\<close> a buffer swapped with the caller's; that of \<open>send(const char*, size_t)\<close> holds the pointer, here an offset into the memory
  \<open>mem\<close> of the caller.
\<close>

definition send :: "tid \<Rightarrow> write_result \<Rightarrow> byte list \<Rightarrow> tcp_connection \<Rightarrow> conn_result" where
  "send tid w msg c =
     (if state_of c = Connected then
        (if in_loop tid c then sendInLoop tid w msg c else Inr ([QueueSend msg], c))
      else Inr ([], c))"

definition send_ptr ::
  "tid \<Rightarrow> write_result \<Rightarrow> byte list \<Rightarrow> size_t \<Rightarrow> size_t \<Rightarrow> tcp_connection \<Rightarrow> conn_result" where
  "send_ptr tid w mem msg len c =
     (if state_of c = Connected then
        (if in_loop tid c then bind_res (mem_read mem msg len) (\<lambda>d. sendInLoop tid w d c)
         else Inr ([QueueSendPtr msg len], c))
      else Inr ([], c))"

definition send_buf ::
  "tid \<Rightarrow> write_result \<Rightarrow> buffer \<Rightarrow> tcp_connection \<Rightarrow> (effect list \<times> tcp_connection \<times> buffer) res" where
  "send_buf tid w b c =
     (if state_of c = Connected then
        (if in_loop tid c then sendInLoop_buffer tid w b c
         else bind_res (Buffer_new INITIALIZE_SIZE) (\<lambda>fresh.
                (let (msg, b1) = buf_swap fresh b in Inr ([QueueSendBuffer msg], c, b1))))
      else Inr ([], c, b))"

section \<open>Life of a connection\<close>

definition shutdownInLoop :: "tid \<Rightarrow> tcp_connection \<Rightarrow> conn_result" where
  "shutdownInLoop tid c =
     (if \<not> in_loop tid c then Inl Abort
      else if state_of c = Connected then
        Inr (if isWriting (chan c) then [] else [ShutdownSocket], c\<lparr>state_of := Disconnecting\<rparr>)
      else Inr ([], c))"

definition shutdown :: "tid \<Rightarrow> tcp_connection \<Rightarrow> conn_result" where
  "shutdown tid c =
     (if state_of c = Connected then
        (let c1 = c\<lparr>state_of := Disconnecting\<rparr>
         in if in_loop tid c1 then shutdownInLoop tid c1 else Inr ([QueueShutdown], c1))
      else Inr ([], c))"

definition connectionEstablished :: "tid \<Rightarrow> conn_id \<Rightarrow> tcp_connection \<Rightarrow> conn_result" where
  "connectionEstablished tid cid c =
     (if \<not> in_loop tid c \<or> state_of c \<noteq> Connecting then Inl Abort
      else (let ch = listenTillReadable (tie cid (chan c))
            in Inr (UpdateChannel (events ch) # opt_effect CallConnection (connection_callback c),
                    c\<lparr>state_of := Connected, chan := ch\<rparr>)))"

definition connectionDestroyed :: "tid \<Rightarrow> tcp_connection \<Rightarrow> conn_result" where
  "connectionDestroyed tid c =
     (if \<not> in_loop tid c then Inl Abort
      else (let ch = ignoreAll (chan c)
            in Inr ([UpdateChannel (events ch)] @ opt_effect CallConnection (connection_callback c) @
                      [RemoveChannel],
                    c\<lparr>state_of := Disconnected, chan := ch\<rparr>)))"

definition handleClose :: "tid \<Rightarrow> tcp_connection \<Rightarrow> conn_result" where
  "handleClose tid c =
     (if \<not> in_loop tid c \<or> state_of c \<noteq> Connected \<and> state_of c \<noteq> Disconnecting then Inl Abort
      else (let ch = ignoreAll (chan c)
            in case close_callback c of
                 None \<Rightarrow> Inl BadFunctionCall
               | Some f \<Rightarrow> Inr ([UpdateChannel (events ch), CallClose f],
                                c\<lparr>state_of := Disconnected, chan := ch\<rparr>)))"

text \<open>\<open>handleError\<close> only reads the error of the socket and logs it.\<close>

definition handleError :: "tcp_connection \<Rightarrow> conn_result" where
  "handleError c = Inr ([], c)"

definition handleReadable :: "tid \<Rightarrow> read_result \<Rightarrow> tcp_connection \<Rightarrow> conn_result" where
  "handleReadable tid r c =
     (if \<not> in_loop tid c then Inl Abort
      else bind_res (readFd r (receive_buffer c)) (\<lambda>(n_read, _, b).
        (let c1 = c\<lparr>receive_buffer := b\<rparr>
         in if n_read > 0 then Inr (opt_effect CallMessage (message_callback c1), c1)
            else if n_read = 0 then handleClose tid c1
            else handleError c1)))"

definition handleWritable :: "tid \<Rightarrow> write_result \<Rightarrow> tcp_connection \<Rightarrow> conn_result" where
  "handleWritable tid w c =
     (if \<not> in_loop tid c then Inl Abort
      else if isWriting (chan c) then
        bind_res (peek_at (send_buffer c) 0 (readableBytes (send_buffer c))) (\<lambda>msg.
          (case w of
             WriteError e \<Rightarrow> Inr ([], c)
           | WriteCount n \<Rightarrow>
               if n = 0 then Inr ([], c)
               else
                 (let c1 = c\<lparr>send_buffer := retrieve n (send_buffer c), wire := wire c @ take n msg\<rparr>
                  in if readableBytes (send_buffer c1) = 0 then
                       (let ch = ignoreWritable (chan c1); c2 = c1\<lparr>chan := ch\<rparr>;
                            eff = UpdateChannel (events ch) #
                                  opt_effect QueueWriteComplete (write_complete_callback c2)
                        in if state_of c2 = Disconnecting
                           then bind_res (shutdownInLoop tid c2) (\<lambda>(eff2, c3). Inr (eff @ eff2, c3))
                           else Inr (eff, c2))
                     else Inr ([], c1))))
      else Inr ([], c))"

definition getState :: "tcp_connection \<Rightarrow> string" where
  "getState c =
     (case state_of c of
        Connecting \<Rightarrow> ''Connecting''
      | Connected \<Rightarrow> ''Connected''
      | Disconnected \<Rightarrow> ''Disconnected''
      | _ \<Rightarrow> ''Invalid state'')"

text \<open>
  What the loop does with a queued task of the connection, \<open>mem\<close> being the caller's memory when the
  task runs.
\<close>

definition run_queued :: "tid \<Rightarrow> write_result \<Rightarrow> byte list \<Rightarrow> effect \<Rightarrow> tcp_connection \<Rightarrow> conn_result" where
  "run_queued tid w mem t c =
     (case t of
        QueueSend d \<Rightarrow> sendInLoop tid w d c
      | QueueSendBuffer b \<Rightarrow> bind_res (sendInLoop_buffer tid w b c) (\<lambda>(eff, c', _). Inr (eff, c'))
      | QueueSendPtr p n \<Rightarrow> bind_res (mem_read mem p n) (\<lambda>d. sendInLoop tid w d c)
      | QueueShutdown \<Rightarrow> shutdownInLoop tid c
      | _ \<Rightarrow> Inr ([], c))"

section \<open>Runs\<close>

text \<open>
  What happens to a connection in the thread of its loop, and sequences of it; \<open>shared_step\<close> below adds
  the steps of \<open>shutdown()\<close> in other threads, and \<open>CrossThreadSend\<close> those of \<open>send\<close>.
\<close>

datatype conn_op =
    Send write_result "byte list"
  | SendInLoop write_result "byte list"
  | SendBufferInLoop write_result buffer
  | Writable write_result
  | Readable read_result
  | Shutdown
  | ShutdownInLoop
  | Established conn_id
  | Destroyed

fun conn_step :: "conn_op \<Rightarrow> tcp_connection \<Rightarrow> conn_result" where
  "conn_step (Send w msg) c = send (loop_thread c) w msg c"
| "conn_step (SendInLoop w msg) c = sendInLoop (loop_thread c) w msg c"
| "conn_step (SendBufferInLoop w b) c =
     bind_res (sendInLoop_buffer (loop_thread c) w b c) (\<lambda>(eff, c', _). Inr (eff, c'))"
| "conn_step (Writable w) c = handleWritable (loop_thread c) w c"
| "conn_step (Readable r) c = handleReadable (loop_thread c) r c"
| "conn_step Shutdown c = shutdown (loop_thread c) c"
| "conn_step ShutdownInLoop c = shutdownInLoop (loop_thread c) c"
| "conn_step (Established cid) c = connectionEstablished (loop_thread c) cid c"
| "conn_step Destroyed c = connectionDestroyed (loop_thread c) c"

fun conn_run :: "conn_op list \<Rightarrow> tcp_connection \<Rightarrow> conn_result" where
  "conn_run [] c = Inr ([], c)"
| "conn_run (op # ops) c =
     bind_res (conn_step op c) (\<lambda>(eff, c1). bind_res (conn_run ops c1) (\<lambda>(eff2, c2). Inr (eff @ eff2, c2)))"

section \<open>The outgoing byte stream\<close>

text \<open>
  The kernel accepts at most what it is offered. A connection is well-formed when its buffers
  are and it waits for writability exactly when something is buffered.
\<close>

definition accepts :: "write_result \<Rightarrow> size_t \<Rightarrow> bool" where
  "accepts w n \<longleftrightarrow> (case w of WriteCount k \<Rightarrow> k \<le> n | WriteError e \<Rightarrow> True)"

definition conn_ok :: "tcp_connection \<Rightarrow> bool" where
  "conn_ok c \<longleftrightarrow> buf_inv (receive_buffer c) \<and> buf_inv (send_buffer c) \<and>
     (isWriting (chan c) \<longleftrightarrow> contents (send_buffer c) \<noteq> [])"

lemma readable_0_iff: "buf_inv b \<Longrightarrow> readableBytes b = 0 \<longleftrightarrow> contents b = []"
  using length_contents [OF buf_inv_wf, of b] by (metis length_0_conv)

lemma readable_pos_iff: "buf_inv b \<Longrightarrow> 0 < readableBytes b \<longleftrightarrow> contents b \<noteq> []"
  using readable_0_iff [of b] by auto

lemma idle_iff: "conn_ok c \<Longrightarrow> idle c \<longleftrightarrow> contents (send_buffer c) = []"
  by (auto simp: conn_ok_def idle_def readable_0_iff)

lemma peek_all: "buf_inv b \<Longrightarrow> peek_at b 0 (readableBytes b) = Inr (contents b)"
  by (simp add: peek_at_in buf_inv_wf flip: length_contents)

lemma direct_write_cases:
  assumes "accepts w (length msg)"
  obtains k where "k \<le> length msg" "direct_write w msg c = (k, c\<lparr>wire := wire c @ take k msg\<rparr>)"
    "idle c \<or> k = 0" "(case w of WriteCount n \<Rightarrow> if idle c then k = n else k = 0 | WriteError e \<Rightarrow> k = 0)"
proof (cases "idle c")
  case True
  with assms show ?thesis
    by (cases w) (auto simp: accepts_def direct_write_def intro: that)
next
  case False
  then show ?thesis by (cases w) (auto simp: direct_write_def intro: that [of 0])
qed

lemma want_write_ok [simp]:
  "isWriting (chan (snd (want_write c)))" "send_buffer (snd (want_write c)) = send_buffer c"
  "receive_buffer (snd (want_write c)) = receive_buffer c" "wire (snd (want_write c)) = wire c"
  "loop_thread (snd (want_write c)) = loop_thread c" "state_of (snd (want_write c)) = state_of c"
  by (simp_all add: want_write_def Let_def)

text \<open>What a step of the transport does: \<open>d\<close> is added to the stream, at most \<open>k\<close> to the buffer.\<close>

definition extends_stream :: "byte list \<Rightarrow> nat \<Rightarrow> tcp_connection \<Rightarrow> tcp_connection \<Rightarrow> bool" where
  "extends_stream d k c c' \<longleftrightarrow> conn_ok c' \<and> loop_thread c' = loop_thread c \<and>
     wire c' @ contents (send_buffer c') = wire c @ contents (send_buffer c) @ d \<and>
     write_index (send_buffer c') \<le> write_index (send_buffer c) + k"

lemma sendInLoop_stream:
  assumes ok: "conn_ok c" and w: "accepts w (length msg)" and room: "has_room (length msg) (send_buffer c)"
  shows "\<exists>eff c'. sendInLoop (loop_thread c) w msg c = Inr (eff, c') \<and>
    extends_stream msg (length msg) c c'"
proof -
  obtain k where k: "k \<le> length msg" "direct_write w msg c = (k, c\<lparr>wire := wire c @ take k msg\<rparr>)"
    "idle c \<or> k = 0" using direct_write_cases [OF w, of c] by metis
  have inv: "buf_inv (send_buffer c)" using ok by (simp add: conn_ok_def)
  show ?thesis
  proof (cases "k < length msg")
    case True
    have "has_room (length (drop k msg)) (send_buffer c)" using room by (simp add: has_room_def)
    from buf_append_ok [OF inv this] obtain b where
      b: "buf_append (drop k msg) (send_buffer c) = Inr b" "buf_inv b"
        "contents b = contents (send_buffer c) @ drop k msg"
        "write_index b \<le> write_index (send_buffer c) + length (drop k msg)" by blast
    let ?c = "snd (want_write (c\<lparr>wire := wire c @ take k msg, send_buffer := b\<rparr>))"
    have "extends_stream msg (length msg) c ?c"
      using b ok k(3) True idle_iff [OF ok] by (auto simp: extends_stream_def conn_ok_def)
    then show ?thesis using True k(2) b(1)
      by (auto simp: sendInLoop_def in_loop_def Let_def case_prod_beta)
  next
    case False
    then have "k = length msg" using k(1) by simp
    then have "extends_stream msg (length msg) c (c\<lparr>wire := wire c @ take k msg\<rparr>)"
      using ok k(3) idle_iff [OF ok] by (auto simp: extends_stream_def conn_ok_def)
    then show ?thesis using False k(2) by (auto simp: sendInLoop_def in_loop_def Let_def)
  qed
qed

lemma sendInLoop_buffer_stream:
  assumes ok: "conn_ok c" and inv: "buf_inv b" and w: "accepts w (readableBytes b)"
    and room: "has_room (write_index b) (send_buffer c)"
  shows "\<exists>eff c' b'. sendInLoop_buffer (loop_thread c) w b c = Inr (eff, c', b') \<and>
    extends_stream (contents b) (write_index b) c c' \<and> buf_inv b' \<and> contents b' = []"
proof -
  let ?d = "contents b" and ?sb = "send_buffer c"
  have len: "length ?d = readableBytes b" using inv by (simp add: length_contents buf_inv_wf)
  obtain k where k: "direct_write w ?d c = (k, c\<lparr>wire := wire c @ take k ?d\<rparr>)" "idle c \<or> k = 0"
    "(case w of WriteCount n \<Rightarrow> if idle c then k = n else k = 0 | WriteError e \<Rightarrow> k = 0)"
    using direct_write_cases [of w ?d c] w len by metis
  define b1 where "b1 = (case w of WriteCount n \<Rightarrow> if idle c then retrieve n b else b | WriteError e \<Rightarrow> b)"
  have b1: "buf_inv b1" "contents b1 = drop k ?d" "write_index b1 \<le> write_index b"
    using k(3) inv by (auto simp: b1_def retrieve_inv contents_retrieve buf_inv_wf retrieve_write_index_le
        split: write_result.splits if_splits)
  have sb: "buf_inv ?sb" using ok by (simp add: conn_ok_def)
  have start: "sendInLoop_buffer (loop_thread c) w b c =
     (if 0 < readableBytes b1 then
        bind_res (if readableBytes ?sb = 0 then Inr (buf_swap ?sb b1)
           else bind_res (peek_at b1 0 (readableBytes b1)) (\<lambda>rest.
                  bind_res (buf_append rest ?sb) (\<lambda>sb. Inr (sb, retrieveAll b1))))
          (\<lambda>(sb, b2). (let c2 = c\<lparr>wire := wire c @ take k ?d, send_buffer := sb\<rparr>
             in Inr (high_water c2 @ fst (want_write c2), snd (want_write c2), b2)))
      else Inr ([], c\<lparr>wire := wire c @ take k ?d\<rparr>, b1))"
    by (simp add: sendInLoop_buffer_def in_loop_def peek_all [OF inv] k(1) b1_def Let_def case_prod_beta)
  have stream: "extends_stream ?d (write_index b) c
      (snd (want_write (c\<lparr>wire := wire c @ take k ?d, send_buffer := sb'\<rparr>)))"
    if "buf_inv sb'" "contents sb' = contents ?sb @ drop k ?d" "contents b1 \<noteq> []"
      "write_index sb' \<le> write_index ?sb + write_index b" for sb'
    using that ok k(2) b1(2) idle_iff [OF ok] by (auto simp: extends_stream_def conn_ok_def)
  show ?thesis
  proof (cases "contents b1 = []")
    case True
    then have "extends_stream ?d (write_index b) c (c\<lparr>wire := wire c @ take k ?d\<rparr>)"
      using ok k(2) b1(2) idle_iff [OF ok] by (auto simp: extends_stream_def conn_ok_def)
    with True b1 start show ?thesis by (simp add: readable_pos_iff)
  next
    case rest: False
    show ?thesis
    proof (cases "contents ?sb = []")
      case True
      then have "extends_stream ?d (write_index b) c
          (snd (want_write (c\<lparr>wire := wire c @ take k ?d, send_buffer := b1\<rparr>)))"
        using stream [of b1] b1 rest by simp
      with True rest b1 sb start show ?thesis
        by (simp add: readable_pos_iff readable_0_iff buf_swap_def Let_def)
    next
      case False
      have "length (contents b1) \<le> write_index b"
        using b1 inv by (simp add: len readable_eq buf_inv_wf)
      then have "has_room (length (contents b1)) ?sb" using room by (simp add: has_room_def)
      from buf_append_ok [OF sb this] obtain sb' where
        sb': "buf_append (contents b1) ?sb = Inr sb'" "buf_inv sb'" "contents sb' = contents ?sb @ contents b1"
          "write_index sb' \<le> write_index ?sb + length (contents b1)" by blast
      then have "extends_stream ?d (write_index b) c
          (snd (want_write (c\<lparr>wire := wire c @ take k ?d, send_buffer := sb'\<rparr>)))"
        using stream [of sb'] b1 rest \<open>length (contents b1) \<le> write_index b\<close> by simp
      with False rest b1 sb sb' start show ?thesis
        by (simp add: readable_pos_iff readable_0_iff peek_all retrieveAll_inv buf_inv_wf Let_def)
    qed
  qed
qed

lemma handleWritable_stream:
  assumes ok: "conn_ok c" and w: "accepts w (readableBytes (send_buffer c))"
  shows "\<exists>eff c'. handleWritable (loop_thread c) w c = Inr (eff, c') \<and> extends_stream [] 0 c c'"
proof (cases "isWriting (chan c) \<and> (\<exists>n. w = WriteCount n \<and> 0 < n)")
  case False
  then have "handleWritable (loop_thread c) w c = Inr ([], c)"
    using ok by (cases w) (auto simp: handleWritable_def in_loop_def peek_all conn_ok_def)
  then show ?thesis using ok by (simp add: extends_stream_def)
next
  case True
  then obtain n where n: "w = WriteCount n" "0 < n" and wr: "isWriting (chan c)" by blast
  let ?sb = "send_buffer c"
  let ?c = "c\<lparr>send_buffer := retrieve n ?sb, wire := wire c @ take n (contents ?sb)\<rparr>"
  have sb: "buf_inv ?sb" using ok by (simp add: conn_ok_def)
  have sb': "buf_inv (retrieve n ?sb)" "contents (retrieve n ?sb) = drop n (contents ?sb)"
    "write_index (retrieve n ?sb) \<le> write_index ?sb"
    using sb by (simp_all add: retrieve_inv contents_retrieve buf_inv_wf retrieve_write_index_le)
  show ?thesis
  proof (cases "drop n (contents ?sb) = []")
    case False
    with sb sb' n wr have "handleWritable (loop_thread c) w c = Inr ([], ?c)"
      by (simp add: handleWritable_def in_loop_def peek_all readable_0_iff)
    moreover have "extends_stream [] 0 c ?c" using False ok sb' wr by (simp add: extends_stream_def conn_ok_def)
    ultimately show ?thesis by blast
  next
    case True
    let ?c' = "?c\<lparr>chan := ignoreWritable (chan c)\<rparr>"
    from True sb sb' n wr have "\<exists>eff. handleWritable (loop_thread c) w c = Inr (eff, ?c')"
      by (simp add: handleWritable_def in_loop_def peek_all readable_0_iff shutdownInLoop_def Let_def)
    moreover have "extends_stream [] 0 c ?c'" using True ok sb' by (simp add: extends_stream_def conn_ok_def)
    ultimately show ?thesis by blast
  qed
qed

subsection \<open>Runs of the transport\<close>

fun transport_op :: "conn_op \<Rightarrow> bool" where
  "transport_op (SendInLoop w msg) \<longleftrightarrow> accepts w (length msg)"
| "transport_op (SendBufferInLoop w b) \<longleftrightarrow> buf_inv b \<and> accepts w (readableBytes b)"
| "transport_op (Writable w) \<longleftrightarrow> True"
| "transport_op _ \<longleftrightarrow> False"

fun op_bytes :: "conn_op \<Rightarrow> byte list" where
  "op_bytes (SendInLoop w msg) = msg"
| "op_bytes (SendBufferInLoop w b) = contents b"
| "op_bytes _ = []"

fun op_size :: "conn_op \<Rightarrow> nat" where
  "op_size (SendInLoop w msg) = length msg"
| "op_size (SendBufferInLoop w b) = write_index b"
| "op_size _ = 0"

text \<open>Along the run, \<open>write\<close> never accepts more than the buffer offers it.\<close>

fun kernel_ok :: "conn_op list \<Rightarrow> tcp_connection \<Rightarrow> bool" where
  "kernel_ok [] c \<longleftrightarrow> True"
| "kernel_ok (op # ops) c \<longleftrightarrow>
     (case op of Writable w \<Rightarrow> accepts w (readableBytes (send_buffer c)) | _ \<Rightarrow> True) \<and>
     (case conn_step op c of Inl _ \<Rightarrow> True | Inr (_, c') \<Rightarrow> kernel_ok ops c')"

lemma transport_step:
  assumes "conn_ok c" and "transport_op op" and "kernel_ok [op] c" and "has_room (op_size op) (send_buffer c)"
  shows "\<exists>eff c'. conn_step op c = Inr (eff, c') \<and> extends_stream (op_bytes op) (op_size op) c c'"
proof (cases op)
  case (SendInLoop w msg)
  with sendInLoop_stream [of c w msg] assms show ?thesis by simp
next
  case (SendBufferInLoop w b)
  with sendInLoop_buffer_stream [of c b w] assms show ?thesis by fastforce
next
  case (Writable w)
  with handleWritable_stream [of c w] assms show ?thesis by simp
qed (use assms in simp_all)

lemma transport_run:
  "conn_ok c \<Longrightarrow> list_all transport_op ops \<Longrightarrow> kernel_ok ops c \<Longrightarrow>
   has_room (sum_list (map op_size ops)) (send_buffer c) \<Longrightarrow>
   \<exists>eff c'. conn_run ops c = Inr (eff, c') \<and> conn_ok c' \<and>
     wire c' @ contents (send_buffer c') = wire c @ contents (send_buffer c) @ concat (map op_bytes ops)"
proof (induction ops arbitrary: c)
  case (Cons op ops)
  have "has_room (op_size op) (send_buffer c)" using Cons.prems(4) by (simp add: has_room_def)
  with transport_step [of c op] Cons.prems obtain eff c1 where
    s: "conn_step op c = Inr (eff, c1)" "extends_stream (op_bytes op) (op_size op) c c1"
    by (auto split: sum.splits)
  then have "conn_ok c1" "has_room (sum_list (map op_size ops)) (send_buffer c1)"
    "wire c1 @ contents (send_buffer c1) = wire c @ contents (send_buffer c) @ op_bytes op"
    using Cons.prems(4) by (auto simp: extends_stream_def has_room_def)
  with Cons.IH [of c1] Cons.prems(2,3) s(1) show ?case by auto
qed simp

text \<open>A connection with little room in its buffer, for the witnesses.\<close>

definition small_buffer :: buffer where
  "small_buffer = \<lparr>storage = [0, 0, 0, 0, 0, 0, 0, 0, 0, 0, 0], write_index = 8, read_index = 8\<rparr>"

definition small_conn :: tcp_connection where
  "small_conn =
     \<lparr>loop_thread = 1, conn_name = ''c'', state_of = Connected,
      chan = listenTillReadable (setReadCallback (Some (ConnectionRead 0)) (Channel_new 0 7)),
      receive_buffer = small_buffer, send_buffer = small_buffer, message_callback = Some 1,
      connection_callback = Some 2, high_water_mark = 100, high_water_callback = None,
      write_complete_callback = Some 3, close_callback = Some 4, wire = []\<rparr>"

lemma small_buffer_inv [simp]: "buf_inv small_buffer" "contents small_buffer = []"
  by (simp_all add: small_buffer_def buf_eval)

lemma new_channel_idle [simp]:
  "\<not> isWriting (setReadCallback cb (Channel_new l fd))"
  by (simp add: isWriting_def setReadCallback_def Channel_new_def kNoneEvent_def)

lemma small_conn_ok: "conn_ok small_conn"
  by (simp add: conn_ok_def small_conn_def)

text \<open>
  Property C3. The bytes a connection sends form one stream: in every course of sends (of memory
  and of buffers) and of writability events, with short writes and refused writes, what the
  kernel has accepted followed by what is still buffered is exactly what was accepted and
  buffered before followed by the bytes of the sends, in order. Nothing is lost, repeated or
  reordered, no access leaves a buffer, and the connection waits for writability exactly while
  something is buffered.
\<close>
theorem connection_stream_intact:
  assumes "conn_ok c" and "list_all transport_op ops" and "kernel_ok ops c"
    and "write_index (send_buffer c) + sum_list (map op_size ops) \<le> VECTOR_MAX"
  shows "\<exists>eff c'. conn_run ops c = Inr (eff, c') \<and> conn_ok c' \<and>
    wire c' @ contents (send_buffer c') = wire c @ contents (send_buffer c) @ concat (map op_bytes ops)"
  using transport_run [OF assms(1-3)] assms(4) by (simp add: has_room_def)

theorem connection_stream_intact_witness:
  "\<exists>eff c'. conn_run [SendInLoop (WriteCount 1) [1, 2, 3], SendInLoop (WriteError 11) [4]] small_conn = Inr (eff, c') \<and>
     wire c' @ contents (send_buffer c') = [1, 2, 3, 4]"
proof -
  have "kernel_ok [SendInLoop (WriteCount 1) [1, 2, 3], SendInLoop (WriteError 11) [4]] small_conn"
    by (simp split: sum.split prod.split)
  moreover have "wire small_conn = []" "send_buffer small_conn = small_buffer"
    by (simp_all add: small_conn_def)
  ultimately show ?thesis
    using connection_stream_intact [OF small_conn_ok, of "[SendInLoop (WriteCount 1) [1, 2, 3], SendInLoop (WriteError 11) [4]]"]
    by (auto simp: accepts_def small_buffer_def VECTOR_MAX_def buf_eval)
qed

section \<open>The state machine\<close>

fun conn_rank :: "conn_state \<Rightarrow> nat" where
  "conn_rank Connecting = 0"
| "conn_rank Connected = 1"
| "conn_rank Disconnecting = 2"
| "conn_rank Disconnected = 3"

text \<open>The states in the order in which a connection goes through them.\<close>

instantiation conn_state :: linorder
begin

definition less_eq_conn_state :: "conn_state \<Rightarrow> conn_state \<Rightarrow> bool" where
  "s \<le> t \<longleftrightarrow> conn_rank s \<le> conn_rank t"

definition less_conn_state :: "conn_state \<Rightarrow> conn_state \<Rightarrow> bool" where
  "s < t \<longleftrightarrow> conn_rank s < conn_rank t"

instance
proof
  fix s t u :: conn_state
  show "s < t \<longleftrightarrow> s \<le> t \<and> \<not> t \<le> s" "s \<le> s" "s \<le> t \<or> t \<le> s"
    by (auto simp: less_eq_conn_state_def less_conn_state_def)
  show "s \<le> u" if "s \<le> t" "t \<le> u" using that by (simp add: less_eq_conn_state_def)
  show "s = t" if "s \<le> t" "t \<le> s" using that by (cases s; cases t) (simp_all add: less_eq_conn_state_def)
qed

end

lemma set_opt_effect: "x \<in> set (opt_effect k cb) \<longleftrightarrow> (\<exists>f. cb = Some f \<and> x = k f)"
  by (cases cb) (auto simp: opt_effect_def)

text \<open>What no step of a connection changes, and where a shutdown of the socket can come from.\<close>

definition framed :: "conn_op \<Rightarrow> effect list \<Rightarrow> tcp_connection \<Rightarrow> tcp_connection \<Rightarrow> bool" where
  "framed op eff c c' \<longleftrightarrow> write_callback (chan c') = write_callback (chan c) \<and>
     error_callback (chan c') = error_callback (chan c) \<and> loop_thread c' = loop_thread c \<and>
     conn_rank (state_of c) \<le> conn_rank (state_of c') \<and>
     (ShutdownSocket \<in> set eff \<longrightarrow> op = ShutdownInLoop \<and> state_of c = Connected)"

lemma want_write_frame [simp]:
  "write_callback (chan (snd (want_write c))) = write_callback (chan c)"
  "error_callback (chan (snd (want_write c))) = error_callback (chan c)"
  "ShutdownSocket \<notin> set (fst (want_write c))" "ShutdownSocket \<notin> set (high_water c)"
  by (simp_all add: want_write_def listenTillWritable_def Let_def high_water_def set_opt_effect)

lemma sendInLoop_frame:
  "sendInLoop tid w msg c = Inr (eff, c') \<Longrightarrow> framed op eff c c'"
  by (auto simp: sendInLoop_def direct_write_def framed_def Let_def case_prod_beta bind_res_eq_Inr set_opt_effect
      split: if_splits write_result.splits)

lemma sendInLoop_buffer_frame:
  "sendInLoop_buffer tid w b c = Inr (eff, c', b') \<Longrightarrow> framed op eff c c'"
  by (auto simp: sendInLoop_buffer_def direct_write_def framed_def Let_def case_prod_beta bind_res_eq_Inr
      split: if_splits write_result.splits)

lemma handleWritable_frame:
  "handleWritable tid w c = Inr (eff, c') \<Longrightarrow> framed op eff c c'"
  by (cases w) (auto simp: handleWritable_def shutdownInLoop_def framed_def ignoreWritable_def Let_def
      case_prod_beta bind_res_eq_Inr set_opt_effect split: if_splits)

lemma handleReadable_frame:
  "handleReadable tid r c = Inr (eff, c') \<Longrightarrow> framed op eff c c'"
  by (auto simp: handleReadable_def handleClose_def handleError_def framed_def ignoreAll_def Let_def
      case_prod_beta bind_res_eq_Inr set_opt_effect split: if_splits option.splits)

lemma life_frame:
  "shutdown tid c = Inr (eff, c') \<Longrightarrow> framed op eff c c'"
  "shutdownInLoop tid c = Inr (eff, c') \<Longrightarrow> framed ShutdownInLoop eff c c'"
  "connectionEstablished tid cid c = Inr (eff, c') \<Longrightarrow> framed op eff c c'"
  "connectionDestroyed tid c = Inr (eff, c') \<Longrightarrow> framed op eff c c'"
  by (auto simp: shutdown_def shutdownInLoop_def connectionEstablished_def connectionDestroyed_def
      framed_def listenTillReadable_def tie_def ignoreAll_def Let_def set_opt_effect split: if_splits)
    (cases "state_of c"; simp)+

lemma conn_step_frame:
  assumes "conn_step op c = Inr (eff, c')"
  shows "framed op eff c c'"
proof (cases op)
  case (Send w msg)
  with assms sendInLoop_frame [of "loop_thread c" w msg c eff c' op] show ?thesis
    by (auto simp: send_def in_loop_def framed_def split: if_splits)
next
  case (SendBufferInLoop w b)
  with assms obtain b' where "sendInLoop_buffer (loop_thread c) w b c = Inr (eff, c', b')"
    by (auto simp: bind_res_eq_Inr)
  then show ?thesis by (rule sendInLoop_buffer_frame)
qed (use assms in \<open>auto intro: sendInLoop_frame handleWritable_frame handleReadable_frame life_frame\<close>)

lemma conn_run_frame:
  "conn_run ops c = Inr (eff, c') \<Longrightarrow> framed op [] c c' \<and>
   (1 < conn_rank (state_of c) \<longrightarrow> ShutdownSocket \<notin> set eff)"
proof (induction ops arbitrary: c eff)
  case (Cons a ops)
  from Cons.prems obtain e1 c1 e2 where s: "conn_step a c = Inr (e1, c1)" "conn_run ops c1 = Inr (e2, c')"
    "eff = e1 @ e2" by (auto simp: bind_res_eq_Inr)
  from conn_step_frame [OF s(1)] Cons.IH [OF s(2)] s(3) show ?case by (auto simp: framed_def)
qed (simp add: framed_def)

fun is_established :: "conn_op \<Rightarrow> bool" where
  "is_established (Established cid) \<longleftrightarrow> True"
| "is_established _ \<longleftrightarrow> False"

subsection \<open>With calls of \<open>shutdown()\<close> from other threads\<close>

text \<open>
  In another thread than the loop's, \<open>shutdown()\<close> is not one step: the test of the atomic state and the
  store of \<open>Disconnecting\<close> are two, and the loop may serve the connection in between. \<open>stopping\<close> are the
  threads between their test and their store. After the store the thread queues \<open>shutdownInLoop\<close>, which
  the loop runs some time later (the operation \<open>ShutdownInLoop\<close>). The other operations that other
  threads may call do not change the state.
\<close>

record shared_connection =
  conn_of :: tcp_connection
  stopping :: "tid set"

definition shutdown_test :: "tid \<Rightarrow> shared_connection \<Rightarrow> shared_connection" where
  "shutdown_test tid s =
     (if state_of (conn_of s) = Connected then s\<lparr>stopping := insert tid (stopping s)\<rparr> else s)"

definition shutdown_store :: "tid \<Rightarrow> shared_connection \<Rightarrow> effect list \<times> shared_connection" where
  "shutdown_store tid s =
     ([QueueShutdown], s\<lparr>conn_of := (conn_of s)\<lparr>state_of := Disconnecting\<rparr>, stopping := stopping s - {tid}\<rparr>)"

datatype shared_op = LoopOp conn_op | ShutdownTest tid | ShutdownStore tid

inductive shared_step :: "shared_connection \<Rightarrow> shared_op \<Rightarrow> shared_connection \<Rightarrow> bool" where
  loop: "conn_step op (conn_of s) = Inr (eff, c) \<Longrightarrow> shared_step s (LoopOp op) (s\<lparr>conn_of := c\<rparr>)"
| test: "tid \<noteq> loop_thread (conn_of s) \<Longrightarrow> tid \<notin> stopping s \<Longrightarrow>
    shared_step s (ShutdownTest tid) (shutdown_test tid s)"
| store: "tid \<in> stopping s \<Longrightarrow> shared_step s (ShutdownStore tid) (snd (shutdown_store tid s))"

inductive shared_run :: "shared_connection \<Rightarrow> shared_op list \<Rightarrow> shared_connection \<Rightarrow> bool" where
  nil: "shared_run s [] s"
| cons: "shared_step s op v \<Longrightarrow> shared_run v ops s' \<Longrightarrow> shared_run s (op # ops) s'"

inductive_cases shared_runE: "shared_run s (op # ops) s'"

text \<open>Without interruption the two steps are the call of \<open>shutdown()\<close>.\<close>

lemma shutdown_is_test_and_store:
  assumes "\<not> in_loop tid (conn_of s)" and "tid \<notin> stopping s"
  shows "shutdown tid (conn_of s) =
    (let s1 = shutdown_test tid s
     in if tid \<in> stopping s1 then Inr (fst (shutdown_store tid s1), conn_of (snd (shutdown_store tid s1)))
        else Inr ([], conn_of s1))"
  using assms by (simp add: shutdown_def shutdown_test_def shutdown_store_def in_loop_def Let_def)

fun counts_established :: "shared_op \<Rightarrow> bool" where
  "counts_established (LoopOp op) \<longleftrightarrow> is_established op"
| "counts_established _ \<longleftrightarrow> False"

text \<open>
  \<open>sc_ok\<close>: a thread passes its test on a connected connection only, so that one is stopping only if
  the connection has been connected. A step moves the state forward, except the late store.
\<close>

definition sc_ok :: "shared_connection \<Rightarrow> bool" where
  "sc_ok s \<longleftrightarrow> stopping s \<noteq> {} \<longrightarrow> state_of (conn_of s) \<noteq> Connecting"

lemma shared_step_state:
  assumes "shared_step s op v" and "sc_ok s"
  shows "sc_ok v \<and>
    (conn_rank (state_of (conn_of s)) \<le> conn_rank (state_of (conn_of v)) \<or>
     (\<exists>tid \<in> stopping s. op = ShutdownStore tid \<and> state_of (conn_of s) = Disconnected \<and>
        state_of (conn_of v) = Disconnecting)) \<and>
    (stopping v \<subseteq> stopping s \<or> state_of (conn_of s) = Connected) \<and>
    (counts_established op \<longrightarrow> state_of (conn_of s) = Connecting \<and> state_of (conn_of v) = Connected)"
  using assms
proof (induction rule: shared_step.induct)
  case (loop op s eff c)
  have rank: "conn_rank (state_of (conn_of s)) \<le> conn_rank (state_of c)"
    using conn_step_frame [OF loop(1)] by (simp add: framed_def)
  then have "state_of c \<noteq> Connecting" if "state_of (conn_of s) \<noteq> Connecting"
    using that by (cases "state_of (conn_of s)") auto
  moreover have "state_of (conn_of s) = Connecting \<and> state_of c = Connected" if "is_established op"
    using loop(1) that by (cases op) (auto simp: connectionEstablished_def Let_def split: if_splits)
  ultimately show ?case using loop(2) rank by (auto simp: sc_ok_def)
next
  case (store tid s)
  then show ?case by (cases "state_of (conn_of s)") (auto simp: shutdown_store_def sc_ok_def)
qed (auto simp: shutdown_test_def sc_ok_def)

lemma shared_run_state:
  assumes "shared_run s ops s'" and "sc_ok s"
  shows "sc_ok s' \<and>
    (conn_rank (state_of (conn_of s)) \<le> conn_rank (state_of (conn_of s')) \<or>
     state_of (conn_of s) = Disconnected \<and> state_of (conn_of s') = Disconnecting \<and> stopping s \<noteq> {}) \<and>
    length (filter counts_established ops) \<le> (if state_of (conn_of s) = Connecting then 1 else 0)"
  using assms
proof (induction rule: shared_run.induct)
  case (cons s op v ops s')
  note st = shared_step_state [OF cons.hyps(1) cons.prems]
  note IH = cons.IH [OF conjunct1 [OF st]]
  have nc: "state_of (conn_of v) \<noteq> Connecting" if "state_of (conn_of s) \<noteq> Connecting"
    using st that by (cases "state_of (conn_of s)") auto
  have "length (filter counts_established (op # ops)) \<le> (if state_of (conn_of s) = Connecting then 1 else 0)"
    using IH st nc by (auto split: if_splits)
  moreover have "conn_rank (state_of (conn_of s)) \<le> conn_rank (state_of (conn_of s')) \<or>
     state_of (conn_of s) = Disconnected \<and> state_of (conn_of s') = Disconnecting \<and> stopping s \<noteq> {}"
    using IH st by (cases "state_of (conn_of s)"; cases "state_of (conn_of s')") auto
  ultimately show ?case using IH by blast
qed simp


text \<open>
  The backward step happens: thread 9 tests a connected connection, the peer closes it, and thread 9
  stores \<open>Disconnecting\<close>.
\<close>

definition late_shutdown :: "shared_op list" where
  "late_shutdown = [ShutdownTest 9, LoopOp (Readable (ReadBytes []))]"

lemma late_shutdown_run:
  "\<exists>s. shared_run \<lparr>conn_of = small_conn, stopping = {}\<rparr> late_shutdown s \<and>
     state_of (conn_of s) = Disconnected \<and> stopping s = {9}"
proof -
  let ?c = small_conn
  let ?s = "\<lparr>conn_of = ?c, stopping = {}\<rparr>" and ?t = "\<lparr>conn_of = ?c, stopping = {9}\<rparr>"
  have f: "state_of ?c = Connected" "loop_thread ?c \<noteq> 9" "receive_buffer ?c = small_buffer"
    "close_callback ?c = Some 4"
    by (simp_all add: small_conn_def)
  have a: "shared_step ?s (ShutdownTest 9) ?t"
    using shared_step.test [of 9 ?s] f(1,2) by (simp add: shutdown_test_def)
  obtain b where "readFd (ReadBytes []) small_buffer = Inr (0, None, b)"
    using readFd_ok [of small_buffer "[]"] small_buffer_inv(1) by (auto simp: has_room_def buf_inv_def)
  then obtain eff c where c: "conn_step (Readable (ReadBytes [])) ?c = Inr (eff, c)" "state_of c = Disconnected"
    using f by (simp add: handleReadable_def handleClose_def in_loop_def Let_def)
  have "shared_step ?t (LoopOp (Readable (ReadBytes []))) (?t\<lparr>conn_of := c\<rparr>)"
    by (rule shared_step.loop) (use c(1) in simp)
  with a c(2) show ?thesis unfolding late_shutdown_def by (force intro: shared_run.intros)
qed


theorem late_shutdown_steps_back:
  "\<exists>s v. shared_run \<lparr>conn_of = small_conn, stopping = {}\<rparr> late_shutdown s \<and>
     state_of (conn_of s) = Disconnected \<and> shared_step s (ShutdownStore 9) v \<and>
     state_of (conn_of v) = Disconnecting"
proof -
  obtain s where s: "shared_run \<lparr>conn_of = small_conn, stopping = {}\<rparr> late_shutdown s"
    "state_of (conn_of s) = Disconnected" "stopping s = {9}" using late_shutdown_run by blast
  then have "shared_step s (ShutdownStore 9) (snd (shutdown_store 9 s))" by (intro shared_step.store) simp
  with s show ?thesis by (intro exI conjI) (auto simp: shutdown_store_def)
qed

text \<open>
  Property C32. \<open>shutdown()\<close> does not shut the socket down: it moves a connected connection to
  \<open>Disconnecting\<close> before it calls \<open>shutdownInLoop\<close>, which acts on a connected one only. So neither
  the call itself nor anything that happens to the connection afterwards, the draining of the
  buffer included, ever reaches \<open>Socket::shutdownWrite\<close>.
\<close>
theorem shutdown_never_reaches_socket:
  assumes "state_of c = Connected" and "conn_run (Shutdown # ops) c = Inr (eff, c')"
  shows "ShutdownSocket \<notin> set eff"
proof -
  from assms(2) obtain e1 c1 e2 where s: "shutdown (loop_thread c) c = Inr (e1, c1)"
    "conn_run ops c1 = Inr (e2, c')" "eff = e1 @ e2" by (auto simp: bind_res_eq_Inr)
  then have "state_of c1 = Disconnecting" "e1 = []"
    using assms(1) by (auto simp: shutdown_def shutdownInLoop_def in_loop_def Let_def)
  then show ?thesis using conn_run_frame [OF s(2)] s(3) by simp
qed

theorem shutdown_never_reaches_socket_witness:
  "\<exists>eff c'. conn_run [Shutdown] small_conn = Inr (eff, c') \<and> ShutdownSocket \<notin> set eff"
proof -
  obtain eff c' where r: "conn_run [Shutdown] small_conn = Inr (eff, c')"
    by (simp add: small_conn_def shutdown_def shutdownInLoop_def in_loop_def Let_def)
  with shutdown_never_reaches_socket [OF _ r] show ?thesis by (auto simp: small_conn_def)
qed

text \<open>
  Property C33. The channel of a connection never calls \<open>handleWritable\<close> or \<open>handleError\<close>: the
  constructor installs the read callback only and nothing installs the others, so whatever
  events the poller reports, at any point of the life of the connection, no write or error
  callback runs. Bytes that a short write left in the buffer are therefore never sent by an
  event, although the connection asks to be told of writability.
\<close>
theorem write_callback_never_runs:
  assumes "TcpConnection_new tid loop cid nm fd = Inr c" and "conn_run ops c = Inr (eff, c')"
  shows "OnWrite x \<notin> set (handleEvent (setReturnEvents m (chan c'))) \<and>
    OnError x \<notin> set (handleEvent (setReturnEvents m (chan c')))"
proof -
  have "write_callback (chan c) = None" "error_callback (chan c) = None"
    using assms(1) by (auto simp: TcpConnection_new_def bind_res_eq_Inr setReadCallback_def Channel_new_def)
  with conn_run_frame [OF assms(2)] show ?thesis
    by (simp add: framed_def handleEvent_def set_call_if setReturnEvents_def)
qed

theorem write_callback_never_runs_witness:
  "\<exists>c eff c'. TcpConnection_new 1 0 0 ''c'' 7 = Inr c \<and> conn_run [Established 0] c = Inr (eff, c') \<and>
     OnWrite (UserCallback 0) \<notin> set (handleEvent (setReturnEvents POLLOUT (chan c')))"
proof -
  obtain b where b: "Buffer_new INITIALIZE_SIZE = Inr b"
    using Buffer_new_ok [of INITIALIZE_SIZE] by (auto simp: INITIALIZE_SIZE_def limit_defs)
  then obtain c where c: "TcpConnection_new 1 0 0 ''c'' 7 = Inr c" "loop_thread c = 1" "state_of c = Connecting"
    by (simp add: TcpConnection_new_def)
  then obtain eff c' where r: "conn_run [Established 0] c = Inr (eff, c')"
    by (simp add: connectionEstablished_def in_loop_def Let_def)
  from write_callback_never_runs [OF c(1) r] c(1) r show ?thesis by blast
qed

section \<open>For the owners of a connection\<close>

text \<open>What the user of a connection may do to it, and what the kernel may deliver.\<close>

fun user_op :: "conn_op \<Rightarrow> bool" where
  "user_op (Send w msg) \<longleftrightarrow> True"
| "user_op Shutdown \<longleftrightarrow> True"
| "user_op _ \<longleftrightarrow> False"

definition read_ok :: "read_result \<Rightarrow> buffer \<Rightarrow> bool" where
  "read_ok r b \<longleftrightarrow>
     (case r of
        ReadError e \<Rightarrow> True
      | ReadBytes bs \<Rightarrow> length bs \<le> writableBytes b + EXTRA_SIZE \<and> has_room (length bs) b)"

text \<open>What a step of the user leaves alone that concerns the owner of the connection.\<close>

definition owner_frame :: "tcp_connection \<Rightarrow> tcp_connection \<Rightarrow> bool" where
  "owner_frame c c' \<longleftrightarrow> loop_thread c' = loop_thread c \<and> close_callback c' = close_callback c \<and>
     conn_name c' = conn_name c \<and> (isReading (chan c') \<longleftrightarrow> isReading (chan c))"

lemma want_write_owner_frame [simp]:
  "close_callback (snd (want_write c)) = close_callback c" "conn_name (snd (want_write c)) = conn_name c"
  "isReading (chan (snd (want_write c))) = isReading (chan c)"
  by (simp_all add: want_write_def Let_def)

lemma sendInLoop_owner_frame:
  "sendInLoop tid w msg c = Inr (eff, c') \<Longrightarrow>
   owner_frame c c' \<and> receive_buffer c' = receive_buffer c \<and> state_of c' = state_of c"
  by (auto simp: sendInLoop_def direct_write_def owner_frame_def Let_def case_prod_beta bind_res_eq_Inr
      split: if_splits write_result.splits)

lemma user_op_frame:
  assumes "user_op op" and "conn_step op c = Inr (eff, c')"
  shows "owner_frame c c' \<and> receive_buffer c' = receive_buffer c \<and>
    (state_of c' = state_of c \<or> state_of c = Connected \<and> state_of c' = Disconnecting)"
  using assms sendInLoop_owner_frame
  by (cases op) (auto simp: send_def in_loop_def shutdown_def shutdownInLoop_def owner_frame_def Let_def
      split: if_splits)

section \<open>What a send and a read report\<close>

text \<open>
  What a send of a non-empty message tells the outside, on a well-formed connection:
  the write-complete callback is queued exactly when nothing was and nothing is left in the
  buffer; the high-water callback exactly when bytes are left and the buffer has reached the
  mark; and the poller is told exactly when the buffer has become non-empty.
\<close>
theorem send_notifies:
  assumes "conn_ok c" and "accepts w (length msg)" and "has_room (length msg) (send_buffer c)"
    and "msg \<noteq> []" and "sendInLoop (loop_thread c) w msg c = Inr (eff, c')"
  shows "(QueueWriteComplete f \<in> set eff \<longleftrightarrow> write_complete_callback c = Some f \<and>
      contents (send_buffer c) = [] \<and> contents (send_buffer c') = []) \<and>
    (QueueHighWater f \<in> set eff \<longleftrightarrow> high_water_callback c = Some f \<and>
      contents (send_buffer c') \<noteq> [] \<and> high_water_mark c \<le> length (contents (send_buffer c'))) \<and>
    (UpdateChannel m \<in> set eff \<longleftrightarrow> contents (send_buffer c) = [] \<and>
      contents (send_buffer c') \<noteq> [] \<and> m = events (chan c'))"
proof -
  obtain k where k: "k \<le> length msg" "direct_write w msg c = (k, c\<lparr>wire := wire c @ take k msg\<rparr>)"
    "idle c \<or> k = 0" "(case w of WriteCount n \<Rightarrow> if idle c then k = n else k = 0 | WriteError e \<Rightarrow> k = 0)"
    using direct_write_cases [OF assms(2), of c] by metis
  have inv: "buf_inv (send_buffer c)" using assms(1) by (simp add: conn_ok_def)
  have wr: "isWriting (chan c) \<longleftrightarrow> contents (send_buffer c) \<noteq> []" using assms(1) by (simp add: conn_ok_def)
  show ?thesis
  proof (cases "k < length msg")
    case True
    have "has_room (length (drop k msg)) (send_buffer c)" using assms(3) by (simp add: has_room_def)
    from buf_append_ok [OF inv this] obtain b where
      b: "buf_append (drop k msg) (send_buffer c) = Inr b" "buf_inv b"
        "contents b = contents (send_buffer c) @ drop k msg" by blast
    let ?c = "c\<lparr>wire := wire c @ take k msg, send_buffer := b\<rparr>"
    have none: "(case w of WriteCount n \<Rightarrow> if idle c \<and> \<not> n < length msg
        then opt_effect QueueWriteComplete (write_complete_callback c) else [] | WriteError e \<Rightarrow> []) = []"
      using k(4) True by (auto split: write_result.splits if_splits)
    have "eff = fst (want_write ?c) @ high_water (snd (want_write ?c))" "c' = snd (want_write ?c)"
      using assms(5) True k(2) b(1) none by (auto simp: sendInLoop_def in_loop_def Let_def case_prod_beta)
    moreover have "contents b \<noteq> []" "length (contents b) = readableBytes b"
      using b(3) True length_contents [OF buf_inv_wf [OF b(2)]] by simp_all
    ultimately show ?thesis
      by (auto simp: want_write_def high_water_def set_opt_effect wr Let_def)
  next
    case False
    then have "k = length msg" "idle c" using k(1,3) assms(4) by auto
    moreover obtain n where "w = WriteCount n" "n = k"
      using k(4) \<open>idle c\<close> \<open>k = length msg\<close> assms(4) by (cases w) auto
    ultimately have "eff = opt_effect QueueWriteComplete (write_complete_callback c)"
      "c' = c\<lparr>wire := wire c @ take k msg\<rparr>"
      using assms(5) k(2) by (auto simp: sendInLoop_def in_loop_def)
    then show ?thesis using idle_iff [OF assms(1)] \<open>idle c\<close> by (auto simp: set_opt_effect)
  qed
qed

theorem send_notifies_witness:
  "\<exists>eff c'. sendInLoop 1 (WriteCount 2) [5, 6] small_conn = Inr (eff, c') \<and> QueueWriteComplete 3 \<in> set eff"
proof -
  have l: "loop_thread small_conn = 1" "write_complete_callback small_conn = Some 3"
    "send_buffer small_conn = small_buffer" by (simp_all add: small_conn_def)
  have "idle small_conn" using idle_iff [OF small_conn_ok] l by simp
  then have r: "sendInLoop (loop_thread small_conn) (WriteCount 2) [5, 6] small_conn =
      Inr ([QueueWriteComplete 3], small_conn\<lparr>wire := wire small_conn @ [5, 6]\<rparr>)"
    by (simp add: sendInLoop_def in_loop_def direct_write_def opt_effect_def l)
  have "has_room (length [5, 6 :: byte]) (send_buffer small_conn)"
    by (simp add: l has_room_def small_buffer_def VECTOR_MAX_def)
  from send_notifies [OF small_conn_ok _ this _ r, of 3] show ?thesis
    using r l by (auto simp: accepts_def)
qed

text \<open>
  What a readable event does, for every result of \<open>readv\<close>: bytes are appended to the
  receive buffer in order and the message callback is called once, after that; the end of the
  stream closes the connection, stops all interest in events and calls the close callback
  once; an error changes nothing.
\<close>
theorem handleReadable_effects:
  assumes "buf_inv (receive_buffer c)" and "close_callback c = Some f"
    and "state_of c = Connected \<or> state_of c = Disconnecting"
    and "length bs \<le> writableBytes (receive_buffer c) + EXTRA_SIZE"
    and "write_index (receive_buffer c) + length bs \<le> VECTOR_MAX" and "bs \<noteq> []"
  shows "(\<exists>b. handleReadable (loop_thread c) (ReadBytes bs) c =
        Inr (opt_effect CallMessage (message_callback c), c\<lparr>receive_buffer := b\<rparr>) \<and>
        buf_inv b \<and> contents b = contents (receive_buffer c) @ bs) \<and>
    (\<exists>c'. handleReadable (loop_thread c) (ReadBytes []) c = Inr ([UpdateChannel kNoneEvent, CallClose f], c') \<and>
        state_of c' = Disconnected \<and> isNoneEvent (chan c') \<and>
        contents (receive_buffer c') = contents (receive_buffer c)) \<and>
    handleReadable (loop_thread c) (ReadError e) c = Inr ([], c)"
proof -
  have room: "has_room (length bs) (receive_buffer c)" using assms(5) by (simp add: has_room_def)
  from readFd_ok [OF assms(1,4) room] obtain b where
    b: "readFd (ReadBytes bs) (receive_buffer c) = Inr (int (length bs), None, b)" "buf_inv b"
      "contents b = contents (receive_buffer c) @ bs" by blast
  have "has_room 0 (receive_buffer c)" using buf_invD [OF assms(1)] by (simp add: has_room_def)
  with readFd_ok [OF assms(1), of "[]"] obtain b0 where
    b0: "readFd (ReadBytes []) (receive_buffer c) = Inr (0, None, b0)" "contents b0 = contents (receive_buffer c)"
    by auto
  have e: "readFd (ReadError e) (receive_buffer c) = Inr (-1, Some e, receive_buffer c)" by (simp add: readFd_def)
  show ?thesis
    using b b0 e assms(2,3,6)
    by (auto simp: handleReadable_def in_loop_def handleClose_def handleError_def ignoreAll_def
        isNoneEvent_def Let_def)
qed

theorem handleReadable_effects_witness:
  "\<exists>b. handleReadable 1 (ReadBytes [9, 8, 7, 6]) small_conn = Inr ([CallMessage 1], small_conn\<lparr>receive_buffer := b\<rparr>) \<and>
     contents b = [9, 8, 7, 6]"
proof -
  have l: "loop_thread small_conn = 1" "receive_buffer small_conn = small_buffer" "close_callback small_conn = Some 4"
    "state_of small_conn = Connected" "message_callback small_conn = Some 1"
    by (simp_all add: small_conn_def)
  have "length [9, 8, 7, 6 :: byte] \<le> writableBytes small_buffer + EXTRA_SIZE"
    "write_index small_buffer + length [9, 8, 7, 6 :: byte] \<le> VECTOR_MAX"
    by (simp_all add: small_buffer_def buf_eval)
  then show ?thesis using handleReadable_effects [of small_conn 4 "[9, 8, 7, 6]" 0] l
    by (auto simp: opt_effect_def)
qed

section \<open>Sends that arrive late\<close>

text \<open>
  A queued send that runs after the connection was destroyed registers its channel
  with the poller again: \<open>sendInLoop\<close> does not look at the state, so on a disconnected connection
  without interest, whose socket refuses the write, it buffers the bytes and tells the poller to
  watch for writability. The poller then keeps a channel that nothing removes any more.
\<close>
theorem late_send_reregisters_channel:
  assumes "connectionDestroyed (loop_thread c) c = Inr (eff, c1)" and "conn_ok c"
    and "contents (send_buffer c) = []" and "msg \<noteq> []" and "has_room (length msg) (send_buffer c)"
  shows "\<exists>c2. run_queued (loop_thread c) (WriteError e) mem (QueueSend msg) c1 =
      Inr (UpdateChannel kWriteEvent # high_water c2, c2) \<and> state_of c2 = Disconnected \<and>
      isWriting (chan c2)"
proof -
  have c1: "c1 = c\<lparr>state_of := Disconnected, chan := ignoreAll (chan c)\<rparr>"
    using assms(1) by (auto simp: connectionDestroyed_def in_loop_def Let_def)
  have inv: "buf_inv (send_buffer c)" using assms(2) by (simp add: conn_ok_def)
  from buf_append_ok [OF inv assms(5)] obtain b where b: "buf_append msg (send_buffer c) = Inr b" by blast
  have i: "events (listenTillWritable (ignoreAll (chan c))) = kWriteEvent"
    by (simp add: listenTillWritable_def ignoreAll_def kNoneEvent_def)
  have "want_write (c1\<lparr>send_buffer := b\<rparr>) = ([UpdateChannel kWriteEvent],
      c1\<lparr>send_buffer := b, chan := listenTillWritable (ignoreAll (chan c))\<rparr>)"
    by (simp add: want_write_def c1 i Let_def)
  then show ?thesis using b assms(4)
    by (simp add: run_queued_def sendInLoop_def direct_write_def in_loop_def c1 Let_def)
qed

theorem late_send_reregisters_channel_witness:
  "\<exists>eff c1 c2. connectionDestroyed 1 small_conn = Inr (eff, c1) \<and>
     run_queued 1 (WriteError 32) [] (QueueSend [5]) c1 = Inr (UpdateChannel kWriteEvent # high_water c2, c2) \<and>
     state_of c2 = Disconnected"
proof -
  have l: "loop_thread small_conn = 1" "send_buffer small_conn = small_buffer" by (simp_all add: small_conn_def)
  obtain eff c1 where d: "connectionDestroyed (loop_thread small_conn) small_conn = Inr (eff, c1)"
    by (simp add: connectionDestroyed_def in_loop_def Let_def)
  have "has_room (length [5 :: byte]) (send_buffer small_conn)"
    by (simp add: l has_room_def small_buffer_def VECTOR_MAX_def)
  with late_send_reregisters_channel [OF d small_conn_ok _ _ this, of 32 "[]"] d l show ?thesis by auto
qed

text \<open>
  \<open>send(const char*, size_t)\<close> called from another thread sends what the memory holds
  when the loop gets to the task, not what it held at the call: the task keeps the pointer. For
  every content \<open>later\<close> of the memory at that time, it is these bytes that enter the stream.
\<close>
theorem queued_pointer_send_reads_late:
  assumes "conn_ok c" and "state_of c = Connected" and "other \<noteq> loop_thread c"
    and "p + n \<le> length later" and "has_room n (send_buffer c)" and "accepts w n"
  shows "\<exists>eff c'. send_ptr other w mem p n c = Inr ([QueueSendPtr p n], c) \<and>
    run_queued (loop_thread c) w later (QueueSendPtr p n) c = Inr (eff, c') \<and>
    wire c' @ contents (send_buffer c') = wire c @ contents (send_buffer c) @ mslice p n later"
proof -
  have len: "length (mslice p n later) = n" using assms(4) by simp
  with sendInLoop_stream [of c w "mslice p n later"] assms show ?thesis
    by (auto simp: send_ptr_def run_queued_def in_loop_def mem_read_def extends_stream_def)
qed

theorem queued_pointer_send_reads_late_witness:
  "\<exists>eff c'. send_ptr 2 (WriteCount 1) [1, 1] 0 1 small_conn = Inr ([QueueSendPtr 0 1], small_conn) \<and>
     run_queued 1 (WriteCount 1) [2, 2] (QueueSendPtr 0 1) small_conn = Inr (eff, c') \<and>
     wire c' @ contents (send_buffer c') = [2]"
proof -
  have l: "loop_thread small_conn = 1" "send_buffer small_conn = small_buffer" "state_of small_conn = Connected"
    "wire small_conn = []" by (simp_all add: small_conn_def)
  have "has_room 1 (send_buffer small_conn)" by (simp add: l has_room_def small_buffer_def VECTOR_MAX_def)
  then show ?thesis
    using queued_pointer_send_reads_late [OF small_conn_ok, of 2 0 1 "[2, 2]" "WriteCount 1" "[1, 1]"] l
    by (simp add: accepts_def mslice_def)
qed

text \<open>
  The two ways to send differ in what they report: a buffer that the kernel accepts
  as a whole never leads to the write-complete callback, while the same bytes sent from memory
  do.
\<close>
theorem buffer_send_never_reports_completion:
  assumes "conn_ok c" and "contents (send_buffer c) = []" and "buf_inv b"
    and "write_complete_callback c = Some f"
  shows "\<exists>eff1 c1 b1 eff2 c2.
    sendInLoop_buffer (loop_thread c) (WriteCount (readableBytes b)) b c = Inr (eff1, c1, b1) \<and>
    sendInLoop (loop_thread c) (WriteCount (readableBytes b)) (contents b) c = Inr (eff2, c2) \<and>
    wire c1 = wire c2 \<and> QueueWriteComplete f \<notin> set eff1 \<and> QueueWriteComplete f \<in> set eff2"
proof -
  have len: "length (contents b) = readableBytes b" using assms(3) by (simp add: length_contents buf_inv_wf)
  have "idle c" using idle_iff [OF assms(1)] assms(2) by simp
  moreover have "buf_inv (retrieve (readableBytes b) b)" "contents (retrieve (readableBytes b) b) = []"
    using assms(3) len by (simp_all add: retrieve_inv contents_retrieve buf_inv_wf)
  ultimately show ?thesis using len assms(4)
    by (simp add: sendInLoop_buffer_def sendInLoop_def in_loop_def direct_write_def peek_all [OF assms(3)]
        readable_pos_iff opt_effect_def)
qed

theorem buffer_send_never_reports_completion_witness:
  "\<exists>eff1 c1 b1. sendInLoop_buffer 1 (WriteCount (readableBytes small_buffer)) small_buffer small_conn =
      Inr (eff1, c1, b1) \<and> QueueWriteComplete 3 \<notin> set eff1"
proof -
  have "loop_thread small_conn = 1" "send_buffer small_conn = small_buffer"
    "write_complete_callback small_conn = Some 3" by (simp_all add: small_conn_def)
  then show ?thesis
    using buffer_send_never_reports_completion [OF small_conn_ok, of small_buffer 3] by auto
qed

end
