(* ===== verification/Connector.thy ===== *)
theory Connector
  imports Channel "HOL-Library.Multiset"
begin

text \<open>
  \<open>net/Connector.cpp\<close>: the client side of establishing a connection, with exponential back-off.
  The kernel's answers (the descriptor of a new socket, the result of \<open>connect\<close>, the pending
  error of the socket) are inputs. \<open>opened\<close>, \<open>closed\<close> and \<open>handed\<close> record the descriptors the
  connector has created, closed and given to its callback; \<open>timers_pending\<close> counts the retry
  timers that have not fired, since the code keeps no handle on them.
\<close>

section \<open>State\<close>

datatype connector_state = C_Disconnected | C_Connecting | C_Connected

definition MAX_RETRY_DELAY :: int where
  "MAX_RETRY_DELAY = 30000"

definition DEFAULT_RETRY_DELAY :: int where
  "DEFAULT_RETRY_DELAY = 500"

record connector =
  cn_loop :: nat
  cn_connect :: bool
  cn_callback :: bool
  cn_state :: connector_state
  cn_socket :: "fd option"
  cn_channel :: "channel option"
  retry_delay :: int
  timers_pending :: nat
  opened :: "fd list"
  closed :: "fd list"
  handed :: "fd list"

definition Connector_new :: "nat \<Rightarrow> connector" where
  "Connector_new loop =
     \<lparr>cn_loop = loop, cn_connect = False, cn_callback = False, cn_state = C_Disconnected,
      cn_socket = None, cn_channel = None, retry_delay = DEFAULT_RETRY_DELAY, timers_pending = 0,
      opened = [], closed = [], handed = []\<rparr>"

definition setNewConnectionCallback :: "connector \<Rightarrow> connector" where
  "setNewConnectionCallback c = c\<lparr>cn_callback := True\<rparr>"

datatype cn_effect =
    CnUpdateChannel event_mask
  | CnRemoveChannel
  | RunAfter int
  | NewConnection fd

type_synonym cn_result = "(cn_effect list \<times> connector) res"

definition cn_then :: "cn_result \<Rightarrow> (connector \<Rightarrow> cn_result) \<Rightarrow> cn_result" where
  "cn_then m f = bind_res m (\<lambda>(e1, c1). bind_res (f c1) (\<lambda>(e2, c2). Inr (e1 @ e2, c2)))"

section \<open>Operations\<close>

text \<open>
  \<open>socket_.reset()\<close>: the destructor of the socket closes its descriptor, unless the socket was moved
  from; a moved-from socket holds the descriptor \<open>-1\<close>.
\<close>

definition reset_socket :: "connector \<Rightarrow> connector" where
  "reset_socket c =
     (case cn_socket c of
        None \<Rightarrow> c
      | Some s \<Rightarrow> if s = -1 then c\<lparr>cn_socket := None\<rparr> else c\<lparr>cn_socket := None, closed := closed c @ [s]\<rparr>)"

definition resetChannel :: "connector \<Rightarrow> cn_result" where
  "resetChannel c =
     (case cn_channel c of
        None \<Rightarrow> Inr ([], c)
      | Some ch \<Rightarrow> Inr ([CnUpdateChannel (events (ignoreAll ch)), CnRemoveChannel], c\<lparr>cn_channel := None\<rparr>))"

definition retry :: "connector \<Rightarrow> cn_result" where
  "retry c =
     (let c1 = reset_socket (c\<lparr>cn_state := C_Disconnected\<rparr>);
          c2 = c1\<lparr>retry_delay := min (2 * retry_delay c1) MAX_RETRY_DELAY\<rparr>
      in if cn_connect c2
         then Inr ([RunAfter (retry_delay c2)], c2\<lparr>timers_pending := timers_pending c2 + 1\<rparr>)
         else Inr ([], c2))"

definition connecting :: "connector \<Rightarrow> cn_result" where
  "connecting c =
     (case cn_socket c of
        None \<Rightarrow> Inl NullDereference
      | Some s \<Rightarrow>
          (let ch = listenTillWritable (setWriteCallback (Some ConnectorWrite) (Channel_new (cn_loop c) s))
           in Inr ([CnUpdateChannel (events ch)], c\<lparr>cn_channel := Some ch\<rparr>)))"

text \<open>
  \<open>connect\<close> with the answer \<open>err\<close> of \<open>connect(2)\<close> (0 for success) for the new socket \<open>s\<close>. The
  error numbers are those of Linux; a socket that cannot be created aborts.
\<close>

definition in_progress :: "errno \<Rightarrow> bool" where
  "in_progress err \<longleftrightarrow> err = 0 \<or> err = 115 \<or> err = 4 \<or> err = 106"

definition transient :: "errno \<Rightarrow> bool" where
  "transient err \<longleftrightarrow> err = 11 \<or> err = 98 \<or> err = 99 \<or> err = 111 \<or> err = 101"

definition cn_connect_socket :: "fd \<Rightarrow> errno \<Rightarrow> connector \<Rightarrow> cn_result" where
  "cn_connect_socket s err c =
     (if s = -1 then Inl Abort
      else
        (let c1 = (reset_socket c)\<lparr>cn_socket := Some s, opened := opened c @ [s]\<rparr>
         in if in_progress err then connecting c1
            else if transient err then retry c1
            else Inr ([], (reset_socket c1)\<lparr>cn_state := C_Disconnected\<rparr>)))"

definition startInLoop :: "fd \<Rightarrow> errno \<Rightarrow> connector \<Rightarrow> cn_result" where
  "startInLoop s err c =
     (if cn_state c \<noteq> C_Disconnected then Inl Abort
      else cn_connect_socket s err (c\<lparr>cn_state := C_Connecting\<rparr>))"

definition Connector_start :: "fd \<Rightarrow> errno \<Rightarrow> connector \<Rightarrow> cn_result" where
  "Connector_start s err c = startInLoop s err (c\<lparr>cn_connect := True\<rparr>)"

definition Connector_restart :: "fd \<Rightarrow> errno \<Rightarrow> connector \<Rightarrow> cn_result" where
  "Connector_restart s err c =
     startInLoop s err (c\<lparr>cn_state := C_Disconnected, cn_connect := True, retry_delay := DEFAULT_RETRY_DELAY\<rparr>)"

definition stopInLoop :: "connector \<Rightarrow> cn_result" where
  "stopInLoop c =
     (if cn_state c = C_Connecting
      then cn_then (resetChannel c) (\<lambda>c1. Inr ([], (reset_socket c1)\<lparr>cn_state := C_Disconnected\<rparr>))
      else Inr ([], c\<lparr>cn_state := C_Disconnected\<rparr>))"

definition Connector_stop :: "connector \<Rightarrow> cn_result" where
  "Connector_stop c = stopInLoop (c\<lparr>cn_connect := False\<rparr>)"

text \<open>
  The new-connection callback runs inside \<open>handleWritable\<close>, before the last \<open>socket_.reset()\<close>, while
  \<open>socket_\<close> is the moved-from socket; \<open>calls\<close> are the calls it makes on the connector.
\<close>

datatype cn_call = CallStart fd errno | CallRestart fd errno | CallStop

fun cn_do_call :: "cn_call \<Rightarrow> connector \<Rightarrow> cn_result" where
  "cn_do_call (CallStart s err) c = Connector_start s err c"
| "cn_do_call (CallRestart s err) c = Connector_restart s err c"
| "cn_do_call CallStop c = Connector_stop c"

fun cn_calls :: "cn_call list \<Rightarrow> connector \<Rightarrow> cn_result" where
  "cn_calls [] c = Inr ([], c)"
| "cn_calls (x # xs) c = cn_then (cn_do_call x c) (cn_calls xs)"

definition Connector_handleWritable :: "cn_call list \<Rightarrow> errno \<Rightarrow> connector \<Rightarrow> cn_result" where
  "Connector_handleWritable calls err c =
     (case cn_socket c of
        None \<Rightarrow> Inl NullDereference
      | Some s \<Rightarrow>
          if err \<noteq> 0 then cn_then (resetChannel c) (\<lambda>c1. retry (reset_socket c1))
          else cn_then (resetChannel (c\<lparr>cn_state := C_Connected\<rparr>)) (\<lambda>c1.
                 cn_then
                   (if cn_callback c1
                    then cn_then (Inr ([NewConnection s], c1\<lparr>cn_socket := Some (-1), handed := handed c1 @ [s]\<rparr>))
                           (cn_calls calls)
                    else Inr ([], c1))
                   (\<lambda>c2. Inr ([], reset_socket c2))))"

text \<open>The retry timer calls \<open>startInLoop\<close>, whatever happened since it was set.\<close>

definition retry_timer_fires :: "fd \<Rightarrow> errno \<Rightarrow> connector \<Rightarrow> cn_result" where
  "retry_timer_fires s err c = startInLoop s err (c\<lparr>timers_pending := timers_pending c - 1\<rparr>)"

text \<open>The destructor removes the channel; the member \<open>socket_\<close> closes what it still owns.\<close>

definition Connector_delete :: "connector \<Rightarrow> cn_result" where
  "Connector_delete c = cn_then (resetChannel c) (\<lambda>c1. Inr ([], reset_socket c1))"

definition getStateAsString :: "connector_state \<Rightarrow> string" where
  "getStateAsString st =
     (case st of
        C_Disconnected \<Rightarrow> ''Disconnected''
      | C_Connecting \<Rightarrow> ''Connecting''
      | C_Connected \<Rightarrow> ''Connected'')"

section \<open>Runs\<close>

text \<open>
  What can happen to a connector in the thread of its loop: the public calls, at any time, and the
  events of its channel and its timers. A course is calm when \<open>restart()\<close> is only called on a
  connector without a channel (the client calls it when a connection that was handed over has
  closed) and the new-connection callback makes no call on the connector but \<open>stop()\<close>.
\<close>

datatype cn_op =
    Start fd errno
  | Restart fd errno
  | Stop
  | SocketWritable "cn_call list" errno
  | RetryTimer fd errno

fun cn_enabled :: "cn_op \<Rightarrow> connector \<Rightarrow> bool" where
  "cn_enabled (SocketWritable calls err) c \<longleftrightarrow> cn_channel c \<noteq> None"
| "cn_enabled (RetryTimer s err) c \<longleftrightarrow> 0 < timers_pending c"
| "cn_enabled _ c \<longleftrightarrow> True"

fun cn_calm :: "cn_op \<Rightarrow> connector \<Rightarrow> bool" where
  "cn_calm (Restart s err) c \<longleftrightarrow> cn_channel c = None"
| "cn_calm (SocketWritable calls err) c \<longleftrightarrow> set calls \<subseteq> {CallStop}"
| "cn_calm _ c \<longleftrightarrow> True"

fun cn_step :: "cn_op \<Rightarrow> connector \<Rightarrow> cn_result" where
  "cn_step (Start s err) c = Connector_start s err c"
| "cn_step (Restart s err) c = Connector_restart s err c"
| "cn_step Stop c = Connector_stop c"
| "cn_step (SocketWritable calls err) c = Connector_handleWritable calls err c"
| "cn_step (RetryTimer s err) c = retry_timer_fires s err c"

inductive cn_reach :: "bool \<Rightarrow> connector \<Rightarrow> bool" for calm where
  init: "cn_reach calm (setNewConnectionCallback (Connector_new loop))"
| step: "cn_reach calm c \<Longrightarrow> cn_enabled op c \<Longrightarrow> calm \<longrightarrow> cn_calm op c \<Longrightarrow> cn_step op c = Inr (eff, c') \<Longrightarrow>
    cn_reach calm c'"

section \<open>Sockets and channels\<close>

definition live_sockets :: "connector \<Rightarrow> fd multiset" where
  "live_sockets c = (case cn_socket c of None \<Rightarrow> {#} | Some s \<Rightarrow> if s = -1 then {#} else {#s#})"

definition balanced :: "connector \<Rightarrow> bool" where
  "balanced c \<longleftrightarrow> mset (opened c) = mset (closed c) + mset (handed c) + live_sockets c"

definition consistent :: "connector \<Rightarrow> bool" where
  "consistent c \<longleftrightarrow> (cn_state c = C_Connecting \<longleftrightarrow> cn_channel c \<noteq> None) \<and>
     (cn_state c = C_Connecting \<longleftrightarrow> cn_socket c \<noteq> None) \<and>
     (case cn_channel c of None \<Rightarrow> True | Some ch \<Rightarrow> cn_socket c = Some (fd_of ch) \<and> fd_of ch \<noteq> -1 \<and> isWriting ch)"

definition delay_ok :: "connector \<Rightarrow> bool" where
  "delay_ok c \<longleftrightarrow> DEFAULT_RETRY_DELAY \<le> retry_delay c \<and> retry_delay c \<le> MAX_RETRY_DELAY"

definition cn_inv :: "connector \<Rightarrow> bool" where
  "cn_inv c \<longleftrightarrow> balanced c \<and> consistent c \<and> delay_ok c"

lemmas delay_defs = MAX_RETRY_DELAY_def DEFAULT_RETRY_DELAY_def

lemma reset_socket_fields [simp]:
  "cn_socket (reset_socket c) = None" "cn_channel (reset_socket c) = cn_channel c"
  "cn_state (reset_socket c) = cn_state c" "retry_delay (reset_socket c) = retry_delay c"
  "opened (reset_socket c) = opened c" "handed (reset_socket c) = handed c"
  "cn_connect (reset_socket c) = cn_connect c" "cn_loop (reset_socket c) = cn_loop c"
  "timers_pending (reset_socket c) = timers_pending c" "cn_callback (reset_socket c) = cn_callback c"
  by (simp_all add: reset_socket_def split: option.split)

lemma reset_socket_closed: "mset (closed (reset_socket c)) = mset (closed c) + live_sockets c"
  by (simp add: reset_socket_def live_sockets_def split: option.split)

lemma reset_socket_None: "cn_socket c = None \<Longrightarrow> reset_socket c = c"
  by (simp add: reset_socket_def)

lemma connector_channel_ok [simp]:
  "isWriting (listenTillWritable (setWriteCallback cb (Channel_new l s)))"
  "fd_of (listenTillWritable (setWriteCallback cb (Channel_new l s))) = s"
  by (simp_all add: setWriteCallback_def Channel_new_def, simp add: listenTillWritable_def)

lemma retry_inv:
  assumes "balanced c" and "cn_channel c = None" and "delay_ok c" and "retry c = Inr (eff, c')"
  shows "cn_inv c' \<and> cn_state c' = C_Disconnected"
  using assms reset_socket_closed [of "c\<lparr>cn_state := C_Disconnected\<rparr>"]
  by (auto simp: retry_def cn_inv_def balanced_def consistent_def delay_ok_def delay_defs live_sockets_def
      Let_def split: if_splits)

lemma startInLoop_inv:
  assumes inv: "cn_inv c" and ch: "cn_channel c = None" and run: "startInLoop s err c = Inr (eff, c')"
  shows "cn_inv c'"
proof -
  have st: "cn_state c = C_Disconnected" "s \<noteq> -1" "cn_socket c = None"
    using run inv ch by (auto simp: startInLoop_def cn_connect_socket_def cn_inv_def consistent_def split: if_splits)
  let ?c = "c\<lparr>cn_state := C_Connecting, cn_socket := Some s, opened := opened c @ [s]\<rparr>"
  have bal: "balanced ?c" using inv st(2,3) by (simp add: cn_inv_def balanced_def live_sockets_def)
  have run': "(if in_progress err then connecting ?c else if transient err then retry ?c
      else Inr ([], (reset_socket ?c)\<lparr>cn_state := C_Disconnected\<rparr>)) = Inr (eff, c')"
    using run st by (simp add: startInLoop_def cn_connect_socket_def Let_def reset_socket_None)
  consider "in_progress err" | "\<not> in_progress err" "transient err" | "\<not> in_progress err" "\<not> transient err"
    by blast
  then show ?thesis
  proof cases
    case 1
    with run' bal inv st(2) show ?thesis
      by (auto simp: connecting_def Let_def cn_inv_def consistent_def balanced_def delay_ok_def live_sockets_def)
  next
    case 2
    have "delay_ok ?c" using inv by (simp add: cn_inv_def delay_ok_def)
    with 2 run' retry_inv [OF bal, of eff c'] ch show ?thesis by simp
  next
    case 3
    with run' bal inv ch reset_socket_closed [of ?c] show ?thesis
      by (auto simp: cn_inv_def consistent_def balanced_def delay_ok_def live_sockets_def)
  qed
qed

lemma resetChannel_ok: "\<exists>e. resetChannel c = Inr (e, c\<lparr>cn_channel := None\<rparr>)"
  by (cases "cn_channel c") (simp_all add: resetChannel_def)

lemma stop_inv: "cn_inv c \<Longrightarrow> Connector_stop c = Inr (eff, c') \<Longrightarrow> cn_inv c'"
  using resetChannel_ok [of "c\<lparr>cn_connect := False\<rparr>"]
    reset_socket_closed [of "c\<lparr>cn_connect := False, cn_channel := None\<rparr>"]
  by (auto simp: Connector_stop_def stopInLoop_def cn_then_def cn_inv_def consistent_def balanced_def
      delay_ok_def live_sockets_def split: if_splits)

lemma only_stops:
  "set calls \<subseteq> {CallStop} \<Longrightarrow> cn_state c \<noteq> C_Connecting \<Longrightarrow>
   \<exists>b st. cn_calls calls c = Inr ([], c\<lparr>cn_connect := b, cn_state := st\<rparr>) \<and> st \<noteq> C_Connecting"
proof (induction calls arbitrary: c)
  case Nil
  have "c = c\<lparr>cn_connect := cn_connect c, cn_state := cn_state c\<rparr>" by simp
  with Nil.prems(2) show ?case by (metis cn_calls.simps(1))
next
  case (Cons x xs)
  let ?c = "c\<lparr>cn_connect := False, cn_state := C_Disconnected\<rparr>"
  have "cn_do_call x c = Inr ([], ?c)" using Cons.prems by (simp add: Connector_stop_def stopInLoop_def)
  moreover obtain b st where "cn_calls xs ?c = Inr ([], ?c\<lparr>cn_connect := b, cn_state := st\<rparr>)" "st \<noteq> C_Connecting"
    using Cons.IH [of ?c] Cons.prems(1) by auto
  ultimately show ?case by (auto simp: cn_then_def)
qed

lemma established_result:
  assumes "cn_socket c = Some s" and "set calls \<subseteq> {CallStop}" and "cn_callback c"
  shows "\<exists>e b st. Connector_handleWritable calls 0 c = Inr (e @ [NewConnection s],
      c\<lparr>cn_channel := None, handed := handed c @ [s], cn_connect := b, cn_state := st, cn_socket := None\<rparr>) \<and>
    st \<noteq> C_Connecting \<and> NewConnection s \<notin> set e"
proof -
  let ?c = "c\<lparr>cn_state := C_Connected\<rparr>"
  let ?d = "?c\<lparr>cn_channel := None, cn_socket := Some (-1), handed := handed c @ [s]\<rparr>"
  obtain e where e: "resetChannel ?c = Inr (e, ?c\<lparr>cn_channel := None\<rparr>)" "NewConnection s \<notin> set e"
    by (cases "cn_channel c") (simp_all add: resetChannel_def)
  obtain b st where r: "cn_calls calls ?d = Inr ([], ?d\<lparr>cn_connect := b, cn_state := st\<rparr>)" "st \<noteq> C_Connecting"
    using only_stops [OF assms(2), of ?d] by auto
  have "Connector_handleWritable calls 0 c = Inr (e @ [NewConnection s],
      c\<lparr>cn_channel := None, handed := handed c @ [s], cn_connect := b, cn_state := st, cn_socket := None\<rparr>)"
    using assms(1,3) e(1) r(1) by (simp add: Connector_handleWritable_def cn_then_def reset_socket_def)
  with r(2) e(2) show ?thesis by blast
qed

lemma handleWritable_inv:
  assumes inv: "cn_inv c" and calls: "set calls \<subseteq> {CallStop}" and run: "Connector_handleWritable calls err c = Inr (eff, c')"
  shows "cn_inv c'"
proof -
  obtain s where s: "cn_socket c = Some s" using run by (cases "cn_socket c") (simp_all add: Connector_handleWritable_def)
  show ?thesis
  proof (cases "err = 0")
    case True
    show ?thesis
    proof (cases "cn_callback c")
      case cb: True
      obtain b st where "c' = c\<lparr>cn_channel := None, handed := handed c @ [s], cn_connect := b, cn_state := st, cn_socket := None\<rparr>"
        "st \<noteq> C_Connecting" using established_result [OF s calls cb] run True by auto
      moreover have "s \<noteq> -1" using inv s by (auto simp: cn_inv_def consistent_def split: option.splits)
      ultimately show ?thesis using inv s
        by (simp add: cn_inv_def consistent_def balanced_def delay_ok_def live_sockets_def)
    next
      case False
      with True run s inv resetChannel_ok [of "c\<lparr>cn_state := C_Connected\<rparr>"]
        reset_socket_closed [of "c\<lparr>cn_state := C_Connected, cn_channel := None\<rparr>"]
      show ?thesis
        by (auto simp: Connector_handleWritable_def cn_then_def cn_inv_def consistent_def balanced_def
            delay_ok_def live_sockets_def split: if_splits)
    qed
  next
    case False
    let ?c = "reset_socket (c\<lparr>cn_channel := None\<rparr>)"
    obtain e where "resetChannel c = Inr (e, c\<lparr>cn_channel := None\<rparr>)" using resetChannel_ok by blast
    then obtain e2 where "retry ?c = Inr (e2, c')"
      using run s False by (auto simp: Connector_handleWritable_def cn_then_def bind_res_eq_Inr)
    moreover have "balanced ?c" "delay_ok ?c" "cn_channel ?c = None"
      using inv reset_socket_closed [of "c\<lparr>cn_channel := None\<rparr>"]
      by (simp_all add: cn_inv_def balanced_def delay_ok_def live_sockets_def)
    ultimately show ?thesis using retry_inv by blast
  qed
qed

lemma cn_inv_other_fields [simp]:
  "cn_inv (c\<lparr>cn_connect := b\<rparr>) = cn_inv c" "cn_inv (c\<lparr>timers_pending := n\<rparr>) = cn_inv c"
  unfolding cn_inv_def balanced_def consistent_def delay_ok_def live_sockets_def
  by (simp_all cong: option.case_cong)

lemma startInLoop_no_channel:
  assumes "cn_inv c" and "startInLoop s err c = Inr r"
  shows "cn_channel c = None"
proof -
  have "cn_state c = C_Disconnected" using assms(2) by (simp add: startInLoop_def split: if_splits)
  then show ?thesis using assms(1) unfolding cn_inv_def consistent_def by auto
qed

lemma cn_step_inv:
  assumes inv: "cn_inv c" and en: "cn_enabled op c" "cn_calm op c" and run: "cn_step op c = Inr (eff, c')"
  shows "cn_inv c'"
proof (cases op)
  case (Start s err)
  let ?c = "c\<lparr>cn_connect := True\<rparr>"
  have "cn_inv ?c" using inv by simp
  moreover have "startInLoop s err ?c = Inr (eff, c')" using run Start by (simp add: Connector_start_def)
  ultimately show ?thesis using startInLoop_inv startInLoop_no_channel by blast
next
  case (Restart s err)
  let ?c = "c\<lparr>cn_state := C_Disconnected, cn_connect := True, retry_delay := DEFAULT_RETRY_DELAY\<rparr>"
  have ch: "cn_channel c = None" using en Restart by simp
  then have "cn_inv ?c" using inv
    by (auto simp: cn_inv_def balanced_def consistent_def delay_ok_def delay_defs live_sockets_def)
  moreover have "startInLoop s err ?c = Inr (eff, c')" using run Restart by (simp add: Connector_restart_def)
  ultimately show ?thesis using startInLoop_inv startInLoop_no_channel by blast
next
  case (RetryTimer s err)
  let ?c = "c\<lparr>timers_pending := timers_pending c - 1\<rparr>"
  have "cn_inv ?c" using inv by simp
  moreover have "startInLoop s err ?c = Inr (eff, c')" using run RetryTimer by (simp add: retry_timer_fires_def)
  ultimately show ?thesis using startInLoop_inv startInLoop_no_channel by blast
next
  case Stop
  show ?thesis by (rule stop_inv [OF inv]) (use run Stop in simp)
next
  case (SocketWritable calls err)
  show ?thesis by (rule handleWritable_inv [OF inv, of calls err]) (use run en SocketWritable in simp_all)
qed

lemma cn_inv_new: "cn_inv (setNewConnectionCallback (Connector_new loop))"
  by (simp add: cn_inv_def balanced_def consistent_def delay_ok_def delay_defs live_sockets_def
      setNewConnectionCallback_def Connector_new_def)

lemma cn_reach_inv: "cn_reach True c \<Longrightarrow> cn_inv c"
proof (induction rule: cn_reach.induct)
  case (init loop)
  show ?case by (rule cn_inv_new)
next
  case (step c op eff c')
  then show ?case using cn_step_inv by blast
qed

text \<open>
  What holds in every course. \<open>sound\<close> also holds inside the new-connection callback, where the socket
  is the moved-from one.
\<close>

definition sound :: "connector \<Rightarrow> bool" where
  "sound c \<longleftrightarrow> balanced c \<and> delay_ok c \<and> (\<forall>s. cn_socket c = Some s \<longrightarrow> s = -1 \<or> cn_state c = C_Connecting)"

definition settled :: "connector \<Rightarrow> bool" where
  "settled c \<longleftrightarrow> sound c \<and> cn_socket c \<noteq> Some (-1)"

lemma retry_settled:
  assumes "balanced c" and "delay_ok c" and "retry c = Inr (eff, c')"
  shows "settled c'"
  using assms reset_socket_closed [of "c\<lparr>cn_state := C_Disconnected\<rparr>"]
  by (auto simp: retry_def settled_def sound_def balanced_def delay_ok_def delay_defs live_sockets_def
      Let_def split: if_splits)

lemma startInLoop_settled:
  assumes "balanced c" and "delay_ok c" and run: "startInLoop s err c = Inr (eff, c')"
  shows "settled c'"
proof -
  have s: "s \<noteq> -1" using run by (auto simp: startInLoop_def cn_connect_socket_def split: if_splits)
  let ?c = "(reset_socket (c\<lparr>cn_state := C_Connecting\<rparr>))\<lparr>cn_socket := Some s, opened := opened c @ [s]\<rparr>"
  have bal: "balanced ?c" and del: "delay_ok ?c"
    using assms(1,2) s reset_socket_closed [of "c\<lparr>cn_state := C_Connecting\<rparr>"]
    by (simp_all add: balanced_def delay_ok_def live_sockets_def)
  have run': "(if in_progress err then connecting ?c else if transient err then retry ?c
      else Inr ([], (reset_socket ?c)\<lparr>cn_state := C_Disconnected\<rparr>)) = Inr (eff, c')"
    using run s by (simp add: startInLoop_def cn_connect_socket_def Let_def split: if_splits)
  consider "in_progress err" | "\<not> in_progress err" "transient err" | "\<not> in_progress err" "\<not> transient err"
    by blast
  then show ?thesis
  proof cases
    case 1
    with run' bal del s show ?thesis
      by (auto simp: connecting_def Let_def settled_def sound_def balanced_def delay_ok_def live_sockets_def)
  next
    case 2
    with run' retry_settled [OF bal del] show ?thesis by simp
  next
    case 3
    with run' bal del reset_socket_closed [of ?c] show ?thesis
      by (auto simp: settled_def sound_def balanced_def delay_ok_def live_sockets_def)
  qed
qed

lemma stop_sound:
  assumes "sound c" and "Connector_stop c = Inr (eff, c')"
  shows "sound c' \<and> (cn_socket c' = None \<or> cn_socket c' = cn_socket c)"
  using assms resetChannel_ok [of "c\<lparr>cn_connect := False\<rparr>"]
    reset_socket_closed [of "c\<lparr>cn_connect := False, cn_channel := None\<rparr>"]
  by (auto simp: Connector_stop_def stopInLoop_def cn_then_def sound_def balanced_def
      delay_ok_def live_sockets_def split: if_splits)

lemma call_sound:
  assumes "sound c" and "cn_do_call x c = Inr (eff, c')"
  shows "sound c' \<and> (settled c \<longrightarrow> settled c')"
proof (cases x)
  case (CallStart s err)
  have "startInLoop s err (c\<lparr>cn_connect := True\<rparr>) = Inr (eff, c')" using assms(2) CallStart by (simp add: Connector_start_def)
  moreover have "balanced (c\<lparr>cn_connect := True\<rparr>)" "delay_ok (c\<lparr>cn_connect := True\<rparr>)"
    using assms(1) by (simp_all add: sound_def balanced_def delay_ok_def live_sockets_def)
  ultimately show ?thesis using startInLoop_settled settled_def by blast
next
  case (CallRestart s err)
  let ?c = "c\<lparr>cn_state := C_Disconnected, cn_connect := True, retry_delay := DEFAULT_RETRY_DELAY\<rparr>"
  have "startInLoop s err ?c = Inr (eff, c')" using assms(2) CallRestart by (simp add: Connector_restart_def)
  moreover have "balanced ?c" "delay_ok ?c"
    using assms(1) by (simp_all add: sound_def balanced_def delay_ok_def delay_defs live_sockets_def)
  ultimately show ?thesis using startInLoop_settled settled_def by blast
next
  case CallStop
  with stop_sound [OF assms(1)] assms(2) show ?thesis by (auto simp: settled_def)
qed

lemma calls_sound: "sound c \<Longrightarrow> cn_calls calls c = Inr (eff, c') \<Longrightarrow> sound c'"
proof (induction calls arbitrary: c eff)
  case (Cons x xs)
  then obtain e1 c1 e2 where "cn_do_call x c = Inr (e1, c1)" "cn_calls xs c1 = Inr (e2, c')"
    by (auto simp: cn_then_def bind_res_eq_Inr)
  with Cons.IH call_sound [OF Cons.prems(1)] show ?case by blast
qed simp

lemma reset_settled: "sound c \<Longrightarrow> settled (reset_socket c)"
  using reset_socket_closed [of c] by (auto simp: settled_def sound_def balanced_def delay_ok_def live_sockets_def)

lemma handleWritable_settled:
  assumes "settled c" and run: "Connector_handleWritable calls err c = Inr (eff, c')"
  shows "settled c'"
proof -
  obtain s where s: "cn_socket c = Some s" using run by (cases "cn_socket c") (simp_all add: Connector_handleWritable_def)
  have sn: "s \<noteq> -1" using assms(1) s by (simp add: settled_def)
  have bal: "balanced c" "delay_ok c" using assms(1) by (simp_all add: settled_def sound_def)
  show ?thesis
  proof (cases "err = 0")
    case True
    let ?c = "c\<lparr>cn_state := C_Connected, cn_channel := None\<rparr>"
    obtain e where e: "resetChannel (c\<lparr>cn_state := C_Connected\<rparr>) = Inr (e, ?c)"
      using resetChannel_ok [of "c\<lparr>cn_state := C_Connected\<rparr>"] by auto
    show ?thesis
    proof (cases "cn_callback c")
      case cb: True
      let ?d = "?c\<lparr>cn_socket := Some (-1), handed := handed c @ [s]\<rparr>"
      obtain e2 c2 where c2: "cn_calls calls ?d = Inr (e2, c2)" "c' = reset_socket c2"
        using run s True e cb by (auto simp: Connector_handleWritable_def cn_then_def bind_res_eq_Inr)
      have "sound ?d" using bal s sn by (simp add: sound_def balanced_def delay_ok_def live_sockets_def)
      with calls_sound [OF this c2(1)] reset_settled c2(2) show ?thesis by blast
    next
      case False
      then have "c' = reset_socket ?c" using run s True e by (auto simp: Connector_handleWritable_def cn_then_def)
      then show ?thesis using bal reset_socket_closed [of ?c]
        by (simp add: settled_def sound_def balanced_def delay_ok_def live_sockets_def)
    qed
  next
    case False
    let ?c = "reset_socket (c\<lparr>cn_channel := None\<rparr>)"
    obtain e where "resetChannel c = Inr (e, c\<lparr>cn_channel := None\<rparr>)" using resetChannel_ok by blast
    then obtain e2 where "retry ?c = Inr (e2, c')"
      using run s False by (auto simp: Connector_handleWritable_def cn_then_def bind_res_eq_Inr)
    moreover have "balanced ?c" "delay_ok ?c"
      using bal reset_socket_closed [of "c\<lparr>cn_channel := None\<rparr>"]
      by (simp_all add: balanced_def delay_ok_def live_sockets_def)
    ultimately show ?thesis using retry_settled by blast
  qed
qed

lemma cn_step_settled:
  assumes "settled c" and "cn_step op c = Inr (eff, c')"
  shows "settled c'"
proof (cases op)
  case (RetryTimer s err)
  have "startInLoop s err (c\<lparr>timers_pending := timers_pending c - 1\<rparr>) = Inr (eff, c')"
    using assms(2) RetryTimer by (simp add: retry_timer_fires_def)
  moreover have "balanced (c\<lparr>timers_pending := n\<rparr>)" "delay_ok (c\<lparr>timers_pending := n\<rparr>)" for n
    using assms(1) by (simp_all add: settled_def sound_def balanced_def delay_ok_def live_sockets_def)
  ultimately show ?thesis using startInLoop_settled by blast
next
  case (SocketWritable calls err)
  with assms handleWritable_settled show ?thesis by simp
next
  case (Start s err)
  with assms call_sound [of c "CallStart s err"] show ?thesis by (simp add: settled_def)
next
  case (Restart s err)
  with assms call_sound [of c "CallRestart s err"] show ?thesis by (simp add: settled_def)
next
  case Stop
  with assms call_sound [of c CallStop] show ?thesis by (simp add: settled_def)
qed

lemma cn_reach_settled: "cn_reach calm c \<Longrightarrow> settled c"
proof (induction rule: cn_reach.induct)
  case (init loop)
  show ?case by (simp add: settled_def sound_def balanced_def delay_ok_def delay_defs live_sockets_def
        setNewConnectionCallback_def Connector_new_def)
next
  case (step c op eff c')
  then show ?case using cn_step_settled by blast
qed

section \<open>Properties\<close>

lemma delete_closes:
  assumes "balanced c"
  shows "\<exists>eff c'. Connector_delete c = Inr (eff, c') \<and> cn_channel c' = None \<and>
    mset (opened c') = mset (closed c') + mset (handed c') \<and>
    (CnRemoveChannel \<in> set eff \<longleftrightarrow> cn_channel c \<noteq> None)"
  using assms reset_socket_closed [of "c\<lparr>cn_channel := None\<rparr>"] reset_socket_closed [of c]
  by (cases "cn_channel c")
    (auto simp: Connector_delete_def resetChannel_def cn_then_def balanced_def live_sockets_def)


text \<open>A connector whose first attempt was refused, with its retry timer pending.\<close>

definition refused :: connector where
  "refused = (setNewConnectionCallback (Connector_new 0))
     \<lparr>cn_connect := True, retry_delay := 1000, timers_pending := 1, opened := [5], closed := [5]\<rparr>"

lemmas cn_eval = refused_def setNewConnectionCallback_def Connector_new_def Connector_start_def
  Connector_stop_def stopInLoop_def startInLoop_def cn_connect_socket_def retry_def connecting_def
  retry_timer_fires_def reset_socket_def resetChannel_def in_progress_def transient_def delay_defs Let_def

lemma refused_start: "cn_step (Start 5 111) (setNewConnectionCallback (Connector_new 0)) = Inr ([RunAfter 1000], refused)"
  by (simp add: cn_eval)

lemma refused_reachable: "cn_reach True refused"
  by (rule cn_reach.step [OF cn_reach.init _ _ refused_start]) simp_all


text \<open>The attempts of a connector whose peer keeps refusing, one per retry timer.\<close>

fun refuse_all :: "fd list \<Rightarrow> connector \<Rightarrow> cn_result" where
  "refuse_all [] c = Inr ([], c)"
| "refuse_all (s # ss) c = cn_then (retry_timer_fires s 111 c) (refuse_all ss)"

definition backoff :: "nat \<Rightarrow> int" where
  "backoff k = min (DEFAULT_RETRY_DELAY * 2 ^ k) MAX_RETRY_DELAY"

lemma backoff_Suc: "min (2 * backoff k) MAX_RETRY_DELAY = backoff (Suc k)"
  by (auto simp: backoff_def delay_defs min_def)

lemma refuse_all_delays:
  "cn_state c = C_Disconnected \<Longrightarrow> cn_connect c \<Longrightarrow> retry_delay c = backoff k \<Longrightarrow> -1 \<notin> set ss \<Longrightarrow>
   \<exists>c'. refuse_all ss c = Inr (map (\<lambda>i. RunAfter (backoff i)) [Suc k..<Suc k + length ss], c') \<and>
     retry_delay c' = backoff (k + length ss) \<and> cn_state c' = C_Disconnected"
proof (induction ss arbitrary: c k)
  case (Cons s ss)
  obtain c1 where c1: "retry_timer_fires s 111 c = Inr ([RunAfter (backoff (Suc k))], c1)"
    "cn_state c1 = C_Disconnected" "cn_connect c1" "retry_delay c1 = backoff (Suc k)"
    using Cons.prems
    by (simp add: retry_timer_fires_def startInLoop_def cn_connect_socket_def in_progress_def transient_def
        retry_def Let_def backoff_Suc)
  from Cons.IH [OF c1(2-4)] Cons.prems(4) obtain c' where
    "refuse_all ss c1 = Inr (map (\<lambda>i. RunAfter (backoff i)) [Suc (Suc k)..<Suc (Suc k) + length ss], c')"
    "retry_delay c' = backoff (Suc k + length ss)" "cn_state c' = C_Disconnected" by auto
  moreover have "[Suc k..<Suc k + length (s # ss)] = Suc k # [Suc (Suc k)..<Suc (Suc k) + length ss]"
    by (simp add: upt_conv_Cons del: upt_Suc)
  ultimately show ?case using c1 by (simp add: cn_then_def del: upt_Suc)
qed simp

text \<open>
  The retry schedule against a peer that keeps refusing: the delays that are waited
  between attempts double each time up to thirty seconds, starting with twice the default
  delay, and after any number of refusals the connector is disconnected with one more retry
  scheduled.
\<close>
theorem backoff_schedule:
  assumes "cn_state c = C_Disconnected" and "cn_connect c" and "retry_delay c = DEFAULT_RETRY_DELAY"
    and "-1 \<notin> set ss"
  shows "\<exists>c'. refuse_all ss c = Inr (map (\<lambda>i. RunAfter (min (500 * 2 ^ i) 30000)) [1..<Suc (length ss)], c') \<and>
    retry_delay c' = min (500 * 2 ^ length ss) 30000 \<and> cn_state c' = C_Disconnected"
  using refuse_all_delays [of c 0 ss] assms by (simp add: backoff_def delay_defs)

theorem backoff_schedule_witness:
  "\<exists>c'. refuse_all [5, 6, 7] ((Connector_new 0)\<lparr>cn_connect := True\<rparr>) =
     Inr ([RunAfter 1000, RunAfter 2000, RunAfter 4000], c')"
  using backoff_schedule [of "(Connector_new 0)\<lparr>cn_connect := True\<rparr>" "[5, 6, 7]"]
  by (auto simp: Connector_new_def upt_rec)

text \<open>
  \<open>stop()\<close> does not stop a connector that waits for its retry: the timer cannot be
  cancelled and does not look at \<open>connect_\<close>, so after the stop it starts the next attempt all the
  same.
\<close>
theorem stop_does_not_stop_retry:
  assumes "cn_inv c" and "cn_state c = C_Disconnected" and "0 < timers_pending c" and "s \<noteq> -1"
  shows "\<exists>c1 eff c2. Connector_stop c = Inr ([], c1) \<and> \<not> cn_connect c1 \<and> 0 < timers_pending c1 \<and>
    retry_timer_fires s 115 c1 = Inr (eff, c2) \<and> cn_state c2 = C_Connecting \<and> cn_socket c2 = Some s"
proof -
  have "cn_socket c = None" using assms(1,2) by (simp add: cn_inv_def consistent_def)
  then show ?thesis using assms(2-4)
    by (simp add: Connector_stop_def stopInLoop_def retry_timer_fires_def startInLoop_def
        cn_connect_socket_def in_progress_def connecting_def Let_def)
qed

theorem stop_does_not_stop_retry_witness:
  "\<exists>c1 eff c2. Connector_stop refused = Inr ([], c1) \<and> \<not> cn_connect c1 \<and>
    retry_timer_fires 6 115 c1 = Inr (eff, c2) \<and> cn_state c2 = C_Connecting"
  using stop_does_not_stop_retry [OF cn_reach_inv [OF refused_reachable], of 6]
  by (auto simp: refused_def setNewConnectionCallback_def Connector_new_def)

text \<open>
  Calling \<open>start()\<close> while a retry is pending brings the process down: the new attempt
  puts the connector into \<open>Connecting\<close>, and the old timer, which nothing cancels, finds it in that
  state and aborts.
\<close>
theorem start_with_pending_retry_aborts:
  assumes "cn_inv c" and "cn_state c = C_Disconnected" and "0 < timers_pending c" and "s \<noteq> -1"
  shows "\<exists>eff c1. Connector_start s 115 c = Inr (eff, c1) \<and> 0 < timers_pending c1 \<and>
    retry_timer_fires s' err c1 = Inl Abort"
proof -
  have "cn_socket c = None" using assms(1,2) by (simp add: cn_inv_def consistent_def)
  then show ?thesis using assms(2-4)
    by (simp add: Connector_start_def retry_timer_fires_def startInLoop_def
        cn_connect_socket_def in_progress_def connecting_def Let_def)
qed

theorem start_with_pending_retry_aborts_witness:
  "\<exists>eff c1. Connector_start 6 115 refused = Inr (eff, c1) \<and> retry_timer_fires 7 0 c1 = Inl Abort"
  using start_with_pending_retry_aborts [OF cn_reach_inv [OF refused_reachable], of 6 7 0]
  by (auto simp: refused_def setNewConnectionCallback_def Connector_new_def)

text \<open>
  \<open>restart()\<close> on a connector that is connecting does not look at its channel. When the new attempt gets
  under way, the old channel is replaced, and thereby destroyed, without having been removed from the
  loop. When it is refused at once, the connector is disconnected with the old channel still in
  place and no socket, and a writable event of that channel dereferences a null pointer.
\<close>
theorem restart_while_connecting:
  assumes "cn_inv c" and "cn_channel c = Some ch" and "s \<noteq> -1"
  shows "\<exists>c1 ch1 eff c2. Connector_restart s 115 c = Inr ([CnUpdateChannel (events ch1)], c1) \<and>
      cn_channel c1 = Some ch1 \<and> fd_of ch1 = s \<and> fd_of ch \<in> set (closed c1) \<and>
      Connector_restart s 111 c = Inr (eff, c2) \<and> CnRemoveChannel \<notin> set eff \<and> cn_state c2 = C_Disconnected \<and>
      cn_channel c2 = Some ch \<and> cn_socket c2 = None \<and> Connector_handleWritable calls err c2 = Inl NullDereference"
proof -
  have s: "cn_socket c = Some (fd_of ch)" "fd_of ch \<noteq> -1"
    using assms(1,2) by (auto simp: cn_inv_def consistent_def)
  then show ?thesis using assms(2,3)
    by (simp add: Connector_restart_def startInLoop_def cn_connect_socket_def in_progress_def transient_def connecting_def
        retry_def reset_socket_def Connector_handleWritable_def Let_def)
qed

lemma connecting_reachable: "\<exists>c ch. cn_reach True c \<and> cn_channel c = Some ch \<and> cn_callback c"
proof -
  let ?c = "setNewConnectionCallback (Connector_new 0)"
  obtain eff c ch where c: "cn_step (Start 5 115) ?c = Inr (eff, c)" "cn_channel c = Some ch" "cn_callback c" by (simp add: cn_eval)
  from cn_reach.step [OF cn_reach.init _ _ c(1)] c(2,3) show ?thesis by auto
qed

theorem restart_while_connecting_witness:
  "\<exists>c ch eff c2. cn_reach True c \<and> cn_channel c = Some ch \<and> Connector_restart 6 111 c = Inr (eff, c2) \<and>
     Connector_handleWritable [] 0 c2 = Inl NullDereference"
proof -
  obtain c ch where c: "cn_reach True c" "cn_channel c = Some ch" using connecting_reachable by blast
  from restart_while_connecting [OF cn_reach_inv [OF c(1)] c(2), of 6 "[]" 0] c show ?thesis by auto
qed

text \<open>
  A new-connection callback that stops the connector and starts it again loses the socket of the new
  attempt: \<open>handleWritable\<close> goes on to its \<open>socket_.reset()\<close>, which closes that socket, and the connector
  is left connecting with a channel for a closed descriptor and without a socket.
\<close>
theorem start_inside_callback_loses_socket:
  assumes "cn_inv c" and "cn_channel c = Some ch" and "cn_callback c" and "s \<noteq> -1"
  shows "\<exists>eff c'. Connector_handleWritable [CallStop, CallStart s 115] 0 c = Inr (eff, c') \<and>
    NewConnection (fd_of ch) \<in> set eff \<and> cn_state c' = C_Connecting \<and> cn_channel c' \<noteq> None \<and> cn_socket c' = None \<and>
    s \<in> set (closed c') \<and> Connector_handleWritable calls err c' = Inl NullDereference"
proof -
  have "cn_socket c = Some (fd_of ch)" using assms(1,2) by (auto simp: cn_inv_def consistent_def)
  then show ?thesis using assms(2-4)
    by (simp add: Connector_handleWritable_def resetChannel_def cn_then_def Connector_stop_def stopInLoop_def
        Connector_start_def startInLoop_def cn_connect_socket_def in_progress_def connecting_def reset_socket_def Let_def)
qed

theorem start_inside_callback_loses_socket_witness:
  "\<exists>c eff c'. cn_reach True c \<and> Connector_handleWritable [CallStop, CallStart 6 115] 0 c = Inr (eff, c') \<and>
     cn_state c' = C_Connecting \<and> cn_socket c' = None"
proof -
  obtain c ch where c: "cn_reach True c" "cn_channel c = Some ch" "cn_callback c" using connecting_reachable by blast
  from start_inside_callback_loses_socket [OF cn_reach_inv [OF c(1)] c(2,3), of 6 "[]" 0] c(1) show ?thesis by auto
qed

end
