(* ===== verification/Socket.thy ===== *)
theory Socket
  imports Prelude "HOL-Library.Multiset"
begin

text \<open>
  \<open>net/Socket.cpp\<close> and \<open>net/InetAddress.cpp\<close>. A \<open>Socket\<close> object owns a descriptor or none
  (\<open>INVALID_FD\<close>); it is moved and never copied, and closes what it owns. Objects live in a store
  from variables to descriptors, and \<open>fds_closed\<close> records the calls of \<open>close\<close>. The answers of the
  kernel are inputs.
\<close>

section \<open>Sockets\<close>

definition INVALID_FD :: fd where
  "INVALID_FD = -1"

type_synonym var = nat

record socket_store =
  socket_fd :: "var \<rightharpoonup> fd"
  fds_opened :: "fd list"
  fds_closed :: "fd list"

definition valid :: "fd \<Rightarrow> bool" where
  "valid s \<longleftrightarrow> s \<noteq> INVALID_FD"

definition close_fd :: "fd \<Rightarrow> socket_store \<Rightarrow> socket_store" where
  "close_fd s st = (if s \<noteq> INVALID_FD then st\<lparr>fds_closed := fds_closed st @ [s]\<rparr> else st)"

text \<open>\<open>Socket()\<close> aborts when the kernel gives no descriptor; \<open>Socket(int)\<close> takes over any value.\<close>

definition Socket_new :: "fd \<Rightarrow> var \<Rightarrow> socket_store \<Rightarrow> socket_store res" where
  "Socket_new s v st =
     (if s = -1 then Inl Abort
      else Inr (st\<lparr>socket_fd := (socket_fd st)(v \<mapsto> s), fds_opened := fds_opened st @ [s]\<rparr>))"

definition Socket_of :: "fd \<Rightarrow> var \<Rightarrow> socket_store \<Rightarrow> socket_store" where
  "Socket_of s v st = st\<lparr>socket_fd := (socket_fd st)(v \<mapsto> s)\<rparr>"

definition invalidate :: "var \<Rightarrow> socket_store \<Rightarrow> socket_store" where
  "invalidate v st = st\<lparr>socket_fd := (socket_fd st)(v \<mapsto> INVALID_FD)\<rparr>"

definition Socket_move :: "var \<Rightarrow> var \<Rightarrow> socket_store \<Rightarrow> socket_store res" where
  "Socket_move v other st =
     (case socket_fd st other of
        None \<Rightarrow> Inl NullDereference
      | Some s \<Rightarrow> Inr (invalidate other (st\<lparr>socket_fd := (socket_fd st)(v \<mapsto> s)\<rparr>)))"

definition Socket_assign :: "var \<Rightarrow> var \<Rightarrow> socket_store \<Rightarrow> socket_store res" where
  "Socket_assign v other st =
     (case (socket_fd st v, socket_fd st other) of
        (Some s, Some t) \<Rightarrow>
          if v = other then Inr st
          else Inr (invalidate other ((close_fd s st)\<lparr>socket_fd := (socket_fd st)(v \<mapsto> t)\<rparr>))
      | _ \<Rightarrow> Inl NullDereference)"

definition Socket_delete :: "var \<Rightarrow> socket_store \<Rightarrow> socket_store res" where
  "Socket_delete v st =
     (case socket_fd st v of
        None \<Rightarrow> Inl NullDereference
      | Some s \<Rightarrow> Inr ((close_fd s st)\<lparr>socket_fd := (socket_fd st)(v := None)\<rparr>))"

text \<open>\<open>accept\<close> wraps the new descriptor in a socket, or an invalid one when the call failed.\<close>

definition Socket_accept :: "int \<Rightarrow> var \<Rightarrow> socket_store \<Rightarrow> socket_store" where
  "Socket_accept conn_fd v st =
     (if conn_fd \<ge> 0 then (Socket_of conn_fd v st)\<lparr>fds_opened := fds_opened st @ [conn_fd]\<rparr>
      else Socket_of INVALID_FD v st)"

text \<open>\<open>connect\<close> returns 0 or the error number; \<open>getSocketError\<close> the option's value or the error number.\<close>

definition Socket_connect :: "int \<Rightarrow> errno \<Rightarrow> errno" where
  "Socket_connect ret err = (if ret = 0 then 0 else err)"

definition getSocketError :: "int \<Rightarrow> int \<Rightarrow> errno \<Rightarrow> int" where
  "getSocketError ret optval err = (if ret < 0 then err else optval)"

text \<open>\<open>bindAddress\<close> and \<open>listen\<close> abort when the call fails.\<close>

definition bindAddress :: "int \<Rightarrow> unit res" where
  "bindAddress ret = (if ret = -1 then Inl Abort else Inr ())"

definition Socket_listen :: "int \<Rightarrow> unit res" where
  "Socket_listen ret = (if ret = -1 then Inl Abort else Inr ())"

text \<open>
  Options live in the kernel, by descriptor; a failing \<open>setsockopt\<close> is logged or ignored and
  changes nothing.
\<close>

datatype sock_option = TCP_NODELAY | SO_KEEPALIVE | SO_REUSEADDR | SO_REUSEPORT

type_synonym kernel_options = "fd \<Rightarrow> sock_option \<Rightarrow> int"

definition setsockopt :: "bool \<Rightarrow> fd \<Rightarrow> sock_option \<Rightarrow> int \<Rightarrow> kernel_options \<Rightarrow> kernel_options" where
  "setsockopt kernel_ok s opt optval k = (if kernel_ok then k(s := (k s)(opt := optval)) else k)"

definition setTcpNoDelay :: "bool \<Rightarrow> fd \<Rightarrow> bool \<Rightarrow> kernel_options \<Rightarrow> kernel_options" where
  "setTcpNoDelay kernel_ok s on k = setsockopt kernel_ok s TCP_NODELAY (if on then 1 else 0) k"

definition setKeepAlive_to :: "bool \<Rightarrow> fd \<Rightarrow> bool \<Rightarrow> kernel_options \<Rightarrow> kernel_options" where
  "setKeepAlive_to kernel_ok s on k = setsockopt kernel_ok s SO_KEEPALIVE (if on then 1 else 0) k"

definition setReuseAddr :: "bool \<Rightarrow> fd \<Rightarrow> kernel_options \<Rightarrow> kernel_options" where
  "setReuseAddr kernel_ok s k = setsockopt kernel_ok s SO_REUSEADDR 1 k"

definition setReusePort :: "bool \<Rightarrow> fd \<Rightarrow> kernel_options \<Rightarrow> kernel_options" where
  "setReusePort kernel_ok s k = setsockopt kernel_ok s SO_REUSEPORT 1 k"

definition setKeepAlive :: "bool \<Rightarrow> fd \<Rightarrow> kernel_options \<Rightarrow> kernel_options" where
  "setKeepAlive kernel_ok s k = setsockopt kernel_ok s SO_KEEPALIVE 1 k"

section \<open>Ownership\<close>

text \<open>Constructions use a variable that holds no object, as the language has it.\<close>

datatype sock_op = New fd var | Accept int var | Move var var | Assign var var | Delete var

fun sock_step :: "sock_op \<Rightarrow> socket_store \<Rightarrow> socket_store res" where
  "sock_step (New s v) st = (if v \<in> dom (socket_fd st) then Inl NullDereference else Socket_new s v st)"
| "sock_step (Accept s v) st =
     (if v \<in> dom (socket_fd st) then Inl NullDereference else Inr (Socket_accept s v st))"
| "sock_step (Move v u) st =
     (if v \<in> dom (socket_fd st) then Inl NullDereference else Socket_move v u st)"
| "sock_step (Assign v u) st = Socket_assign v u st"
| "sock_step (Delete v) st = Socket_delete v st"

fun sock_run :: "sock_op list \<Rightarrow> socket_store \<Rightarrow> socket_store res" where
  "sock_run [] st = Inr st"
| "sock_run (op # ops) st = bind_res (sock_step op st) (sock_run ops)"

definition no_sockets :: socket_store where
  "no_sockets = \<lparr>socket_fd = Map.empty, fds_opened = [], fds_closed = []\<rparr>"

text \<open>The descriptors the objects own, with multiplicity.\<close>

definition owned_fd :: "socket_store \<Rightarrow> var \<Rightarrow> fd multiset" where
  "owned_fd st v = (case socket_fd st v of None \<Rightarrow> {#} | Some s \<Rightarrow> if s = INVALID_FD then {#} else {#s#})"

definition owned :: "socket_store \<Rightarrow> fd multiset" where
  "owned st = (\<Sum>v \<in> dom (socket_fd st). owned_fd st v)"

definition sock_inv :: "socket_store \<Rightarrow> bool" where
  "sock_inv st \<longleftrightarrow> finite (dom (socket_fd st)) \<and>
     mset (fds_opened st) = mset (fds_closed st) + owned st"

definition fd_mset :: "fd \<Rightarrow> fd multiset" where
  "fd_mset s = (if s = INVALID_FD then {#} else {#s#})"

lemma owned_fd_eq: "owned_fd st v = (case socket_fd st v of None \<Rightarrow> {#} | Some s \<Rightarrow> fd_mset s)"
  by (simp add: owned_fd_def fd_mset_def split: option.split)

text \<open>The owned descriptors as a sum over a map, and how an update of one object changes them.\<close>

definition owned_in :: "(var \<rightharpoonup> fd) \<Rightarrow> fd multiset" where
  "owned_in m = (\<Sum>v \<in> dom m. fd_mset (the (m v)))"

lemma owned_alt: "owned st = owned_in (socket_fd st)"
  unfolding owned_def owned_in_def by (rule sum.cong) (auto simp: owned_fd_eq)

lemma owned_in_delete:
  assumes "finite (dom m)" and "m v = Some s"
  shows "owned_in m = fd_mset s + owned_in (m(v := None))"
proof -
  have "v \<in> dom m" using assms(2) by auto
  from sum.remove [OF assms(1) this, of "\<lambda>v. fd_mset (the (m v))"] have
    "owned_in m = fd_mset s + (\<Sum>u \<in> dom m - {v}. fd_mset (the (m u)))" by (simp add: owned_in_def assms(2))
  moreover have "(\<Sum>u \<in> dom m - {v}. fd_mset (the (m u))) = owned_in (m(v := None))"
    unfolding owned_in_def by (rule sum.cong) auto
  ultimately show ?thesis by simp
qed

lemma owned_in_insert:
  assumes "finite (dom m)" and "m v = None"
  shows "owned_in (m(v \<mapsto> s)) = fd_mset s + owned_in m"
  using owned_in_delete [of "m(v \<mapsto> s)" v s] assms by (simp add: fun_upd_idem)

lemma owned_in_update:
  assumes "finite (dom m)" and "m v = Some s"
  shows "owned_in (m(v \<mapsto> t)) + fd_mset s = fd_mset t + owned_in m"
  using owned_in_delete [OF assms] owned_in_insert [of "m(v := None)" v t] assms(1)
  by (simp add: fun_upd_upd)

lemma close_fd_closed: "mset (fds_closed (close_fd s st)) = mset (fds_closed st) + fd_mset s"
  "socket_fd (close_fd s st) = socket_fd st" "fds_opened (close_fd s st) = fds_opened st"
  by (simp_all add: close_fd_def fd_mset_def)

lemma fd_mset_INVALID [simp]: "fd_mset INVALID_FD = {#}"
  by (simp add: fd_mset_def)

lemma sock_step_inv:
  assumes inv: "sock_inv st" and run: "sock_step op st = Inr st'"
  shows "sock_inv st'"
proof -
  let ?m = "socket_fd st"
  have fin: "finite (dom ?m)" and bal: "mset (fds_opened st) = mset (fds_closed st) + owned_in ?m"
    using inv by (simp_all add: sock_inv_def owned_alt)
  show ?thesis
  proof (cases op)
    case (New s v)
    then have s: "s \<noteq> INVALID_FD" "?m v = None" and
      st': "st' = st\<lparr>socket_fd := ?m(v \<mapsto> s), fds_opened := fds_opened st @ [s]\<rparr>"
      using run by (auto simp: Socket_new_def INVALID_FD_def split: if_splits)
    then show ?thesis using fin bal owned_in_insert [OF fin s(2), of s]
      by (simp add: sock_inv_def owned_alt fd_mset_def)
  next
    case (Accept s v)
    then have v: "?m v = None" and st': "st' = Socket_accept s v st"
      using run by (auto split: if_splits)
    show ?thesis unfolding st' using fin bal owned_in_insert [OF fin v, of s] owned_in_insert [OF fin v, of INVALID_FD]
      by (auto simp: sock_inv_def owned_alt Socket_accept_def Socket_of_def fd_mset_def INVALID_FD_def)
  next
    case (Move v u)
    then obtain s where s: "?m v = None" "?m u = Some s" "v \<noteq> u" and
      st': "st' = st\<lparr>socket_fd := ?m(v \<mapsto> s, u \<mapsto> INVALID_FD)\<rparr>"
      using run by (auto simp: Socket_move_def invalidate_def split: if_splits option.splits)
    have "owned_in (?m(v \<mapsto> s, u \<mapsto> INVALID_FD)) + fd_mset s = owned_in (?m(v \<mapsto> s))"
      using owned_in_update [of "?m(v \<mapsto> s)" u s INVALID_FD] fin s by simp
    then have "owned_in (?m(v \<mapsto> s, u \<mapsto> INVALID_FD)) = owned_in ?m"
      using owned_in_insert [OF fin s(1), of s] by simp
    then show ?thesis unfolding st' using fin bal by (simp add: sock_inv_def owned_alt)
  next
    case (Assign v u)
    show ?thesis
    proof (cases "v = u")
      case True
      then have "st' = st" using run Assign by (auto simp: Socket_assign_def split: option.splits)
      then show ?thesis using inv by simp
    next
      case False
      then obtain s t where s: "?m v = Some s" "?m u = Some t" and
        st': "st' = (close_fd s st)\<lparr>socket_fd := ?m(v \<mapsto> t, u \<mapsto> INVALID_FD)\<rparr>"
        using run Assign by (auto simp: Socket_assign_def invalidate_def split: option.splits)
      have "owned_in (?m(v \<mapsto> t, u \<mapsto> INVALID_FD)) + fd_mset t = owned_in (?m(v \<mapsto> t))"
        using owned_in_update [of "?m(v \<mapsto> t)" u t INVALID_FD] fin s False by simp
      with owned_in_update [OF fin s(1), of t] have
        "fd_mset t + (fd_mset s + owned_in (?m(v \<mapsto> t, u \<mapsto> INVALID_FD))) = fd_mset t + owned_in ?m"
        by (simp add: ac_simps)
      then have "fd_mset s + owned_in (?m(v \<mapsto> t, u \<mapsto> INVALID_FD)) = owned_in ?m" by simp
      then show ?thesis unfolding st' using fin bal
        by (simp add: sock_inv_def owned_alt close_fd_closed add.assoc)
    qed
  next
    case (Delete v)
    then obtain s where s: "?m v = Some s" and
      st': "st' = (close_fd s st)\<lparr>socket_fd := ?m(v := None)\<rparr>"
      using run by (auto simp: Socket_delete_def split: option.splits)
    then show ?thesis using fin bal owned_in_delete [OF fin s]
      by (simp add: sock_inv_def owned_alt close_fd_closed add.assoc)
  qed
qed

lemma sock_run_inv: "sock_inv st \<Longrightarrow> sock_run ops st = Inr st' \<Longrightarrow> sock_inv st'"
  by (induction ops arbitrary: st) (auto simp: bind_res_eq_Inr intro: sock_step_inv)

text \<open>
  Property C22. Descriptors are neither leaked nor closed twice by any course of constructions,
  accepts, moves, move assignments and destructions of sockets: the descriptors opened are, with
  multiplicity, those closed and those still owned by an object, and when every object is gone
  each descriptor has been closed exactly as often as it was opened.
\<close>
theorem socket_ownership:
  assumes "sock_run ops no_sockets = Inr st"
  shows "mset (fds_opened st) = mset (fds_closed st) + owned st \<and>
    (dom (socket_fd st) = {} \<longrightarrow> mset (fds_opened st) = mset (fds_closed st))"
proof -
  have "sock_inv no_sockets" by (simp add: sock_inv_def no_sockets_def owned_def)
  from sock_run_inv [OF this assms] show ?thesis by (simp add: sock_inv_def owned_def)
qed

theorem socket_ownership_witness:
  "\<exists>st. sock_run [New 5 0, Accept 7 1, Move 2 0, Assign 2 1, Delete 0, Delete 1, Delete 2] no_sockets = Inr st \<and>
     fds_closed st = [5, 7] \<and> mset (fds_opened st) = mset (fds_closed st)"
proof -
  let ?ops = "[New 5 0, Accept 7 1, Move 2 0, Assign 2 1, Delete 0, Delete 1, Delete 2]"
  obtain st where st: "sock_run ?ops no_sockets = Inr st" "fds_closed st = [5, 7]" "dom (socket_fd st) = {}"
    by (simp add: no_sockets_def Socket_new_def Socket_accept_def Socket_of_def Socket_move_def
        Socket_assign_def Socket_delete_def invalidate_def close_fd_def INVALID_FD_def)
  with socket_ownership [OF st(1)] show ?thesis by blast
qed

section \<open>Addresses\<close>

text \<open>
  \<open>sin_port\<close> and \<open>s_addr\<close> hold network byte order. \<open>htons\<close> and \<open>ntohs\<close> swap the bytes (the platform is
  little-endian). \<open>inet_pton\<close> and \<open>inet_ntop\<close> are the C library's and parameters of the model.
\<close>

record sockaddr_in =
  sin_family :: nat
  sin_port :: "16 word"
  s_addr :: "32 word"

definition AF_INET :: nat where
  "AF_INET = 2"

definition htons :: "16 word \<Rightarrow> 16 word" where
  "htons p = or (push_bit 8 p) (drop_bit 8 p)"

definition InetAddress_of ::
  "(string \<Rightarrow> 32 word option) \<Rightarrow> string \<Rightarrow> 16 word \<Rightarrow> sockaddr_in" where
  "InetAddress_of inet_pton ip port =
     \<lparr>sin_family = AF_INET, sin_port = htons port,
      s_addr = (case inet_pton ip of None \<Rightarrow> 0 | Some a \<Rightarrow> a)\<rparr>"

definition InetAddress_any :: "(string \<Rightarrow> 32 word option) \<Rightarrow> 16 word \<Rightarrow> sockaddr_in" where
  "InetAddress_any inet_pton port = InetAddress_of inet_pton ''0.0.0.0'' port"

definition toIp :: "(32 word \<Rightarrow> string) \<Rightarrow> sockaddr_in \<Rightarrow> string" where
  "toIp inet_ntop a = inet_ntop (s_addr a)"

definition toPort :: "sockaddr_in \<Rightarrow> 16 word" where
  "toPort a = htons (sin_port a)"

definition toIpPort :: "(32 word \<Rightarrow> string) \<Rightarrow> sockaddr_in \<Rightarrow> string" where
  "toIpPort inet_ntop a = toIp inet_ntop a @ '':'' @ dec_nat (unat (toPort a))"

definition InetAddress_from :: "sockaddr_in \<Rightarrow> sockaddr_in" where
  "InetAddress_from addr = addr"

definition setSockAddrIn :: "sockaddr_in \<Rightarrow> sockaddr_in \<Rightarrow> sockaddr_in" where
  "setSockAddrIn addr a = addr"

text \<open>
  \<open>getLocalAddress\<close> clears its result before \<open>getsockname\<close> fills it; \<open>getPeerAddress\<close> does not, so when
  \<open>getpeername\<close> fails it returns whatever the stack held (\<open>stack\<close>).
\<close>

definition getLocalAddress :: "int \<Rightarrow> sockaddr_in \<Rightarrow> sockaddr_in" where
  "getLocalAddress ret addr =
     InetAddress_from (if ret = -1 then \<lparr>sin_family = 0, sin_port = 0, s_addr = 0\<rparr> else addr)"

definition getPeerAddress :: "sockaddr_in \<Rightarrow> int \<Rightarrow> sockaddr_in \<Rightarrow> sockaddr_in" where
  "getPeerAddress stack ret addr = InetAddress_from (if ret = -1 then stack else addr)"

lemma htons_htons: "htons (htons p) = p"
  by (rule bit_word_eqI) (auto simp: htons_def bit_simps)

text \<open>
  An address gives back what it was built from: the port for every 16-bit value,
  through the byte swap in both directions, and the text of the host for every host the C
  library can parse and prints as it was written. An unparsable host is not refused: the
  address then stands for all interfaces.
\<close>
theorem InetAddress_roundtrip:
  assumes "inet_pton ip = Some a" and "inet_ntop a = ip" and "inet_pton bad = None"
  shows "toPort (InetAddress_of inet_pton ip port) = port \<and>
    toIpPort inet_ntop (InetAddress_of inet_pton ip port) = ip @ '':'' @ dec_nat (unat port) \<and>
    s_addr (InetAddress_of inet_pton bad port) = 0"
  using assms by (simp add: toPort_def toIpPort_def toIp_def InetAddress_of_def htons_htons)

theorem InetAddress_roundtrip_witness:
  "toIpPort (\<lambda>_. ''10.0.0.1'') (InetAddress_of (\<lambda>s. if s = ''10.0.0.1'' then Some 16777226 else None) ''10.0.0.1'' 80)
     = ''10.0.0.1:80''"
  using InetAddress_roundtrip [of "\<lambda>s. if s = ''10.0.0.1'' then Some 16777226 else None" "''10.0.0.1''" 16777226
      "\<lambda>_. ''10.0.0.1''" "''x''" 80]
  by (simp add: dec_nat.simps digit_def char_of_def bit_0)

end
