(* ===== verification/LoopThreads.thy ===== *)
theory LoopThreads
  imports EventLoop
begin

text \<open>
  \<open>net/EventLoopThread.cpp\<close> and \<open>net/EventLoopThreadPool.cpp\<close>: a thread that runs a loop, and the
  pool that gives connections to such threads in turn. The owner of a thread and the thread
  itself are interleaved; the loop they share is the one of \<open>EventLoop\<close>.
\<close>

section \<open>A thread with a loop\<close>

text \<open>
  Where the worker is (before its thread exists, constructing the loop, about to publish it,
  about to enter \<open>loop()\<close>, in it, about to withdraw it, finished) and where the owner is (before
  \<open>startLoop\<close>, waiting in it, returned from it, in the destructor after the test of \<open>loop_\<close>, inside
  \<open>quit()\<close> after the flag is set, in the \<open>join\<close> of the destructor, done, ended by \<open>std::terminate\<close>,
  which the destructor of a joinable \<open>std::thread\<close> calls, or ended by a use of a loop that is gone).
\<close>

datatype worker_pc = NoThread | Constructing | Publishing | Entering | InLoop | Withdrawing | Finished
datatype owner_pc = Fresh | Waiting | Started | Quitting | Waking | Joining | Destroyed | Terminated | Faulted

record loop_thread_state =
  worker :: worker_pc
  owner :: owner_pc
  joinable :: bool
  loop_ptr :: bool
  the_loop :: event_loop
  owner_tid :: tid
  worker_tid :: tid
  init_calls :: "loop_call list"

text \<open>The initialisation callback runs in the worker before the loop is published; \<open>init_calls\<close> is what it
  asks of the loop (nothing when there is no callback).\<close>

definition EventLoopThread_new :: "tid \<Rightarrow> tid \<Rightarrow> loop_call list \<Rightarrow> loop_thread_state" where
  "EventLoopThread_new o_tid w_tid cb =
     \<lparr>worker = NoThread, owner = Fresh, joinable = False, loop_ptr = False,
      the_loop = EventLoop_init w_tid, owner_tid = o_tid, worker_tid = w_tid, init_calls = cb\<rparr>"

definition startLoop :: "loop_thread_state \<Rightarrow> loop_thread_state res" where
  "startLoop t =
     (if joinable t then Inl Abort
      else Inr (t\<lparr>joinable := True, worker := Constructing, owner := Waiting\<rparr>))"

text \<open>
  The destructor, in its atomic steps, none of which holds the mutex. It tests \<open>loop_\<close>; when it sees no
  loop it leaves the thread alone, and the member \<open>thread_\<close> is destroyed, joinable or not. When it sees
  one it reads \<open>loop_\<close> again and calls \<open>quit()\<close>, which sets the flag and then, in another thread than the
  loop's, writes the wakeup; then it joins. The worker may end in between: the pointer is then null, or
  the rest of \<open>quit()\<close> runs on a destroyed loop.
\<close>

definition EventLoopThread_delete :: "loop_thread_state \<Rightarrow> loop_thread_state" where
  "EventLoopThread_delete t =
     (if loop_ptr t then t\<lparr>owner := Quitting\<rparr>
      else if joinable t then t\<lparr>owner := Terminated\<rparr>
      else t\<lparr>owner := Destroyed\<rparr>)"

definition delete_quit :: "loop_thread_state \<Rightarrow> loop_thread_state" where
  "delete_quit t =
     (if loop_ptr t then t\<lparr>the_loop := set_quit (owner_tid t) (the_loop t), owner := Waking\<rparr>
      else t\<lparr>owner := Faulted\<rparr>)"

definition delete_wake :: "loop_thread_state \<Rightarrow> loop_thread_state" where
  "delete_wake t =
     (if worker t = Finished then t\<lparr>owner := Faulted\<rparr>
      else t\<lparr>the_loop := (if isInLoopThread (owner_tid t) (the_loop t) then the_loop t
                           else wake_after_quit (owner_tid t) (the_loop t)),
             owner := Joining\<rparr>)"

inductive thread_step :: "loop_thread_state \<Rightarrow> loop_thread_state \<Rightarrow> bool" where
  start: "owner t = Fresh \<Longrightarrow> startLoop t = Inr t' \<Longrightarrow> thread_step t t'"
| construct: "worker t = Constructing \<Longrightarrow>
    thread_step t (t\<lparr>worker := Publishing,
      the_loop := fold (do_loop_call (worker_tid t)) (init_calls t) (EventLoop_init (worker_tid t))\<rparr>)"
| publish: "worker t = Publishing \<Longrightarrow> thread_step t (t\<lparr>worker := Entering, loop_ptr := True\<rparr>)"
| started: "owner t = Waiting \<Longrightarrow> loop_ptr t \<Longrightarrow> thread_step t (t\<lparr>owner := Started\<rparr>)"
| enter: "worker t = Entering \<Longrightarrow> loop_enter (worker_tid t) (the_loop t) = Inr l \<Longrightarrow>
    thread_step t (t\<lparr>worker := InLoop, the_loop := l\<rparr>)"
| run: "worker t = InLoop \<Longrightarrow> pc (the_loop t) \<noteq> Outside \<Longrightarrow> loop_step (the_loop t) l \<Longrightarrow>
    thread_step t (t\<lparr>the_loop := l\<rparr>)"
| left: "worker t = InLoop \<Longrightarrow> pc (the_loop t) = Outside \<Longrightarrow> thread_step t (t\<lparr>worker := Withdrawing\<rparr>)"
| withdraw: "worker t = Withdrawing \<Longrightarrow> thread_step t (t\<lparr>worker := Finished, loop_ptr := False\<rparr>)"
| delete: "owner t = Started \<or> owner t = Fresh \<Longrightarrow> thread_step t (EventLoopThread_delete t)"
| delete_quit: "owner t = Quitting \<Longrightarrow> thread_step t (delete_quit t)"
| delete_wake: "owner t = Waking \<Longrightarrow> thread_step t (delete_wake t)"
| joined: "owner t = Joining \<Longrightarrow> worker t = Finished \<Longrightarrow>
    thread_step t (t\<lparr>owner := Destroyed, joinable := False\<rparr>)"

inductive thread_reach :: "tid \<Rightarrow> tid \<Rightarrow> loop_thread_state \<Rightarrow> bool" for o_tid w_tid where
  init: "thread_reach o_tid w_tid (EventLoopThread_new o_tid w_tid cb)"
| step: "thread_reach o_tid w_tid t \<Longrightarrow> thread_step t t' \<Longrightarrow> thread_reach o_tid w_tid t'"

definition ids_ok :: "tid \<Rightarrow> tid \<Rightarrow> loop_thread_state \<Rightarrow> bool" where
  "ids_ok o_tid w_tid t \<longleftrightarrow>
     owner_tid t = o_tid \<and> worker_tid t = w_tid \<and> thread_id (the_loop t) = w_tid"

definition ptr_ok :: "loop_thread_state \<Rightarrow> bool" where
  "ptr_ok t \<longleftrightarrow> (loop_ptr t \<longleftrightarrow> worker t = Entering \<or> worker t = InLoop \<or> worker t = Withdrawing)"

definition owner_ok :: "loop_thread_state \<Rightarrow> bool" where
  "owner_ok t \<longleftrightarrow>
     (case owner t of
        Fresh \<Rightarrow> worker t = NoThread \<and> \<not> joinable t
      | Waiting \<Rightarrow> joinable t \<and> worker t \<noteq> NoThread
      | Started \<Rightarrow> joinable t \<and> worker t \<notin> {NoThread, Constructing, Publishing}
      | Quitting \<Rightarrow> joinable t \<and> worker t \<notin> {NoThread, Constructing, Publishing}
      | Waking \<Rightarrow> joinable t \<and> worker t \<notin> {NoThread, Constructing, Publishing}
      | Joining \<Rightarrow> joinable t \<and> worker t \<notin> {NoThread, Constructing, Publishing}
      | Destroyed \<Rightarrow> worker t = NoThread \<or> worker t = Finished
      | Terminated \<Rightarrow> True
      | Faulted \<Rightarrow> True)"

lemmas delete_defs = EventLoopThread_delete_def delete_quit_def delete_wake_def

lemma quit_thread_id [simp]: "thread_id (quit tid l) = thread_id l"
  "thread_id (set_quit tid l) = thread_id l" "thread_id (wake_after_quit tid l) = thread_id l"
  by (simp_all add: quit_def set_quit_def wake_after_quit_def Let_def)

lemma init_calls_thread_id: "thread_id (fold (do_loop_call tid) calls l) = thread_id l"
proof (induction calls arbitrary: l)
  case (Cons call calls)
  then show ?case by (cases call) (simp_all add: queueInLoop_def push_task_def wake_after_push_def Let_def)
qed simp

lemma loop_enter_thread_id: "loop_enter tid l = Inr l' \<Longrightarrow> thread_id l' = thread_id l"
  by (auto simp: loop_enter_def bind_res_eq_Inr split: if_splits)

lemma step_ids_ok: "thread_step t t' \<Longrightarrow> ids_ok o_tid w_tid t \<Longrightarrow> ids_ok o_tid w_tid t'"
  by (induction rule: thread_step.induct)
    (auto simp: ids_ok_def startLoop_def delete_defs init_calls_thread_id EventLoop_init_def
      dest: loop_enter_thread_id step_thread_id split: if_splits)

lemma step_ptr_ok: "thread_step t t' \<Longrightarrow> ptr_ok t \<Longrightarrow> owner_ok t \<Longrightarrow> ptr_ok t'"
  by (induction rule: thread_step.induct)
    (auto simp: ptr_ok_def owner_ok_def startLoop_def delete_defs split: if_splits)

lemma step_owner_ok: "thread_step t t' \<Longrightarrow> ptr_ok t \<Longrightarrow> owner_ok t \<Longrightarrow> owner_ok t'"
  by (induction rule: thread_step.induct)
    (auto simp: ptr_ok_def owner_ok_def startLoop_def delete_defs
      split: if_splits owner_pc.splits)

lemma thread_reach_inv:
  "thread_reach o_tid w_tid t \<Longrightarrow> ids_ok o_tid w_tid t \<and> ptr_ok t \<and> owner_ok t"
proof (induction rule: thread_reach.induct)
  case init
  show ?case by (simp add: ids_ok_def ptr_ok_def owner_ok_def EventLoopThread_new_def EventLoop_init_def)
next
  case (step t t')
  then show ?case using step_ids_ok step_ptr_ok step_owner_ok by blast
qed

text \<open>
  Property C23. \<open>startLoop\<close> returns only once the worker has constructed its loop and published it,
  and the loop it returns belongs to the worker's thread; a destructor that has completed leaves
  no worker behind: its thread was never started or has finished.
\<close>
theorem loop_thread_handshake:
  assumes "thread_reach o_tid w_tid t"
  shows "(owner t = Started \<longrightarrow> thread_id (the_loop t) = w_tid \<and>
      worker t \<notin> {NoThread, Constructing, Publishing}) \<and>
    (owner t = Destroyed \<longrightarrow> worker t = NoThread \<or> worker t = Finished)"
  using thread_reach_inv [OF assms] by (auto simp: ids_ok_def owner_ok_def)

definition started_thread :: "tid \<Rightarrow> tid \<Rightarrow> loop_thread_state" where
  "started_thread o_tid w_tid =
     \<lparr>worker = Entering, owner = Started, joinable = True, loop_ptr = True,
      the_loop = EventLoop_init w_tid, owner_tid = o_tid, worker_tid = w_tid, init_calls = []\<rparr>"

lemma started_thread_reachable: "thread_reach o_tid w_tid (started_thread o_tid w_tid)"
proof -
  let ?t = "EventLoopThread_new o_tid w_tid []"
  let ?a = "?t\<lparr>joinable := True, worker := Constructing, owner := Waiting\<rparr>"
  let ?b = "?a\<lparr>worker := Publishing, the_loop := EventLoop_init (worker_tid ?a)\<rparr>"
  let ?c = "?b\<lparr>worker := Entering, loop_ptr := True\<rparr>"
  have "thread_step ?t ?a" by (rule thread_step.start) (simp_all add: startLoop_def EventLoopThread_new_def)
  then have "thread_reach o_tid w_tid ?a" by (rule thread_reach.step [OF thread_reach.init])
  then have "thread_reach o_tid w_tid ?b" by (rule thread_reach.step) (use thread_step.construct [of ?a] in \<open>simp add: EventLoopThread_new_def\<close>)
  then have "thread_reach o_tid w_tid ?c" by (rule thread_reach.step) (rule thread_step.publish, simp)
  then have "thread_reach o_tid w_tid (?c\<lparr>owner := Started\<rparr>)"
    by (rule thread_reach.step) (rule thread_step.started, simp_all)
  then show ?thesis by (simp add: started_thread_def EventLoopThread_new_def)
qed

theorem loop_thread_handshake_witness:
  "thread_reach 1 2 (started_thread 1 2) \<and> thread_id (the_loop (started_thread 1 2)) = 2"
  using loop_thread_handshake [OF started_thread_reachable [of 1 2]] started_thread_reachable
  by (simp add: started_thread_def)

subsection \<open>The way to the end\<close>

text \<open>
  The position of the two threads, and how far it is from the end of the destructor: within the
  destructor's \<open>join\<close>, a position with a request to quit only ever moves to nearer ones. The second
  component counts the callbacks or tasks of the batch at hand.
\<close>

type_synonym position = "worker_pc \<times> owner_pc \<times> loop_pc \<times> task list"

definition position :: "loop_thread_state \<Rightarrow> position" where
  "position t = (worker t, owner t, pc (the_loop t), tasks (the_loop t))"

fun pc_distance :: "loop_pc \<Rightarrow> task list \<Rightarrow> nat \<times> nat" where
  "pc_distance Outside ts = (3, 0)"
| "pc_distance Testing ts = (4, 0)"
| "pc_distance Running ts = (5, length ts)"
| "pc_distance Swapping ts = (6, 0)"
| "pc_distance (Handling ready) ts = (7, length ready)"
| "pc_distance Polling ts = (8, 0)"

fun distance :: "position \<Rightarrow> nat \<times> nat" where
  "distance (Finished, Destroyed, p, ts) = (0, 0)"
| "distance (Finished, ow, p, ts) = (1, 0)"
| "distance (Withdrawing, ow, p, ts) = (2, 0)"
| "distance (wk, ow, p, ts) = pc_distance p ts"

definition nearer :: "((nat \<times> nat) \<times> (nat \<times> nat)) set" where
  "nearer = less_than <*lex*> less_than"

definition leaving :: "loop_thread_state \<Rightarrow> bool" where
  "leaving t \<longleftrightarrow> owner t = Joining \<and> worker t = InLoop \<and> quit_flag (the_loop t) \<or>
     owner t = Joining \<and> worker t \<in> {Withdrawing, Finished} \<or>
     owner t = Destroyed \<and> worker t = Finished \<and> \<not> joinable t"

lemma wf_nearer: "wf nearer"
  by (simp add: nearer_def wf_lex_prod)

lemma quit_step:
  assumes "loop_step s s'" and "quit_flag s" and "pc s \<noteq> Outside"
  shows "quit_flag s' \<and>
    ((pc s', tasks s') = (pc s, tasks s) \<or> (pc_distance (pc s') (tasks s'), pc_distance (pc s) (tasks s)) \<in> nearer)"
  using assms
  by (induction rule: loop_step.induct) (auto simp: loop_defs nearer_def split: if_splits)

lemma leaving_step:
  assumes "thread_step t t'" and "leaving t"
  shows "leaving t' \<and> (position t' = position t \<or> (distance (position t'), distance (position t)) \<in> nearer)"
  using assms
proof (induction rule: thread_step.induct)
  case (run t l)
  from quit_step [OF run(3) _ run(2)] run show ?case by (auto simp: leaving_def position_def)
qed (auto simp: leaving_def position_def nearer_def)

lemma leaving_moves:
  assumes "leaving t" and "owner t \<noteq> Destroyed"
  shows "\<exists>u v. thread_step\<^sup>*\<^sup>* t u \<and> thread_step u v \<and> position v \<noteq> position u"
proof -
  consider "worker t = InLoop" "pc (the_loop t) \<noteq> Outside" | "worker t = InLoop" "pc (the_loop t) = Outside"
    | "worker t = Withdrawing" | "worker t = Finished" "owner t = Joining"
    using assms by (auto simp: leaving_def)
  then show ?thesis
  proof cases
    case 1
    let ?l = "the_loop t"
    let ?k = "if loop_free ?l then ?l else wake_after_push (thread_id ?l) ?l"
    let ?u = "t\<lparr>the_loop := ?k\<rparr>"
    have k: "loop_free ?k" "pc ?k = pc ?l" by (simp_all add: loop_free_def wake_after_push_def Let_def)
    have "thread_step\<^sup>*\<^sup>* t ?u"
    proof (cases "loop_free ?l")
      case False
      then have "loop_step ?l ?k" using loop_step.wake [of "thread_id ?l" ?l] by (simp add: loop_free_def)
      with 1 show ?thesis by (blast intro: thread_step.run)
    qed simp
    moreover have "thread_step ?u (?u\<lparr>the_loop := own_step ?k\<rparr>)"
      by (rule thread_step.run) (use 1 k own_step_is_step [of ?k] in simp_all)
    moreover have "position (?u\<lparr>the_loop := own_step ?k\<rparr>) \<noteq> position ?u"
      using own_step_moves [of ?k] k(2) 1(2) by (simp add: position_def)
    ultimately show ?thesis by blast
  next
    case 2
    then have "thread_step t (t\<lparr>worker := Withdrawing\<rparr>)" by (rule thread_step.left)
    then show ?thesis using 2 by (intro exI conjI) (auto simp: position_def)
  next
    case 3
    then have "thread_step t (t\<lparr>worker := Finished, loop_ptr := False\<rparr>)" by (rule thread_step.withdraw)
    then show ?thesis using 3 by (intro exI conjI) (auto simp: position_def)
  next
    case 4
    then have "thread_step t (t\<lparr>owner := Destroyed, joinable := False\<rparr>)" by (intro thread_step.joined)
    then show ?thesis using 4 by (intro exI conjI) (auto simp: position_def)
  qed
qed

lemma leaving_run:
  assumes "leaving (f 0)" and "\<And>i. thread_step (f i) (f (Suc i)) \<or> f (Suc i) = f i"
  shows "leaving (f i)"
  by (induction i) (use assms leaving_step in metis)+

text \<open>Every run that does not stand still comes to its end.\<close>

lemma leaving_ends:
  assumes lv: "leaving (f 0)" and run: "\<And>i. thread_step (f i) (f (Suc i)) \<or> f (Suc i) = f i"
    and moves: "\<And>i. owner (f i) = Destroyed \<or> (\<exists>j \<ge> i. position (f (Suc j)) \<noteq> position (f j))"
  shows "\<exists>n \<ge> i. owner (f n) = Destroyed"
proof (induction "distance (position (f i))" arbitrary: i rule: wf_induct_rule [OF wf_nearer])
  case (1 i)
  show ?case
  proof (cases "owner (f i) = Destroyed")
    case False
    then obtain k where "k \<ge> i \<and> position (f (Suc k)) \<noteq> position (f k)" using moves [of i] by blast
    then obtain j where P: "j \<ge> i \<and> position (f (Suc j)) \<noteq> position (f j)"
      and before: "\<forall>k < j. \<not> (k \<ge> i \<and> position (f (Suc k)) \<noteq> position (f k))"
      using exists_least_iff [of "\<lambda>k. k \<ge> i \<and> position (f (Suc k)) \<noteq> position (f k)"] by auto
    from P have j: "j \<ge> i" "position (f (Suc j)) \<noteq> position (f j)" by blast+
    have least: "position (f (Suc k)) = position (f k)" if "k \<ge> i" "k < j" for k using before that by blast
    have "position (f k) = position (f i)" if "i \<le> k" "k \<le> j" for k
      using that(1,2) by (induction k rule: dec_induct) (simp_all add: least)
    then have "position (f j) = position (f i)" using j(1) by blast
    moreover have "thread_step (f j) (f (Suc j))" using run [of j] j(2) by metis
    from leaving_step [OF this leaving_run [OF lv run]] j(2)
    have "(distance (position (f (Suc j))), distance (position (f j))) \<in> nearer" by simp
    ultimately have "\<exists>n \<ge> Suc j. owner (f n) = Destroyed" using 1 [of "Suc j"] by simp
    with j(1) show ?thesis by (meson Suc_leD order_trans)
  qed blast
qed

text \<open>
  Property C39. The destructor of a loop thread can hang. Directly after \<open>startLoop\<close> has returned,
  the worker may not have entered \<open>loop()\<close> yet; the destructor's \<open>quit()\<close> is then overwritten when
  it does, and the owner waits in \<open>join\<close> for a loop that polls with no request to quit.
\<close>
theorem destructor_can_hang:
  assumes "o_tid \<noteq> w_tid"
  shows "\<exists>t. thread_reach o_tid w_tid t \<and> owner t = Joining \<and> worker t = InLoop \<and>
    pc (the_loop t) = Polling \<and> quit_flag (the_loop t) = False"
proof -
  let ?s = "started_thread o_tid w_tid"
  let ?l = "quit o_tid (EventLoop_init w_tid)"
  let ?d = "?s\<lparr>the_loop := ?l, owner := Joining\<rparr>"
  let ?q = "?s\<lparr>the_loop := set_quit o_tid (EventLoop_init w_tid), owner := Waking\<rparr>"
  have "thread_step ?s (EventLoopThread_delete ?s)" by (rule thread_step.delete) (simp add: started_thread_def)
  then have "thread_reach o_tid w_tid (?s\<lparr>owner := Quitting\<rparr>)"
    using thread_reach.step [OF started_thread_reachable]
    by (simp add: EventLoopThread_delete_def started_thread_def)
  moreover have "thread_step (?s\<lparr>owner := Quitting\<rparr>) ?q"
    using thread_step.delete_quit [of "?s\<lparr>owner := Quitting\<rparr>"] by (simp add: delete_quit_def started_thread_def)
  ultimately have "thread_reach o_tid w_tid ?q" by (rule thread_reach.step)
  moreover have "thread_step ?q ?d"
    using thread_step.delete_wake [of ?q] assms
    by (simp add: delete_wake_def started_thread_def quit_def isInLoopThread_def EventLoop_init_def set_quit_def Let_def)
  ultimately have d: "thread_reach o_tid w_tid ?d" by (rule thread_reach.step)
  obtain l where l: "loop_enter w_tid ?l = Inr l" "quit_flag l = False" "pc l = Testing"
    using assms by (simp add: loop_enter_def assertInLoopThread_def isInLoopThread_def quit_def set_quit_def
        wake_after_quit_def EventLoop_init_def Let_def)
  have "thread_step ?d (?d\<lparr>worker := InLoop, the_loop := l\<rparr>)"
    by (rule thread_step.enter) (use l in \<open>simp_all add: started_thread_def\<close>)
  with d have e: "thread_reach o_tid w_tid (?d\<lparr>worker := InLoop, the_loop := l\<rparr>)" by (rule thread_reach.step)
  have "loop_step l (loop_test l)" using l(3) by (rule loop_step.test)
  then have "thread_step (?d\<lparr>worker := InLoop, the_loop := l\<rparr>) (?d\<lparr>worker := InLoop, the_loop := loop_test l\<rparr>)"
    using thread_step.run [of "?d\<lparr>worker := InLoop, the_loop := l\<rparr>" "loop_test l"] l(3) by simp
  with e have "thread_reach o_tid w_tid (?d\<lparr>worker := InLoop, the_loop := loop_test l\<rparr>)"
    by (rule thread_reach.step)
  moreover have "pc (loop_test l) = Polling" "quit_flag (loop_test l) = False"
    using l by (simp_all add: loop_test_def)
  ultimately show ?thesis
    by (intro exI [of _ "?d\<lparr>worker := InLoop, the_loop := loop_test l\<rparr>"]) simp
qed

theorem destructor_can_hang_witness:
  "\<exists>t. thread_reach 1 2 t \<and> owner t = Joining \<and> worker t = InLoop \<and> quit_flag (the_loop t) = False"
  using destructor_can_hang [of 1 2] by auto

text \<open>
  Property C24. The destructor of a loop thread completes when the request to quit has reached the
  loop. Take any state in which the owner joins a worker that is in \<open>loop()\<close> with \<open>quit_\<close> set, and any
  infinite run from it, in which other threads may call the loop at any time and as often as they
  like. If the worker and the owner do not stand still forever (they are scheduled, and callbacks and
  tasks return), the destructor returns, with the worker finished and nothing left to join. They need
  never stand still: from every state the run can get to before that, steps that move one of them
  are possible.
\<close>
theorem destructor_completes:
  assumes "owner t = Joining" and "worker t = InLoop" and "quit_flag (the_loop t)"
  shows "(\<forall>f. f 0 = t \<longrightarrow> (\<forall>i. thread_step (f i) (f (Suc i)) \<or> f (Suc i) = f i) \<longrightarrow>
      (\<forall>i. owner (f i) = Destroyed \<or> (\<exists>j \<ge> i. position (f (Suc j)) \<noteq> position (f j))) \<longrightarrow>
      (\<exists>n. owner (f n) = Destroyed \<and> worker (f n) = Finished \<and> \<not> joinable (f n))) \<and>
    (\<forall>t'. thread_step\<^sup>*\<^sup>* t t' \<longrightarrow> owner t' \<noteq> Destroyed \<longrightarrow>
      (\<exists>u v. thread_step\<^sup>*\<^sup>* t' u \<and> thread_step u v \<and> position v \<noteq> position u))"
proof -
  have lv: "leaving t" using assms by (simp add: leaving_def)
  have "\<exists>n. owner (f n) = Destroyed \<and> worker (f n) = Finished \<and> \<not> joinable (f n)"
    if f: "f 0 = t" "\<forall>i. thread_step (f i) (f (Suc i)) \<or> f (Suc i) = f i"
      "\<forall>i. owner (f i) = Destroyed \<or> (\<exists>j \<ge> i. position (f (Suc j)) \<noteq> position (f j))" for f
  proof -
    obtain n where "owner (f n) = Destroyed" using leaving_ends [of f 0] lv f by auto
    moreover have "leaving (f n)" using leaving_run [of f n] lv f by auto
    ultimately show ?thesis by (auto simp: leaving_def)
  qed
  moreover have "leaving t'" if "thread_step\<^sup>*\<^sup>* t t'" for t'
    using that by (induction rule: rtranclp_induct) (auto simp: lv leaving_step)
  ultimately show ?thesis using leaving_moves by blast
qed

text \<open>A run of a joined worker, for the witness: it leaves the loop, withdraws it, and is joined.\<close>

definition joined_run :: "nat \<Rightarrow> loop_thread_state" where
  "joined_run n =
     (let l = (EventLoop_init 2)\<lparr>is_running := True, quit_flag := True, wakeup_count := 1, pc := Testing\<rparr>;
          t = (started_thread 1 2)\<lparr>worker := InLoop, owner := Joining, the_loop := l\<rparr>
      in [t, t\<lparr>the_loop := loop_test l\<rparr>, t\<lparr>the_loop := loop_test l, worker := Withdrawing\<rparr>,
          t\<lparr>the_loop := loop_test l, worker := Finished, loop_ptr := False\<rparr>,
          t\<lparr>the_loop := loop_test l, worker := Finished, loop_ptr := False, owner := Destroyed, joinable := False\<rparr>]
         ! min n 4)"

lemma nat_five: "P 0 \<Longrightarrow> P 1 \<Longrightarrow> P 2 \<Longrightarrow> P 3 \<Longrightarrow> (\<And>i. 4 \<le> i \<Longrightarrow> P i) \<Longrightarrow> P (i :: nat)"
  by (cases "i = 0 \<or> i = 1 \<or> i = 2 \<or> i = 3") auto

lemma joined_run_steps: "thread_step (joined_run i) (joined_run (Suc i)) \<or> joined_run (Suc i) = joined_run i"
proof (rule nat_five [of _ i])
  let ?l = "(EventLoop_init 2)\<lparr>is_running := True, quit_flag := True, wakeup_count := 1, pc := Testing\<rparr>"
  have "loop_step ?l (loop_test ?l)" by (rule loop_step.test) simp
  from thread_step.run [of "joined_run 0" "loop_test ?l"] this
  show "thread_step (joined_run 0) (joined_run (Suc 0)) \<or> joined_run (Suc 0) = joined_run 0"
    by (simp add: joined_run_def Let_def)
  show "thread_step (joined_run 1) (joined_run (Suc 1)) \<or> joined_run (Suc 1) = joined_run 1"
    using thread_step.left [of "joined_run 1"] by (simp add: joined_run_def Let_def loop_test_def)
  show "thread_step (joined_run 2) (joined_run (Suc 2)) \<or> joined_run (Suc 2) = joined_run 2"
    using thread_step.withdraw [of "joined_run 2"] by (simp add: joined_run_def Let_def)
  show "thread_step (joined_run 3) (joined_run (Suc 3)) \<or> joined_run (Suc 3) = joined_run 3"
    using thread_step.joined [of "joined_run 3"] by (simp add: joined_run_def Let_def)
  show "thread_step (joined_run i) (joined_run (Suc i)) \<or> joined_run (Suc i) = joined_run i" if "4 \<le> i" for i
    using that by (simp add: joined_run_def min_def)
qed

lemma joined_run_moves:
  "owner (joined_run i) = Destroyed \<or> (\<exists>j \<ge> i. position (joined_run (Suc j)) \<noteq> position (joined_run j))"
proof (cases "4 \<le> i")
  case False
  have "position (joined_run (Suc 3)) \<noteq> position (joined_run 3)"
    by (simp add: joined_run_def position_def Let_def)
  with False show ?thesis by (intro disjI2 exI [of _ 3]) simp
qed (simp add: joined_run_def min_def Let_def)

theorem destructor_completes_witness:
  "owner (joined_run 0) = Joining \<and> worker (joined_run 0) = InLoop \<and> quit_flag (the_loop (joined_run 0)) \<and>
   (\<exists>n. owner (joined_run n) = Destroyed)"
proof -
  have t: "owner (joined_run 0) = Joining" "worker (joined_run 0) = InLoop" "quit_flag (the_loop (joined_run 0))"
    by (simp_all add: joined_run_def Let_def)
  have "\<exists>n. owner (joined_run n) = Destroyed \<and> worker (joined_run n) = Finished \<and> \<not> joinable (joined_run n)"
    using destructor_completes [OF t] joined_run_steps joined_run_moves by blast
  with t show ?thesis by blast
qed

text \<open>
  The destructor can also run into memory that is gone. It reads \<open>loop_\<close> without the mutex: a worker whose
  loop was told to quit by somebody else may withdraw it between the test and the call of \<open>quit()\<close>; and
  inside \<open>quit()\<close> the worker may see the flag, leave the loop and destroy it before the wakeup is written.
\<close>
theorem destructor_uses_ended_loop:
  assumes "worker t = Withdrawing" and "loop_ptr t" and "owner t = Started"
  shows "\<exists>u v. thread_step\<^sup>*\<^sup>* t u \<and> u = t\<lparr>worker := Finished, loop_ptr := False, owner := Faulted\<rparr> \<and>
    thread_step\<^sup>*\<^sup>* t v \<and> v = t\<lparr>the_loop := set_quit (owner_tid t) (the_loop t), worker := Finished, loop_ptr := False, owner := Faulted\<rparr>"
proof -
  let ?a = "t\<lparr>owner := Quitting\<rparr>" and ?c = "t\<lparr>the_loop := set_quit (owner_tid t) (the_loop t), owner := Waking\<rparr>"
  have a: "thread_step t ?a" using thread_step.delete [of t] assms by (simp add: EventLoopThread_delete_def)
  have "thread_step ?a (?a\<lparr>worker := Finished, loop_ptr := False\<rparr>)"
    using thread_step.withdraw [of ?a] assms by simp
  moreover have "thread_step (?a\<lparr>worker := Finished, loop_ptr := False\<rparr>)
      (t\<lparr>worker := Finished, loop_ptr := False, owner := Faulted\<rparr>)"
    using thread_step.delete_quit [of "?a\<lparr>worker := Finished, loop_ptr := False\<rparr>"] by (simp add: delete_quit_def)
  moreover have c: "thread_step ?a ?c" using thread_step.delete_quit [of ?a] assms by (simp add: delete_quit_def)
  moreover have "thread_step ?c (?c\<lparr>worker := Finished, loop_ptr := False\<rparr>)"
    using thread_step.withdraw [of ?c] assms by simp
  moreover have "thread_step (?c\<lparr>worker := Finished, loop_ptr := False\<rparr>)
      (t\<lparr>the_loop := set_quit (owner_tid t) (the_loop t), worker := Finished, loop_ptr := False, owner := Faulted\<rparr>)"
    using thread_step.delete_wake [of "?c\<lparr>worker := Finished, loop_ptr := False\<rparr>"] by (simp add: delete_wake_def)
  ultimately show ?thesis using a by (meson r_into_rtranclp rtranclp.rtrancl_into_rtrancl)
qed

text \<open>
  The destructor of a loop thread whose loop has already ended terminates the process:
  the worker has withdrawn its loop, so the destructor neither quits nor joins, and the member
  \<open>thread_\<close> is destroyed while joinable.
\<close>
theorem destructor_after_loop_end_terminates:
  assumes "thread_reach o_tid w_tid t" and "owner t = Started" and "worker t = Finished"
  shows "owner (EventLoopThread_delete t) = Terminated"
  using thread_reach_inv [OF assms(1)] assms(2,3)
  by (simp add: ptr_ok_def owner_ok_def EventLoopThread_delete_def)

lemma finished_thread_reachable:
  "\<exists>t. thread_reach o_tid w_tid t \<and> owner t = Started \<and> worker t = Finished"
proof -
  let ?s = "started_thread o_tid w_tid"
  let ?l = "(EventLoop_init w_tid)\<lparr>is_running := True, quit_flag := False, pc := Testing\<rparr>"
  let ?q = "set_quit (w_tid + 1) ?l"
  have "thread_step ?s (?s\<lparr>worker := InLoop, the_loop := ?l\<rparr>)"
    by (rule thread_step.enter) (simp_all add: started_thread_def loop_enter_def assertInLoopThread_def
        isInLoopThread_def EventLoop_init_def)
  then have a: "thread_reach o_tid w_tid (?s\<lparr>worker := InLoop, the_loop := ?l\<rparr>)"
    by (rule thread_reach.step [OF started_thread_reachable])
  have "loop_step ?l ?q" by (rule loop_step.quit_set) (simp add: may_call_def isInLoopThread_def EventLoop_init_def)
  then have "thread_step (?s\<lparr>worker := InLoop, the_loop := ?l\<rparr>) (?s\<lparr>worker := InLoop, the_loop := ?q\<rparr>)"
    using thread_step.run [of "?s\<lparr>worker := InLoop, the_loop := ?l\<rparr>" ?q] by simp
  with a have b: "thread_reach o_tid w_tid (?s\<lparr>worker := InLoop, the_loop := ?q\<rparr>)" by (rule thread_reach.step)
  have "loop_step ?q (loop_test ?q)" by (rule loop_step.test) (simp add: set_quit_def)
  then have "thread_step (?s\<lparr>worker := InLoop, the_loop := ?q\<rparr>) (?s\<lparr>worker := InLoop, the_loop := loop_test ?q\<rparr>)"
    using thread_step.run [of "?s\<lparr>worker := InLoop, the_loop := ?q\<rparr>" "loop_test ?q"] by (simp add: set_quit_def)
  with b have c: "thread_reach o_tid w_tid (?s\<lparr>worker := InLoop, the_loop := loop_test ?q\<rparr>)" by (rule thread_reach.step)
  let ?w = "?s\<lparr>worker := InLoop, the_loop := loop_test ?q\<rparr>"
  have "thread_step ?w (?w\<lparr>worker := Withdrawing\<rparr>)"
    by (rule thread_step.left) (simp_all add: loop_test_def set_quit_def)
  with c have d: "thread_reach o_tid w_tid (?w\<lparr>worker := Withdrawing\<rparr>)" by (rule thread_reach.step)
  have "thread_step (?w\<lparr>worker := Withdrawing\<rparr>) (?w\<lparr>worker := Finished, loop_ptr := False\<rparr>)"
    using thread_step.withdraw [of "?w\<lparr>worker := Withdrawing\<rparr>"] by simp
  with d have "thread_reach o_tid w_tid (?w\<lparr>worker := Finished, loop_ptr := False\<rparr>)" by (rule thread_reach.step)
  then show ?thesis by (intro exI conjI) (assumption, simp_all add: started_thread_def)
qed

theorem destructor_after_loop_end_terminates_witness:
  "\<exists>t. thread_reach 1 2 t \<and> worker t = Finished \<and> owner (EventLoopThread_delete t) = Terminated"
proof -
  obtain t where t: "thread_reach 1 2 t" "owner t = Started" "worker t = Finished"
    using finished_thread_reachable by blast
  from destructor_after_loop_end_terminates [OF this] t show ?thesis by blast
qed

section \<open>The pool\<close>

text \<open>
  Loops are numbers; \<open>worker_loop i\<close> is the loop of the \<open>i\<close>-th worker. \<open>next_\<close> is an \<open>int\<close> whose atomic
  increment wraps around; its value is converted to \<open>size_t\<close> before the remainder is taken.
\<close>

record loop_pool =
  base_loop :: nat
  pool_started :: bool
  threads_num :: int
  next_loop :: "32 word"
  loops :: "nat list"

definition EventLoopThreadPool_new :: "nat \<Rightarrow> loop_pool" where
  "EventLoopThreadPool_new base =
     \<lparr>base_loop = base, pool_started = False, threads_num = 0, next_loop = 0, loops = []\<rparr>"

definition setThreadNum :: "int \<Rightarrow> loop_pool \<Rightarrow> loop_pool" where
  "setThreadNum n p = p\<lparr>threads_num := n\<rparr>"

definition pool_start :: "(nat \<Rightarrow> nat) \<Rightarrow> loop_pool \<Rightarrow> loop_pool" where
  "pool_start worker_loop p =
     (if pool_started p then p
      else p\<lparr>pool_started := True, loops := loops p @ map worker_loop [0..<nat (threads_num p)]\<rparr>)"

definition loop_index :: "32 word \<Rightarrow> nat \<Rightarrow> nat" where
  "loop_index k n = unat (scast k :: 64 word) mod n"

definition getNextLoop :: "loop_pool \<Rightarrow> nat \<times> loop_pool" where
  "getNextLoop p =
     (if loops p \<noteq> [] then
        (loops p ! loop_index (next_loop p) (length (loops p)), p\<lparr>next_loop := next_loop p + 1\<rparr>)
      else (base_loop p, p))"

fun next_loops :: "nat \<Rightarrow> loop_pool \<Rightarrow> nat list" where
  "next_loops 0 p = []"
| "next_loops (Suc k) p = (let (l, p') = getNextLoop p in l # next_loops k p')"

lemma scast_small:
  assumes "k < 2 ^ 31"
  shows "unat (scast (of_nat k :: 32 word) :: 64 word) = k"
proof -
  have "uint (of_nat k :: 32 word) = int k" using assms by (simp add: uint_nat unat_of_nat)
  then have "sint (of_nat k :: 32 word) = int k"
    using assms by (simp add: sint_uint signed_take_bit_int_eq_self)
  then have "(scast (of_nat k :: 32 word) :: 64 word) = of_nat k" by (simp add: scast_eq)
  then show ?thesis using assms by (simp add: unat_of_nat)
qed

lemma loop_index_less: "0 < n \<Longrightarrow> loop_index k n < n"
  by (simp add: loop_index_def)

lemma next_loops_round_robin:
  assumes "loops p \<noteq> []" and "j + k \<le> 2 ^ 31"
  shows "next_loop p = of_nat j \<Longrightarrow>
    next_loops k p = map (\<lambda>i. loops p ! (i mod length (loops p))) [j..<j + k]"
  using assms
proof (induction k arbitrary: p j)
  case (Suc k)
  let ?p = "p\<lparr>next_loop := next_loop p + 1\<rparr>"
  have idx: "loop_index (next_loop p) (length (loops p)) = j mod length (loops p)"
    using Suc.prems scast_small [of j] by (simp add: loop_index_def)
  have "next_loop ?p = of_nat (Suc j)" using Suc.prems(1) by simp
  from Suc.IH [OF this] Suc.prems(2,3) have
    "next_loops k ?p = map (\<lambda>i. loops p ! (i mod length (loops p))) [Suc j..<Suc j + k]" by simp
  moreover have "[j..<j + Suc k] = j # [Suc j..<Suc j + k]" by (simp add: upt_conv_Cons del: upt_Suc)
  ultimately show ?case using Suc.prems(2) idx by (simp add: getNextLoop_def del: upt_Suc)
qed simp

lemma residues_count:
  assumes "0 < n" and "i < n"
  shows "length (filter (\<lambda>j. j mod n = i) [0..<k]) = k div n + (if i < k mod n then 1 else 0)"
proof (induction k)
  case (Suc k)
  show ?case
  proof (cases "Suc (k mod n) = n")
    case True
    then have "Suc k mod n = 0" "Suc k div n = Suc (k div n)" by (simp_all add: mod_Suc div_Suc)
    moreover have "i < k mod n \<or> i = k mod n" using True assms(2) by linarith
    ultimately show ?thesis using Suc by auto
  next
    case False
    then have "Suc k mod n = Suc (k mod n)" "Suc k div n = k div n" by (simp_all add: mod_Suc div_Suc)
    then show ?thesis using Suc by auto
  qed
qed simp

text \<open>
  Property C26. The pool gives out its loops in turn and evenly: after \<open>start\<close> with \<open>n\<close> threads, the
  loops that \<open>k\<close> calls of \<open>getNextLoop\<close> return are the workers' loops in cyclic order, so that
  worker \<open>i\<close> is chosen \<open>k div n\<close> times, or once more if \<open>i\<close> lies below the remainder, as long as the
  counter has not overflowed. For every value of the counter, negative ones after a wrap-around
  included, the index lies inside the list; and without threads the base loop is returned.
\<close>
theorem pool_round_robin:
  assumes "0 < n" and "k \<le> 2 ^ 31" and "i < n"
    and "p = pool_start worker_loop (setThreadNum (int n) (EventLoopThreadPool_new base))"
  shows "next_loops k p = map (\<lambda>j. worker_loop (j mod n)) [0..<k] \<and>
    length (filter (\<lambda>j. j mod n = i) [0..<k]) = k div n + (if i < k mod n then 1 else 0) \<and>
    loop_index c (length (loops p)) < length (loops p) \<and>
    fst (getNextLoop (pool_start worker_loop (EventLoopThreadPool_new base))) = base"
proof -
  have l: "loops p = map worker_loop [0..<n]" "next_loop p = 0"
    using assms(4) by (simp_all add: pool_start_def setThreadNum_def EventLoopThreadPool_new_def)
  then have "next_loops k p = map (\<lambda>i. loops p ! (i mod length (loops p))) [0..<k]"
    using next_loops_round_robin [of p 0 k] assms(1,2) by simp
  also have "\<dots> = map (\<lambda>j. worker_loop (j mod n)) [0..<k]" using l assms(1) by simp
  finally show ?thesis
    using residues_count [OF assms(1,3)] loop_index_less [of n c] assms(1) l(1)
    by (simp add: getNextLoop_def pool_start_def EventLoopThreadPool_new_def)
qed

theorem pool_round_robin_witness:
  "next_loops 5 (pool_start (\<lambda>i. i + 10) (setThreadNum 2 (EventLoopThreadPool_new 0))) = [10, 11, 10, 11, 10]"
  using pool_round_robin [of 2 5 0 "pool_start (\<lambda>i. i + 10) (setThreadNum (int 2) (EventLoopThreadPool_new 0))"
      "\<lambda>i. i + 10" 0]
  by (simp add: upt_rec)

end
