(* ===== verification/TcpServer.thy ===== *)
theory TcpServer
  imports TcpConnection LoopThreads Socket
begin

text \<open>
  \<open>net/Acceptor.cpp\<close> and \<open>net/TcpServer.cpp\<close>: accepting connections, giving them to the loops of the
  pool, and removing them. The world holds the server, the connection objects and, for each
  loop, the tasks that wait in its queue, in order; the queue of a loop and these lists keep the
  same contract (the locale \<open>fifo_tasks\<close>). A loop is a number and its thread carries the same number:
  there is one loop per thread.
\<close>

section \<open>The acceptor\<close>

record acceptor =
  acc_channel :: channel
  acc_callback :: bool
  is_listening :: bool

text \<open>The descriptor \<open>s\<close>, and the results of \<open>bind\<close> and \<open>listen\<close>, are the kernel's.\<close>

definition Acceptor_new :: "nat \<Rightarrow> fd \<Rightarrow> int \<Rightarrow> acceptor res" where
  "Acceptor_new loop s bind_ret =
     (if s = -1 then Inl Abort
      else bind_res (bindAddress bind_ret) (\<lambda>_.
        Inr \<lparr>acc_channel = setReadCallback (Some AcceptorRead) (Channel_new loop s),
             acc_callback = False, is_listening = False\<rparr>))"

definition acc_setNewConnectionCallback :: "acceptor \<Rightarrow> acceptor" where
  "acc_setNewConnectionCallback a = a\<lparr>acc_callback := True\<rparr>"

definition Acceptor_listen :: "bool \<Rightarrow> int \<Rightarrow> acceptor \<Rightarrow> acceptor res" where
  "Acceptor_listen in_loop_thread listen_ret a =
     (if \<not> in_loop_thread then Inl Abort
      else bind_res (Socket_listen listen_ret) (\<lambda>_.
        Inr (a\<lparr>is_listening := True, acc_channel := listenTillReadable (acc_channel a)\<rparr>)))"

text \<open>The read callback: one \<open>accept\<close>; the new socket goes to the callback if it is valid.\<close>

definition Acceptor_handleRead :: "bool \<Rightarrow> int \<Rightarrow> acceptor \<Rightarrow> fd option res" where
  "Acceptor_handleRead in_loop_thread conn_fd a =
     (if \<not> in_loop_thread then Inl Abort
      else if conn_fd \<ge> 0 then (if acc_callback a then Inr (Some conn_fd) else Inl BadFunctionCall)
      else Inr None)"

text \<open>
  The destructor is the implicit one: the channel is freed and the socket is closed, and nothing
  tells the loop. \<open>epoll\<close> drops a closed descriptor from its interest list by itself, but the
  library's tables keep the channel, under either poller.
\<close>

definition Acceptor_delete :: "addr \<Rightarrow> chan_heap \<times> backend \<Rightarrow> chan_heap \<times> backend" where
  "Acceptor_delete c = (\<lambda>(h, b).
     (h(c := None),
      (case (b, h c) of
         (EpollBackend p, Some ch) \<Rightarrow> EpollBackend (p\<lparr>interest_list := (interest_list p)(fd_of ch := None)\<rparr>)
       | _ \<Rightarrow> b)))"

section \<open>The server\<close>

record tcp_server =
  server_name :: string
  server_loop :: nat
  server_acceptor :: acceptor
  srv_message :: "nat option"
  srv_connection :: "nat option"
  srv_write_complete :: "nat option"
  srv_high_water :: "nat option"
  srv_mark :: size_t
  started :: bool
  next_conn_id :: int
  connections :: "string \<rightharpoonup> conn_id"
  thread_pool :: loop_pool

datatype server_task = TEstablished conn_id | TRemove conn_id | TDestroyed conn_id

text \<open>\<open>performed\<close> is a record of what happened, not of the program: the tasks executed so far.\<close>

record server_world =
  server :: tcp_server
  objects :: "conn_id \<rightharpoonup> (nat \<times> tcp_connection)"
  pending :: "nat \<Rightarrow> server_task list"
  performed :: "server_task list"

definition loop_tid :: "nat \<Rightarrow> tid" where
  "loop_tid l = int l"

text \<open>The name the close callback of the server goes by.\<close>

definition SERVER_CLOSE :: nat where
  "SERVER_CLOSE = 0"

definition TcpServer_new :: "nat \<Rightarrow> string \<Rightarrow> acceptor \<Rightarrow> tcp_server" where
  "TcpServer_new loop nm a =
     \<lparr>server_name = nm, server_loop = loop, server_acceptor = acc_setNewConnectionCallback a,
      srv_message = None, srv_connection = None, srv_write_complete = None, srv_high_water = None,
      srv_mark = 64 * 1024 * 1024, started = False, next_conn_id = 1, connections = Map.empty,
      thread_pool = EventLoopThreadPool_new loop\<rparr>"

definition TcpServer_start :: "(nat \<Rightarrow> nat) \<Rightarrow> int \<Rightarrow> tcp_server \<Rightarrow> tcp_server res" where
  "TcpServer_start worker_loop listen_ret s =
     (if started s then Inr s
      else bind_res (Acceptor_listen True listen_ret (server_acceptor s)) (\<lambda>a.
        Inr (s\<lparr>started := True, server_acceptor := a, thread_pool := pool_start worker_loop (thread_pool s)\<rparr>)))"

definition server_setThreadNum :: "int \<Rightarrow> tcp_server \<Rightarrow> tcp_server" where
  "server_setThreadNum n s = s\<lparr>thread_pool := setThreadNum n (thread_pool s)\<rparr>"

definition server_setMessageCallback :: "nat option \<Rightarrow> tcp_server \<Rightarrow> tcp_server" where
  "server_setMessageCallback cb s = s\<lparr>srv_message := cb\<rparr>"

definition server_setConnectionCallback :: "nat option \<Rightarrow> tcp_server \<Rightarrow> tcp_server" where
  "server_setConnectionCallback cb s = s\<lparr>srv_connection := cb\<rparr>"

definition server_setWriteCompleteCallback :: "nat option \<Rightarrow> tcp_server \<Rightarrow> tcp_server" where
  "server_setWriteCompleteCallback cb s = s\<lparr>srv_write_complete := cb\<rparr>"

definition server_setHighWaterMarkCallback :: "nat option \<Rightarrow> size_t \<Rightarrow> tcp_server \<Rightarrow> tcp_server" where
  "server_setHighWaterMarkCallback cb n s = s\<lparr>srv_high_water := cb, srv_mark := n\<rparr>"

text \<open>\<open>queueInLoop\<close> of loop \<open>l\<close>.\<close>

definition queue_task :: "nat \<Rightarrow> server_task \<Rightarrow> server_world \<Rightarrow> server_world" where
  "queue_task l t w = w\<lparr>pending := (pending w)(l := pending w l @ [t])\<rparr>"

text \<open>What the tasks do: \<open>removeConnectionInLoop\<close> and the two calls on the connection.\<close>

definition removeConnectionInLoop :: "conn_id \<Rightarrow> server_world \<Rightarrow> server_world res" where
  "removeConnectionInLoop cid w =
     (case objects w cid of
        None \<Rightarrow> Inl NullDereference
      | Some (l, c) \<Rightarrow>
          (let s = server w
           in Inr (queue_task l (TDestroyed cid)
                (w\<lparr>server := s\<lparr>connections := (connections s)(conn_name c := None)\<rparr>\<rparr>))))"

definition update_conn :: "conn_id \<Rightarrow> nat \<Rightarrow> conn_result \<Rightarrow> server_world \<Rightarrow> (effect list \<times> server_world) res" where
  "update_conn cid l r w = bind_res r (\<lambda>(eff, c). Inr (eff, w\<lparr>objects := (objects w)(cid \<mapsto> (l, c))\<rparr>))"

definition note_task :: "server_task \<Rightarrow> server_world \<Rightarrow> server_world" where
  "note_task t w = w\<lparr>performed := performed w @ [t]\<rparr>"

definition task_body :: "server_task \<Rightarrow> server_world \<Rightarrow> server_world res" where
  "task_body t w =
     (case t of
        TRemove cid \<Rightarrow> removeConnectionInLoop cid w
      | TEstablished cid \<Rightarrow>
          (case objects w cid of
             None \<Rightarrow> Inl NullDereference
           | Some (l, c) \<Rightarrow>
               bind_res (update_conn cid l (connectionEstablished (loop_tid l) cid c) w) (\<lambda>(_, w'). Inr w'))
      | TDestroyed cid \<Rightarrow>
          (case objects w cid of
             None \<Rightarrow> Inl NullDereference
           | Some (l, c) \<Rightarrow>
               bind_res (update_conn cid l (connectionDestroyed (loop_tid l) c) w) (\<lambda>(_, w'). Inr w')))"

definition exec_task :: "server_task \<Rightarrow> server_world \<Rightarrow> server_world res" where
  "exec_task t w = task_body t (note_task t w)"

text \<open>\<open>runInLoop\<close> of loop \<open>l\<close>, called in the thread of loop \<open>here\<close>.\<close>

definition run_in :: "nat \<Rightarrow> nat \<Rightarrow> server_task \<Rightarrow> server_world \<Rightarrow> server_world res" where
  "run_in here l t w = (if here = l then exec_task t w else Inr (queue_task l t w))"

definition removeConnection :: "nat \<Rightarrow> conn_id \<Rightarrow> server_world \<Rightarrow> server_world res" where
  "removeConnection here cid w = run_in here (server_loop (server w)) (TRemove cid) w"

text \<open>The callback for a new connection. The counter is an \<open>int\<close>: at its maximum \<open>++\<close> is undefined.\<close>

definition conn_name_of :: "tcp_server \<Rightarrow> int \<Rightarrow> string" where
  "conn_name_of s i = server_name s @ ''#'' @ dec_int i"

definition set_callbacks :: "tcp_server \<Rightarrow> tcp_connection \<Rightarrow> tcp_connection" where
  "set_callbacks s c0 =
     (let c1 = setMessageCallback (srv_message s) c0;
          c2 = setConnectionCallback (srv_connection s) c1;
          c3 = (if srv_write_complete s \<noteq> None then setWriteCompleteCallback (srv_write_complete s) c2 else c2);
          c4 = setCloseCallback (Some SERVER_CLOSE) c3
      in if srv_high_water s \<noteq> None then setHighWaterCallback (srv_high_water s) (srv_mark s) c4 else c4)"

definition newConnection :: "nat \<Rightarrow> fd \<Rightarrow> server_world \<Rightarrow> server_world res" where
  "newConnection here conn_fd w =
     (let s = server w
      in if here \<noteq> server_loop s then Inl Abort
         else if next_conn_id s \<ge> 2147483647 then Inl SignedOverflow
         else
           (let nm = conn_name_of s (next_conn_id s); cid = nat (next_conn_id s);
                (l, pool) = getNextLoop (thread_pool s)
            in bind_res (TcpConnection_new (loop_tid l) l cid nm conn_fd) (\<lambda>c.
                 run_in here l (TEstablished cid)
                   (w\<lparr>server := s\<lparr>next_conn_id := next_conn_id s + 1, thread_pool := pool,
                                    connections := (connections s)(nm \<mapsto> cid)\<rparr>,
                      objects := (objects w)(cid \<mapsto> (l, set_callbacks s c))\<rparr>))))"

text \<open>A readable event of the listening socket, in the thread of loop \<open>here\<close>; \<open>conn_fd\<close> is what \<open>accept4\<close> returned.\<close>

definition acceptor_readable :: "nat \<Rightarrow> int \<Rightarrow> server_world \<Rightarrow> server_world res" where
  "acceptor_readable here conn_fd w =
     bind_res (Acceptor_handleRead (here = server_loop (server w)) conn_fd (server_acceptor (server w)))
       (\<lambda>s. case s of None \<Rightarrow> Inr w | Some s \<Rightarrow> newConnection here s w)"

text \<open>A readable event of a connection; the close callback is \<open>removeConnection\<close>.\<close>

definition conn_readable :: "conn_id \<Rightarrow> read_result \<Rightarrow> server_world \<Rightarrow> server_world res" where
  "conn_readable cid r w =
     (case objects w cid of
        None \<Rightarrow> Inl NullDereference
      | Some (l, c) \<Rightarrow>
          bind_res (update_conn cid l (handleReadable (loop_tid l) r c) w) (\<lambda>(eff, w').
            if CallClose SERVER_CLOSE \<in> set eff then removeConnection l cid w' else Inr w'))"

text \<open>What the user does with a connection in its own thread.\<close>

definition conn_user :: "conn_id \<Rightarrow> conn_op \<Rightarrow> server_world \<Rightarrow> server_world res" where
  "conn_user cid op w =
     (case objects w cid of
        None \<Rightarrow> Inl NullDereference
      | Some (l, c) \<Rightarrow> bind_res (update_conn cid l (conn_step op c) w) (\<lambda>(_, w'). Inr w'))"

section \<open>Runs of a server\<close>

text \<open>
  What can happen: the kernel delivers a new connection to the server's loop; a loop takes the
  first task of its queue; a connection that is interested in reading becomes readable; the user
  sends, shuts down, or changes the receive buffer (by reading from it).
\<close>

inductive server_step :: "server_world \<Rightarrow> server_world \<Rightarrow> bool" where
  accept: "acceptor_readable (server_loop (server w)) conn_fd w = Inr w' \<Longrightarrow> server_step w w'"
| task: "pending w l = t # ts \<Longrightarrow> exec_task t (w\<lparr>pending := (pending w)(l := ts)\<rparr>) = Inr w' \<Longrightarrow>
    server_step w w'"
| readable: "objects w cid = Some (l, c) \<Longrightarrow> isReading (chan c) \<Longrightarrow> read_ok r (receive_buffer c) \<Longrightarrow>
    conn_readable cid r w = Inr w' \<Longrightarrow> server_step w w'"
| user: "user_op op \<Longrightarrow> conn_user cid op w = Inr w' \<Longrightarrow> server_step w w'"
| consume: "objects w cid = Some (l, c) \<Longrightarrow> buf_inv b \<Longrightarrow>
    server_step w (w\<lparr>objects := (objects w)(cid \<mapsto> (l, c\<lparr>receive_buffer := b\<rparr>))\<rparr>)"

definition fresh_world :: "tcp_server \<Rightarrow> server_world" where
  "fresh_world s = \<lparr>server = s, objects = Map.empty, pending = (\<lambda>_. []), performed = []\<rparr>"

inductive server_reach :: "tcp_server \<Rightarrow> server_world \<Rightarrow> bool" for s where
  init: "connections s = Map.empty \<Longrightarrow> next_conn_id s = 1 \<Longrightarrow> server_reach s (fresh_world s)"
| step: "server_reach s w \<Longrightarrow> server_step w w' \<Longrightarrow> server_reach s w'"

section \<open>The life of a connection in the server\<close>

text \<open>
  The phases of a connection, by its state, whether it is interested in reading, how many
  tasks of each kind wait for it, whether the server's table has it, and how many tasks of each
  kind have been executed for it.
\<close>

definition phase_ok :: "conn_state \<Rightarrow> bool \<Rightarrow> nat \<Rightarrow> nat \<Rightarrow> nat \<Rightarrow> bool \<Rightarrow> nat \<times> nat \<times> nat \<Rightarrow> bool" where
  "phase_ok st reading est rem des reg past \<longleftrightarrow>
     (case st of
        Connecting \<Rightarrow> \<not> reading \<and> est = 1 \<and> rem = 0 \<and> des = 0 \<and> reg \<and> past = (0, 0, 0)
      | Disconnected \<Rightarrow> \<not> reading \<and> est = 0 \<and>
          (rem = 1 \<and> des = 0 \<and> reg \<and> past = (1, 0, 0) \<or>
           rem = 0 \<and> des = 1 \<and> \<not> reg \<and> past = (1, 1, 0) \<or>
           rem = 0 \<and> des = 0 \<and> \<not> reg \<and> past = (1, 1, 1))
      | _ \<Rightarrow> est = 0 \<and> rem = 0 \<and> des = 0 \<and> reg \<and> past = (1, 0, 0))"

definition n_est :: "conn_id \<Rightarrow> nat \<Rightarrow> server_world \<Rightarrow> nat" where
  "n_est cid l w = count_list (pending w l) (TEstablished cid)"

definition n_rem :: "conn_id \<Rightarrow> server_world \<Rightarrow> nat" where
  "n_rem cid w = count_list (pending w (server_loop (server w))) (TRemove cid)"

definition n_des :: "conn_id \<Rightarrow> nat \<Rightarrow> server_world \<Rightarrow> nat" where
  "n_des cid l w = count_list (pending w l) (TDestroyed cid)"

definition past :: "conn_id \<Rightarrow> server_world \<Rightarrow> nat \<times> nat \<times> nat" where
  "past cid w = (count_list (performed w) (TEstablished cid), count_list (performed w) (TRemove cid),
     count_list (performed w) (TDestroyed cid))"

definition registered :: "conn_id \<Rightarrow> tcp_connection \<Rightarrow> server_world \<Rightarrow> bool" where
  "registered cid c w \<longleftrightarrow> connections (server w) (conn_name c) = Some cid"

definition conn_phase_ok :: "server_world \<Rightarrow> conn_id \<Rightarrow> bool" where
  "conn_phase_ok w cid \<longleftrightarrow>
     (case objects w cid of
        None \<Rightarrow> True
      | Some (l, c) \<Rightarrow> phase_ok (state_of c) (isReading (chan c)) (n_est cid l w) (n_rem cid w) (n_des cid l w)
                         (registered cid c w) (past cid w))"

definition conn_good :: "server_world \<Rightarrow> conn_id \<Rightarrow> bool" where
  "conn_good w cid \<longleftrightarrow>
     (case objects w cid of
        None \<Rightarrow> True
      | Some (l, c) \<Rightarrow> loop_thread c = loop_tid l \<and> close_callback c = Some SERVER_CLOSE \<and>
          conn_name c = conn_name_of (server w) (int cid) \<and> buf_inv (receive_buffer c) \<and>
          1 \<le> int cid \<and> int cid < next_conn_id (server w))"

fun task_conn :: "server_task \<Rightarrow> conn_id" where
  "task_conn (TEstablished cid) = cid"
| "task_conn (TRemove cid) = cid"
| "task_conn (TDestroyed cid) = cid"

text \<open>Tasks wait in the right queue: those of the connection in its loop, removals in the server's.\<close>

definition conn_loop :: "server_world \<Rightarrow> conn_id \<Rightarrow> nat option" where
  "conn_loop w cid = map_option fst (objects w cid)"

definition placed :: "server_world \<Rightarrow> nat \<Rightarrow> server_task \<Rightarrow> bool" where
  "placed w l t \<longleftrightarrow>
     (case t of
        TRemove cid \<Rightarrow> conn_loop w cid \<noteq> None \<and> l = server_loop (server w)
      | TEstablished cid \<Rightarrow> conn_loop w cid = Some l
      | TDestroyed cid \<Rightarrow> conn_loop w cid = Some l)"

text \<open>Everything but the phase of the connection \<open>x\<close>, and the whole invariant.\<close>

definition others_ok :: "conn_id \<Rightarrow> server_world \<Rightarrow> bool" where
  "others_ok x w \<longleftrightarrow> 1 \<le> next_conn_id (server w) \<and> (\<forall>cid. conn_good w cid) \<and>
     (\<forall>l. \<forall>t \<in> set (pending w l). placed w l t) \<and> (\<forall>t \<in> set (performed w). conn_loop w (task_conn t) \<noteq> None) \<and>
     (\<forall>cid. cid \<noteq> x \<longrightarrow> conn_phase_ok w cid)"

definition world_inv :: "server_world \<Rightarrow> bool" where
  "world_inv w \<longleftrightarrow> (\<forall>x. others_ok x w)"

lemma world_inv_iff: "world_inv w \<longleftrightarrow> others_ok x w \<and> conn_phase_ok w x"
proof -
  have "conn_phase_ok w x" if "world_inv w"
    using that by (auto simp: world_inv_def others_ok_def dest: spec [of _ "Suc x"])
  moreover have "world_inv w" if "others_ok x w" "conn_phase_ok w x"
    using that by (auto simp: world_inv_def others_ok_def)
  ultimately show ?thesis by (auto simp: world_inv_def)
qed

text \<open>The counts of the waiting tasks of one connection are all zero.\<close>

definition quiet :: "conn_id \<Rightarrow> nat \<Rightarrow> server_world \<Rightarrow> bool" where
  "quiet cid l w \<longleftrightarrow> n_est cid l w = 0 \<and> n_rem cid w = 0 \<and> n_des cid l w = 0"

lemmas count_defs = n_est_def n_rem_def n_des_def past_def

lemma placed_cong:
  "placed w k t \<Longrightarrow> server_loop (server w') = server_loop (server w) \<Longrightarrow>
   (\<And>cid l. conn_loop w cid = Some l \<Longrightarrow> conn_loop w' cid = Some l) \<Longrightarrow> placed w' k t"
  by (cases t) (auto simp: placed_def)

lemma others_okD:
  assumes "others_ok x w"
  shows "1 \<le> next_conn_id (server w)" "conn_good w cid" "t \<in> set (pending w l) \<Longrightarrow> placed w l t"
    "cid \<noteq> x \<Longrightarrow> conn_phase_ok w cid" "t \<in> set (performed w) \<Longrightarrow> conn_loop w (task_conn t) \<noteq> None"
  using assms by (auto simp: others_ok_def)

lemma others_okI:
  assumes "1 \<le> next_conn_id (server w)" "\<And>cid. conn_good w cid"
    "\<And>l t. t \<in> set (pending w l) \<Longrightarrow> placed w l t" "\<And>cid. cid \<noteq> x \<Longrightarrow> conn_phase_ok w cid"
    "\<And>t. t \<in> set (performed w) \<Longrightarrow> conn_loop w (task_conn t) \<noteq> None"
  shows "others_ok x w"
  using assms by (auto simp: others_ok_def)

lemma conn_goodD:
  assumes "conn_good w cid" and "objects w cid = Some (l, c)"
  shows "loop_thread c = loop_tid l" "close_callback c = Some SERVER_CLOSE"
    "conn_name c = conn_name_of (server w) (int cid)" "buf_inv (receive_buffer c)"
    "1 \<le> int cid" "int cid < next_conn_id (server w)"
  using assms by (auto simp: conn_good_def)

lemma others_ok_update:
  assumes ok: "others_ok x w" and obj: "objects w x = Some (l, c)" and same: "loop_thread c' = loop_thread c"
    "close_callback c' = close_callback c" "conn_name c' = conn_name c" "buf_inv (receive_buffer c')"
  shows "others_ok x (w\<lparr>objects := (objects w)(x \<mapsto> (l, c'))\<rparr>)"
proof (rule others_okI)
  let ?w = "w\<lparr>objects := (objects w)(x \<mapsto> (l, c'))\<rparr>"
  show "1 \<le> next_conn_id (server ?w)" using others_okD(1) [OF ok] by simp
  show "conn_good ?w cid" for cid
    using others_okD(2) [OF ok, of cid] conn_goodD [OF others_okD(2) [OF ok, of x] obj] same
    by (cases "cid = x") (auto simp: conn_good_def split: option.splits)
  show "placed ?w k t" if "t \<in> set (pending ?w k)" for k t
  proof -
    have "placed w k t" using others_okD(3) [OF ok] that by simp
    then show ?thesis by (rule placed_cong) (use obj in \<open>auto simp: conn_loop_def\<close>)
  qed
  show "conn_phase_ok ?w cid" if "cid \<noteq> x" for cid
    using others_okD(4) [OF ok that] that
    by (auto simp: conn_phase_ok_def count_defs registered_def split: option.splits)
  show "conn_loop ?w (task_conn t) \<noteq> None" if "t \<in> set (performed ?w)" for t
    using others_okD(5) [OF ok, of t] that by (auto simp: conn_loop_def)
qed

lemma count_list_snoc: "count_list (xs @ [y]) x = count_list xs x + (if x = y then 1 else 0)"
  by (induction xs) auto

lemma others_ok_queue:
  assumes ok: "others_ok x w" and t: "task_conn t = x" "placed w k t"
  shows "others_ok x (queue_task k t w)"
proof (rule others_okI)
  let ?w = "queue_task k t w"
  show "1 \<le> next_conn_id (server ?w)" using others_okD(1) [OF ok] by (simp add: queue_task_def)
  show "conn_good ?w cid" for cid
    using others_okD(2) [OF ok, of cid] by (auto simp: conn_good_def queue_task_def split: option.splits)
  show "placed ?w k' t'" if "t' \<in> set (pending ?w k')" for k' t'
  proof -
    have "placed w k' t'" using others_okD(3) [OF ok] t(2) that by (auto simp: queue_task_def split: if_splits)
    then show ?thesis by (rule placed_cong) (simp_all add: queue_task_def conn_loop_def)
  qed
  show "conn_phase_ok ?w cid" if "cid \<noteq> x" for cid
    using others_okD(4) [OF ok that] that t(1)
    by (cases t) (auto simp: conn_phase_ok_def count_defs registered_def queue_task_def count_list_snoc
        split: option.splits)
  show "conn_loop ?w (task_conn t') \<noteq> None" if "t' \<in> set (performed ?w)" for t'
    using others_okD(5) [OF ok, of t'] that by (simp add: conn_loop_def queue_task_def)
qed

lemma note_task_fields [simp]:
  "server (note_task t w) = server w" "objects (note_task t w) = objects w" "pending (note_task t w) = pending w"
  "performed (note_task t w) = performed w @ [t]" "registered x c (note_task t w) = registered x c w"
  "quiet x l (note_task t w) = quiet x l w"
  by (simp_all add: note_task_def registered_def quiet_def n_est_def n_rem_def n_des_def)

lemma others_ok_note:
  assumes ok: "others_ok x w" and t: "task_conn t = x" "objects w x \<noteq> None"
  shows "others_ok x (note_task t w)"
proof (rule others_okI)
  let ?w = "note_task t w"
  show "1 \<le> next_conn_id (server ?w)" using others_okD(1) [OF ok] by simp
  show "conn_good ?w cid" for cid
    using others_okD(2) [OF ok, of cid] by (auto simp: conn_good_def split: option.splits)
  show "placed ?w k t'" if "t' \<in> set (pending ?w k)" for k t'
    using others_okD(3) [OF ok, of t' k] that by (auto intro: placed_cong simp: conn_loop_def)
  show "conn_phase_ok ?w cid" if "cid \<noteq> x" for cid
    using others_okD(4) [OF ok that] that t(1)
    by (cases t) (auto simp: conn_phase_ok_def count_defs registered_def count_list_snoc split: option.splits)
  show "conn_loop ?w (task_conn t') \<noteq> None" if "t' \<in> set (performed ?w)" for t'
    using others_okD(5) [OF ok, of t'] that t by (auto simp: conn_loop_def)
qed

lemma others_ok_pop:
  assumes inv: "world_inv w" and p: "pending w k = t # ts"
  shows "others_ok (task_conn t) (w\<lparr>pending := (pending w)(k := ts)\<rparr>)"
proof (rule others_okI)
  let ?w = "w\<lparr>pending := (pending w)(k := ts)\<rparr>"
  have ok: "others_ok (task_conn t) w" using inv by (simp add: world_inv_def)
  show "1 \<le> next_conn_id (server ?w)" using others_okD(1) [OF ok] by simp
  show "conn_good ?w cid" for cid using others_okD(2) [OF ok, of cid] by (auto simp: conn_good_def split: option.splits)
  show "placed ?w k' t'" if "t' \<in> set (pending ?w k')" for k' t'
  proof -
    have "placed w k' t'" using others_okD(3) [OF ok, of t' k'] p that by (auto split: if_splits)
    then show ?thesis by (rule placed_cong) (simp_all add: conn_loop_def)
  qed
  show "conn_phase_ok ?w cid" if "cid \<noteq> task_conn t" for cid
    using others_okD(4) [OF ok that] that p
    by (cases t) (auto simp: conn_phase_ok_def count_defs registered_def split: option.splits)
  show "conn_loop ?w (task_conn t') \<noteq> None" if "t' \<in> set (performed ?w)" for t'
    using others_okD(5) [OF ok, of t'] that by (simp add: conn_loop_def)
qed

text \<open>What each action does to the invariant, from a state where only the phase of \<open>x\<close> may be off.\<close>

lemma conn_name_of_inj:
  "0 \<le> i \<Longrightarrow> 0 \<le> j \<Longrightarrow> conn_name_of s i = conn_name_of s j \<longleftrightarrow> i = j"
  by (simp add: conn_name_of_def dec_int_inj)

lemma established_inv:
  assumes ok: "others_ok x w" and obj: "objects w x = Some (l, c)" and st: "state_of c = Connecting"
    and q: "quiet x l w" and reg: "registered x c w" and pst: "past x w = (0, 0, 0)"
  shows "\<exists>w'. exec_task (TEstablished x) w = Inr w' \<and> world_inv w'"
proof -
  note g = conn_goodD [OF others_okD(2) [OF ok] obj]
  let ?v = "note_task (TEstablished x) w"
  have okv: "others_ok x ?v" and objv: "objects ?v x = Some (l, c)"
    using others_ok_note [OF ok, of "TEstablished x"] obj by simp_all
  let ?ch = "listenTillReadable (tie x (chan c))"
  let ?c = "c\<lparr>state_of := Connected, chan := ?ch\<rparr>"
  let ?w = "?v\<lparr>objects := (objects ?v)(x \<mapsto> (l, ?c))\<rparr>"
  have "exec_task (TEstablished x) w = Inr ?w"
    using objv st g(1)
    by (simp add: exec_task_def task_body_def update_conn_def connectionEstablished_def in_loop_def Let_def)
  moreover have "others_ok x ?w" by (rule others_ok_update [OF okv objv]) (use g in simp_all)
  moreover have "conn_phase_ok ?w x"
    using q reg pst
    by (simp add: conn_phase_ok_def phase_ok_def quiet_def count_defs registered_def count_list_snoc)
  ultimately show ?thesis using world_inv_iff by blast
qed

lemma destroyed_inv:
  assumes ok: "others_ok x w" and obj: "objects w x = Some (l, c)" and q: "quiet x l w" and reg: "\<not> registered x c w"
    and pst: "past x w = (1, 1, 0)"
  shows "\<exists>w'. exec_task (TDestroyed x) w = Inr w' \<and> world_inv w'"
proof -
  note g = conn_goodD [OF others_okD(2) [OF ok] obj]
  let ?v = "note_task (TDestroyed x) w"
  have okv: "others_ok x ?v" and objv: "objects ?v x = Some (l, c)"
    using others_ok_note [OF ok, of "TDestroyed x"] obj by simp_all
  let ?c = "c\<lparr>state_of := Disconnected, chan := ignoreAll (chan c)\<rparr>"
  let ?w = "?v\<lparr>objects := (objects ?v)(x \<mapsto> (l, ?c))\<rparr>"
  have "exec_task (TDestroyed x) w = Inr ?w"
    using objv g(1)
    by (simp add: exec_task_def task_body_def update_conn_def connectionDestroyed_def in_loop_def Let_def)
  moreover have "others_ok x ?w" by (rule others_ok_update [OF okv objv]) (use g in simp_all)
  moreover have "conn_phase_ok ?w x"
    using q reg pst
    by (simp add: conn_phase_ok_def phase_ok_def quiet_def count_defs registered_def count_list_snoc)
  ultimately show ?thesis using world_inv_iff by blast
qed

lemma removed_inv:
  assumes ok: "others_ok x w" and obj: "objects w x = Some (l, c)" and st: "state_of c = Disconnected"
    and rd: "\<not> isReading (chan c)" and q: "quiet x l w" and pst: "past x w = (1, 1, 0)"
  shows "\<exists>w'. removeConnectionInLoop x w = Inr w' \<and> world_inv w'"
proof -
  note g = conn_goodD [OF others_okD(2) [OF ok] obj]
  let ?s = "(server w)\<lparr>connections := (connections (server w))(conn_name c := None)\<rparr>"
  let ?v = "w\<lparr>server := ?s\<rparr>"
  let ?w = "queue_task l (TDestroyed x) ?v"
  have name: "conn_name_of ?s i = conn_name_of (server w) i" for i by (simp add: conn_name_of_def)
  have "others_ok x ?v"
  proof (rule others_okI)
    show "1 \<le> next_conn_id (server ?v)" using others_okD(1) [OF ok] by simp
    show "conn_good ?v cid" for cid
      using others_okD(2) [OF ok, of cid] by (auto simp: conn_good_def name split: option.splits)
    show "placed ?v k t" if "t \<in> set (pending ?v k)" for k t
    proof -
      have "placed w k t" using others_okD(3) [OF ok] that by simp
      then show ?thesis by (rule placed_cong) (simp_all add: conn_loop_def)
    qed
    show "conn_phase_ok ?v cid" if "cid \<noteq> x" for cid
    proof (cases "objects w cid")
      case (Some lc)
      obtain l' c' where lc: "objects w cid = Some (l', c')" using Some by (cases lc) auto
      have "conn_name c' \<noteq> conn_name c"
        using conn_goodD [OF others_okD(2) [OF ok] lc] g that by (simp add: conn_name_of_inj)
      then show ?thesis using others_okD(4) [OF ok that] lc
        by (simp add: conn_phase_ok_def count_defs registered_def)
    qed (simp add: conn_phase_ok_def)
    show "conn_loop ?v (task_conn t) \<noteq> None" if "t \<in> set (performed ?v)" for t
      using others_okD(5) [OF ok, of t] that by (simp add: conn_loop_def)
  qed
  then have "others_ok x ?w"
    by (rule others_ok_queue) (use obj in \<open>simp_all add: placed_def conn_loop_def\<close>)
  moreover have "conn_phase_ok ?w x"
    using obj st rd q pst
    by (auto simp: conn_phase_ok_def phase_ok_def quiet_def count_defs registered_def queue_task_def count_list_snoc)
  moreover have "removeConnectionInLoop x w = Inr ?w"
    using obj by (simp add: removeConnectionInLoop_def Let_def)
  ultimately show ?thesis using world_inv_iff by blast
qed

lemma remove_task_inv:
  assumes ok: "others_ok x w" and obj: "objects w x = Some (l, c)" and st: "state_of c = Disconnected"
    and rd: "\<not> isReading (chan c)" and q: "quiet x l w" and pst: "past x w = (1, 0, 0)"
  shows "\<exists>w'. exec_task (TRemove x) w = Inr w' \<and> world_inv w'"
proof -
  have "others_ok x (note_task (TRemove x) w)" by (rule others_ok_note [OF ok]) (simp_all add: obj)
  moreover have "past x (note_task (TRemove x) w) = (1, 1, 0)" using pst by (simp add: past_def count_list_snoc)
  ultimately show ?thesis
    using removed_inv [of x "note_task (TRemove x) w" l c] obj st rd q by (simp add: exec_task_def task_body_def)
qed

lemma queue_established_inv:
  assumes ok: "others_ok x w" and obj: "objects w x = Some (l, c)" and st: "state_of c = Connecting"
    and rd: "\<not> isReading (chan c)" and q: "quiet x l w" and reg: "registered x c w"
    and pst: "past x w = (0, 0, 0)"
  shows "world_inv (queue_task l (TEstablished x) w)"
proof -
  have "others_ok x (queue_task l (TEstablished x) w)"
    by (rule others_ok_queue [OF ok]) (use obj in \<open>simp_all add: placed_def conn_loop_def\<close>)
  moreover have "conn_phase_ok (queue_task l (TEstablished x) w) x"
    using obj st rd q reg pst
    by (auto simp: conn_phase_ok_def phase_ok_def quiet_def count_defs registered_def queue_task_def count_list_snoc)
  ultimately show ?thesis using world_inv_iff by blast
qed

lemma queue_remove_inv:
  assumes ok: "others_ok x w" and obj: "objects w x = Some (l, c)" and st: "state_of c = Disconnected"
    and rd: "\<not> isReading (chan c)" and q: "quiet x l w" and reg: "registered x c w"
    and pst: "past x w = (1, 0, 0)"
  shows "world_inv (queue_task (server_loop (server w)) (TRemove x) w)"
proof -
  let ?w = "queue_task (server_loop (server w)) (TRemove x) w"
  have "others_ok x ?w"
    by (rule others_ok_queue [OF ok]) (use obj in \<open>simp_all add: placed_def conn_loop_def\<close>)
  moreover have "conn_phase_ok ?w x"
    using obj st rd q reg pst
    by (auto simp: conn_phase_ok_def phase_ok_def quiet_def count_defs registered_def queue_task_def count_list_snoc)
  ultimately show ?thesis using world_inv_iff by blast
qed

lemma task_inv:
  assumes inv: "world_inv w" and p: "pending w k = t # ts"
  shows "\<exists>w'. exec_task t (w\<lparr>pending := (pending w)(k := ts)\<rparr>) = Inr w' \<and> world_inv w'"
proof -
  let ?x = "task_conn t" and ?w = "w\<lparr>pending := (pending w)(k := ts)\<rparr>"
  have ok: "others_ok ?x w" and ph: "conn_phase_ok w ?x" using inv world_inv_iff [of w ?x] by auto
  have pl: "placed w k t" using others_okD(3) [OF ok, of t k] p by simp
  note pop = others_ok_pop [OF inv p]
  show ?thesis
  proof (cases t)
    case (TEstablished x)
    with pl obtain c where obj: "objects w x = Some (k, c)" by (auto simp: placed_def conn_loop_def)
    have "state_of c = Connecting" "quiet x k ?w" "registered x c ?w" "past x ?w = (0, 0, 0)"
      using ph obj p TEstablished
      by (auto simp: conn_phase_ok_def phase_ok_def quiet_def count_defs registered_def split: conn_state.splits)
    with established_inv [OF pop, of k c] obj TEstablished show ?thesis by simp
  next
    case (TRemove x)
    with pl obtain l c where obj: "objects w x = Some (l, c)" and k: "k = server_loop (server w)"
      by (auto simp: placed_def conn_loop_def)
    have "state_of c = Disconnected" "\<not> isReading (chan c)" "quiet x l ?w" "past x ?w = (1, 0, 0)"
      using ph obj p k TRemove
      by (auto simp: conn_phase_ok_def phase_ok_def quiet_def count_defs registered_def split: conn_state.splits)
    with remove_task_inv [OF pop, of l c] obj TRemove show ?thesis by simp
  next
    case (TDestroyed x)
    with pl obtain c where obj: "objects w x = Some (k, c)" by (auto simp: placed_def conn_loop_def)
    have "quiet x k ?w" "\<not> registered x c ?w" "past x ?w = (1, 1, 0)"
      using ph obj p TDestroyed
      by (auto simp: conn_phase_ok_def phase_ok_def quiet_def count_defs registered_def split: conn_state.splits)
    with destroyed_inv [OF pop, of k c] obj TDestroyed show ?thesis by simp
  qed
qed

subsection \<open>New connections\<close>

lemma set_callbacks_fields [simp]:
  "loop_thread (set_callbacks s c) = loop_thread c" "conn_name (set_callbacks s c) = conn_name c"
  "close_callback (set_callbacks s c) = Some SERVER_CLOSE" "state_of (set_callbacks s c) = state_of c"
  "receive_buffer (set_callbacks s c) = receive_buffer c" "chan (set_callbacks s c) = chan c"
  by (simp_all add: set_callbacks_def setMessageCallback_def setConnectionCallback_def
      setWriteCompleteCallback_def setCloseCallback_def setHighWaterCallback_def Let_def)

lemma TcpConnection_new_ok:
  "\<exists>c. TcpConnection_new tid l cid nm fd = Inr c \<and> loop_thread c = tid \<and> conn_name c = nm \<and>
     state_of c = Connecting \<and> buf_inv (receive_buffer c) \<and> \<not> isReading (chan c)"
proof -
  obtain b where "Buffer_new INITIALIZE_SIZE = Inr b" "buf_inv b"
    using Buffer_new_ok [of INITIALIZE_SIZE] by (auto simp: INITIALIZE_SIZE_def limit_defs)
  then show ?thesis
    by (simp add: TcpConnection_new_def isReading_def setReadCallback_def Channel_new_def kNoneEvent_def)
qed

lemma accept_inv:
  assumes inv: "world_inv w" and small: "next_conn_id (server w) < 2147483647"
  shows "\<exists>w'. newConnection (server_loop (server w)) conn_fd w = Inr w' \<and> world_inv w'"
proof -
  let ?s = "server w"
  define x where "x = nat (next_conn_id ?s)"
  have ok: "others_ok x w" using inv by (simp add: world_inv_def)
  have x: "int x = next_conn_id ?s" "1 \<le> int x" using others_okD(1) [OF ok] by (simp_all add: x_def)
  have fresh: "objects w x = None"
  proof (cases "objects w x")
    case (Some lc)
    obtain l c where "objects w x = Some (l, c)" using Some by (cases lc) auto
    from conn_goodD(6) [OF others_okD(2) [OF ok] this] x show ?thesis by simp
  qed
  obtain l pool where nl: "getNextLoop (thread_pool ?s) = (l, pool)" by fastforce
  let ?nm = "conn_name_of ?s (next_conn_id ?s)"
  obtain c where c: "TcpConnection_new (loop_tid l) l x ?nm conn_fd = Inr c" "loop_thread c = loop_tid l"
    "conn_name c = ?nm" "state_of c = Connecting" "buf_inv (receive_buffer c)" "\<not> isReading (chan c)"
    using TcpConnection_new_ok by blast
  let ?s1 = "?s\<lparr>next_conn_id := next_conn_id ?s + 1, thread_pool := pool, connections := (connections ?s)(?nm \<mapsto> x)\<rparr>"
  let ?w1 = "w\<lparr>server := ?s1, objects := (objects w)(x \<mapsto> (l, set_callbacks ?s c))\<rparr>"
  have name: "conn_name_of ?s1 i = conn_name_of ?s i" for i by (simp add: conn_name_of_def)
  have obj1: "objects ?w1 x = Some (l, set_callbacks ?s c)" by simp
  have ok1: "others_ok x ?w1"
  proof (rule others_okI)
    show "1 \<le> next_conn_id (server ?w1)" using x by simp
    show "conn_good ?w1 cid" for cid
      using others_okD(2) [OF ok, of cid] c x name
      by (cases "cid = x") (auto simp: conn_good_def name split: option.splits)
    show "placed ?w1 k t" if "t \<in> set (pending ?w1 k)" for k t
    proof -
      have "placed w k t" using others_okD(3) [OF ok] that by simp
      then show ?thesis by (rule placed_cong) (use fresh in \<open>auto simp: conn_loop_def\<close>)
    qed
    show "conn_phase_ok ?w1 cid" if cid: "cid \<noteq> x" for cid
    proof (cases "objects w cid")
      case (Some lc)
      obtain l' c' where lc: "objects w cid = Some (l', c')" using Some by (cases lc) auto
      have "conn_name c' \<noteq> ?nm"
        using conn_goodD(3,5) [OF others_okD(2) [OF ok] lc] x cid
        by (simp add: conn_name_of_inj flip: x(1))
      then show ?thesis using others_okD(4) [OF ok cid] lc cid
        by (simp add: conn_phase_ok_def count_defs registered_def)
    qed (simp add: conn_phase_ok_def cid)
    show "conn_loop ?w1 (task_conn t) \<noteq> None" if "t \<in> set (performed ?w1)" for t
      using others_okD(5) [OF ok, of t] that by (auto simp: conn_loop_def)
  qed
  have none: "t \<notin> set (pending w k)" if "task_conn t = x" for t k
    using others_okD(3) [OF ok, of t k] that fresh by (cases t) (auto simp: placed_def conn_loop_def)
  have q: "quiet x l ?w1" using none by (simp add: quiet_def count_defs count_list_0_iff)
  have reg: "registered x (set_callbacks ?s c) ?w1" using c(3) by (simp add: registered_def)
  have "t \<notin> set (performed w)" if "task_conn t = x" for t
    using others_okD(5) [OF ok, of t] that fresh by (auto simp: conn_loop_def)
  then have pst: "past x ?w1 = (0, 0, 0)" by (simp add: past_def count_list_0_iff)
  have new: "newConnection (server_loop ?s) conn_fd w = run_in (server_loop ?s) l (TEstablished x) ?w1"
    using small nl c(1) by (simp add: newConnection_def Let_def x_def)
  show ?thesis
  proof (cases "server_loop ?s = l")
    case True
    with established_inv [OF ok1 obj1 _ q reg pst] c(4) new show ?thesis by (simp add: run_in_def)
  next
    case False
    with queue_established_inv [OF ok1 obj1 _ _ q reg pst] c(4,6) new show ?thesis by (simp add: run_in_def)
  qed
qed

subsection \<open>Events of a connection\<close>

lemma update_live_inv:
  assumes inv: "world_inv w" and obj: "objects w x = Some (l, c)" and fr: "owner_frame c c'"
    and rb: "buf_inv (receive_buffer c')"
    and st: "state_of c' = state_of c \<or> state_of c = Connected \<and> state_of c' = Disconnecting"
  shows "world_inv (w\<lparr>objects := (objects w)(x \<mapsto> (l, c'))\<rparr>)"
proof -
  let ?w = "w\<lparr>objects := (objects w)(x \<mapsto> (l, c'))\<rparr>"
  have ok: "others_ok x w" and ph: "conn_phase_ok w x" using inv world_inv_iff [of w x] by auto
  have "others_ok x ?w" by (rule others_ok_update [OF ok obj]) (use fr rb in \<open>simp_all add: owner_frame_def\<close>)
  moreover have "conn_phase_ok ?w x"
    using ph obj st fr
    by (auto simp: conn_phase_ok_def phase_ok_def count_defs registered_def owner_frame_def
        split: conn_state.splits)
  ultimately show ?thesis using world_inv_iff by blast
qed

lemma user_inv:
  assumes inv: "world_inv w" and op: "user_op op" and run: "conn_user x op w = Inr w'"
  shows "world_inv w'"
proof -
  obtain l c eff c' where obj: "objects w x = Some (l, c)" and s: "conn_step op c = Inr (eff, c')"
    and w': "w' = w\<lparr>objects := (objects w)(x \<mapsto> (l, c'))\<rparr>"
    using run by (auto simp: conn_user_def update_conn_def bind_res_eq_Inr split: option.splits)
  have "others_ok x w" using inv by (simp add: world_inv_def)
  from conn_goodD(4) [OF others_okD(2) [OF this] obj] have "buf_inv (receive_buffer c)" .
  with user_op_frame [OF op s] show ?thesis unfolding w' by (intro update_live_inv [OF inv obj]) auto
qed

text \<open>A readable event on a connection that is interested in reading.\<close>

lemma close_inv:
  assumes inv: "world_inv w" and obj: "objects w x = Some (l, c)" and rd: "isReading (chan c)"
    and c': "c' = c\<lparr>receive_buffer := b, state_of := Disconnected, chan := ignoreAll (chan c)\<rparr>" and b: "buf_inv b"
  shows "\<exists>w'. removeConnection l x (w\<lparr>objects := (objects w)(x \<mapsto> (l, c'))\<rparr>) = Inr w' \<and> world_inv w'"
proof -
  let ?w = "w\<lparr>objects := (objects w)(x \<mapsto> (l, c'))\<rparr>"
  have ok: "others_ok x w" and ph: "conn_phase_ok w x" using inv world_inv_iff [of w x] by auto
  have ok1: "others_ok x ?w" by (rule others_ok_update [OF ok obj]) (simp_all add: c' b)
  have obj1: "objects ?w x = Some (l, c')" by simp
  have q: "quiet x l ?w" and reg: "registered x c' ?w" and pst: "past x ?w = (1, 0, 0)"
    using ph obj rd
    by (auto simp: conn_phase_ok_def phase_ok_def quiet_def count_defs registered_def c' split: conn_state.splits)
  have st: "state_of c' = Disconnected" "\<not> isReading (chan c')" by (simp_all add: c')
  show ?thesis
    using remove_task_inv [OF ok1 obj1 st q pst] queue_remove_inv [OF ok1 obj1 st q reg pst]
    by (auto simp: removeConnection_def run_in_def)
qed

lemma readable_inv:
  assumes inv: "world_inv w" and obj: "objects w x = Some (l, c)" and rd: "isReading (chan c)"
    and r: "read_ok r (receive_buffer c)"
  shows "\<exists>w'. conn_readable x r w = Inr w' \<and> world_inv w'"
proof -
  have ok: "others_ok x w" and ph: "conn_phase_ok w x" using inv world_inv_iff [of w x] by auto
  note g = conn_goodD [OF others_okD(2) [OF ok] obj]
  have st: "state_of c = Connected \<or> state_of c = Disconnecting"
    using ph obj rd by (auto simp: conn_phase_ok_def phase_ok_def split: conn_state.splits)
  have loop: "in_loop (loop_tid l) c" using g(1) by (simp add: in_loop_def)
  show ?thesis
  proof (cases r)
    case (ReadError e)
    then have "handleReadable (loop_tid l) r c = Inr ([], c)"
      using loop by (simp add: handleReadable_def readFd_def handleError_def)
    then have "conn_readable x r w = Inr (w\<lparr>objects := (objects w)(x \<mapsto> (l, c))\<rparr>)"
      using obj by (simp add: conn_readable_def update_conn_def)
    moreover have "world_inv (w\<lparr>objects := (objects w)(x \<mapsto> (l, c))\<rparr>)"
      by (rule update_live_inv [OF inv obj]) (use g(4) in \<open>simp_all add: owner_frame_def\<close>)
    ultimately show ?thesis by blast
  next
    case (ReadBytes bs)
    then obtain b where b: "readFd r (receive_buffer c) = Inr (int (length bs), None, b)" "buf_inv b"
      using readFd_ok [OF g(4), of bs] r by (auto simp: read_ok_def)
    show ?thesis
    proof (cases "bs = []")
      case True
      let ?c = "c\<lparr>receive_buffer := b, state_of := Disconnected, chan := ignoreAll (chan c)\<rparr>"
      have "handleReadable (loop_tid l) r c =
          Inr ([UpdateChannel (events (ignoreAll (chan c))), CallClose SERVER_CLOSE], ?c)"
        using loop b(1) True st g(2) by (auto simp: handleReadable_def handleClose_def in_loop_def Let_def)
      then have "conn_readable x r w = removeConnection l x (w\<lparr>objects := (objects w)(x \<mapsto> (l, ?c))\<rparr>)"
        using obj by (simp add: conn_readable_def update_conn_def)
      then show ?thesis using close_inv [OF inv obj rd refl b(2)] by simp
    next
      case False
      let ?c = "c\<lparr>receive_buffer := b\<rparr>"
      have "handleReadable (loop_tid l) r c = Inr (opt_effect CallMessage (message_callback c), ?c)"
        using loop b(1) False by (simp add: handleReadable_def Let_def)
      then have "conn_readable x r w = Inr (w\<lparr>objects := (objects w)(x \<mapsto> (l, ?c))\<rparr>)"
        using obj by (simp add: conn_readable_def update_conn_def set_opt_effect)
      moreover have "world_inv (w\<lparr>objects := (objects w)(x \<mapsto> (l, ?c))\<rparr>)"
        by (rule update_live_inv [OF inv obj]) (use b(2) in \<open>simp_all add: owner_frame_def\<close>)
      ultimately show ?thesis by blast
    qed
  qed
qed

lemma server_step_inv: "server_step w w' \<Longrightarrow> world_inv w \<Longrightarrow> world_inv w'"
proof (induction rule: server_step.induct)
  case (accept w conn_fd w')
  from accept(1) consider "w' = w" | "newConnection (server_loop (server w)) conn_fd w = Inr w'"
    by (auto simp: acceptor_readable_def Acceptor_handleRead_def split: if_splits)
  then show ?case
  proof cases
    case 1
    then show ?thesis using accept(2) by simp
  next
    case 2
    then have "next_conn_id (server w) < 2147483647" by (simp add: newConnection_def Let_def split: if_splits)
    with accept_inv [OF accept(2) this, of conn_fd] 2 show ?thesis by auto
  qed
next
  case (task w l t ts w')
  then show ?case using task_inv [of w l t ts] by auto
next
  case (readable w cid l c r w')
  then show ?case using readable_inv [of w cid l c r] by auto
next
  case (user op cid w w')
  then show ?case using user_inv by blast
next
  case (consume w cid l c b)
  then show ?case by (intro update_live_inv [where c = c]) (auto simp: owner_frame_def)
qed

lemma server_reach_inv: "server_reach s w \<Longrightarrow> world_inv w"
proof (induction rule: server_reach.induct)
  case init
  then show ?case
    by (simp add: world_inv_def others_ok_def conn_good_def conn_phase_ok_def fresh_world_def)
next
  case (step w w')
  then show ?case using server_step_inv by blast
qed

section \<open>The queues run empty\<close>

text \<open>
  A step of some loop that takes the first task of its queue. A removal queues one more task, so
  it weighs two; \<open>work\<close> is what is left to do in all queues.
\<close>

definition task_step :: "server_world \<Rightarrow> server_world \<Rightarrow> bool" where
  "task_step w w' \<longleftrightarrow> (\<exists>l t ts. pending w l = t # ts \<and> exec_task t (w\<lparr>pending := (pending w)(l := ts)\<rparr>) = Inr w')"

fun task_weight :: "server_task \<Rightarrow> nat" where
  "task_weight (TRemove cid) = 2"
| "task_weight (TEstablished cid) = 1"
| "task_weight (TDestroyed cid) = 1"

definition active :: "(nat \<Rightarrow> server_task list) \<Rightarrow> nat set" where
  "active p = {l. p l \<noteq> []}"

definition queue_weight :: "server_task list \<Rightarrow> nat" where
  "queue_weight ts = sum_list (map task_weight ts)"

definition work :: "server_world \<Rightarrow> nat" where
  "work w = (\<Sum>l \<in> active (pending w). queue_weight (pending w l))"

lemma queue_weight_simps [simp]:
  "queue_weight [] = 0" "queue_weight (t # ts) = task_weight t + queue_weight ts"
  "queue_weight (ts @ us) = queue_weight ts + queue_weight us"
  by (simp_all add: queue_weight_def)

lemma active_upd: "finite (active p) \<Longrightarrow> finite (active (p(l := ts)))"
  by (rule finite_subset [of _ "insert l (active p)"]) (auto simp: active_def)

lemma work_superset:
  assumes "finite A" and "active (pending w) \<subseteq> A"
  shows "work w = (\<Sum>l \<in> A. queue_weight (pending w l))"
  unfolding work_def by (rule sum.mono_neutral_left) (use assms in \<open>auto simp: active_def\<close>)

lemma work_upd:
  assumes "finite (active (pending w))" and "pending w' = (pending w)(l := ts)"
  shows "work w' + queue_weight (pending w l) = work w + queue_weight ts"
proof -
  let ?A = "insert l (active (pending w))"
  have fin: "finite ?A" using assms(1) by simp
  have "active (pending w') \<subseteq> ?A" using assms(2) by (auto simp: active_def split: if_splits)
  then have "work w' = (\<Sum>k \<in> ?A. queue_weight (((pending w)(l := ts)) k))"
    using work_superset [OF fin, of w'] assms(2) by simp
  also have "\<dots> = queue_weight ts + (\<Sum>k \<in> ?A - {l}. queue_weight (pending w k))"
    using fin by (subst sum.remove [of _ l]) (auto intro!: sum.cong)
  finally have w': "work w' = queue_weight ts + (\<Sum>k \<in> ?A - {l}. queue_weight (pending w k))" .
  have "work w = queue_weight (pending w l) + (\<Sum>k \<in> ?A - {l}. queue_weight (pending w k))"
    unfolding work_superset [OF fin subset_insertI] by (rule sum.remove [OF fin]) simp
  with w' show ?thesis by simp
qed

lemma exec_task_pending:
  assumes "exec_task t w = Inr w'"
  shows "pending w' = pending w \<and> (\<forall>cid. t \<noteq> TRemove cid) \<or>
    (\<exists>cid l. t = TRemove cid \<and> pending w' = (pending w)(l := pending w l @ [TDestroyed cid]))"
  using assms
  by (auto simp: exec_task_def task_body_def removeConnectionInLoop_def queue_task_def update_conn_def bind_res_eq_Inr Let_def
      split: server_task.splits option.splits)

lemma exec_task_finite: "exec_task t w = Inr w' \<Longrightarrow> finite (active (pending w)) \<Longrightarrow> finite (active (pending w'))"
  by (drule exec_task_pending) (auto intro: active_upd)

lemma run_in_finite: "run_in here l t w = Inr w' \<Longrightarrow> finite (active (pending w)) \<Longrightarrow> finite (active (pending w'))"
  by (auto simp: run_in_def queue_task_def intro: active_upd exec_task_finite split: if_splits)

lemma newConnection_finite:
  assumes "newConnection here s w = Inr w'" and "finite (active (pending w))"
  shows "finite (active (pending w'))"
  using assms
  by (auto simp: newConnection_def Let_def case_prod_beta bind_res_eq_Inr split: if_splits elim!: run_in_finite)

lemma server_step_finite: "server_step w w' \<Longrightarrow> finite (active (pending w)) \<Longrightarrow> finite (active (pending w'))"
proof (induction rule: server_step.induct)
  case (accept w conn_fd w')
  then show ?case
    by (auto simp: acceptor_readable_def Acceptor_handleRead_def split: if_splits intro: newConnection_finite)
next
  case (task w l t ts w')
  then show ?case using exec_task_finite active_upd by fastforce
next
  case (readable w cid l c r w')
  then show ?case
    by (auto simp: conn_readable_def update_conn_def bind_res_eq_Inr removeConnection_def split: if_splits
        elim!: run_in_finite)
next
  case (user op cid w w')
  then show ?case by (auto simp: conn_user_def update_conn_def bind_res_eq_Inr split: option.splits)
qed simp

text \<open>Each queue of the world is a task queue in the sense of the loop's interface.\<close>

lemma exec_task_back: "exec_task t w = Inr w' \<Longrightarrow> \<exists>added. pending w' l = pending w l @ added"
  by (drule exec_task_pending) (auto simp: fun_upd_def)

lemma run_in_back: "run_in here k t w = Inr w' \<Longrightarrow> \<exists>added. pending w' l = pending w l @ added"
  using exec_task_back by (auto simp: run_in_def queue_task_def split: if_splits)

lemma server_step_queue: "server_step w w' \<Longrightarrow> \<exists>k added. pending w' l = drop k (pending w l) @ added"
proof (induction rule: server_step.induct)
  case (accept w conn_fd w')
  then have "w' = w \<or> (\<exists>here k t v. run_in here k t v = Inr w' \<and> pending v = pending w)"
    by (fastforce simp: acceptor_readable_def Acceptor_handleRead_def newConnection_def Let_def case_prod_beta
        bind_res_eq_Inr split: if_splits)
  then have "\<exists>added. pending w' l = pending w l @ added" using run_in_back by (metis append_Nil2)
  then show ?case by (metis drop0)
next
  case (task w k t ts w')
  from exec_task_back [OF task(2), of l] obtain added where "pending w' l = ((pending w)(k := ts)) l @ added" by auto
  moreover have "((pending w)(k := ts)) l = drop (if l = k then 1 else 0) (pending w l)" using task(1) by simp
  ultimately show ?case by metis
next
  case (readable w cid k c r w')
  then have "w' = w\<lparr>objects := objects w'\<rparr> \<or> (\<exists>here k t v. run_in here k t v = Inr w' \<and> pending v = pending w)"
    by (fastforce simp: conn_readable_def update_conn_def bind_res_eq_Inr removeConnection_def split: if_splits)
  then have "\<exists>added. pending w' l = pending w l @ added"
    using run_in_back by (metis append_Nil2 server_world.select_convs(3) server_world.surjective server_world.update_convs(2))
  then show ?case by (metis drop0)
next
  case (user op cid w w')
  then have "pending w' l = drop 0 (pending w l) @ []"
    by (auto simp: conn_user_def update_conn_def bind_res_eq_Inr split: option.splits)
  then show ?case by blast
next
  case (consume w cid k c b)
  have "pending (w\<lparr>objects := (objects w)(cid \<mapsto> (k, c\<lparr>receive_buffer := b\<rparr>))\<rparr>) l = drop 0 (pending w l) @ []" by simp
  then show ?case by blast
qed

interpretation sq: fifo_tasks world_inv server_step "\<lambda>w. pending w l" for l
  by unfold_locales (auto intro: server_step_inv server_step_queue)

lemma server_reach_finite: "server_reach s w \<Longrightarrow> finite (active (pending w))"
  by (induction rule: server_reach.induct) (auto simp: fresh_world_def active_def dest: server_step_finite)

lemma task_step_reach: "server_reach s w \<Longrightarrow> task_step w w' \<Longrightarrow> server_reach s w'"
  by (auto simp: task_step_def intro: server_reach.step server_step.task)

lemma task_step_work:
  assumes "finite (active (pending w))" and "task_step w w'"
  shows "Suc (work w') = work w"
proof -
  obtain l t ts where p: "pending w l = t # ts" and e: "exec_task t (w\<lparr>pending := (pending w)(l := ts)\<rparr>) = Inr w'"
    using assms(2) by (auto simp: task_step_def)
  let ?w = "w\<lparr>pending := (pending w)(l := ts)\<rparr>"
  have 1: "work ?w + task_weight t = work w" using work_upd [OF assms(1), of ?w l ts] p by simp
  have fin: "finite (active (pending ?w))" using active_upd [OF assms(1)] by simp
  from exec_task_pending [OF e] show ?thesis
  proof
    assume "pending w' = pending ?w \<and> (\<forall>cid. t \<noteq> TRemove cid)"
    with 1 show ?thesis by (cases t) (auto simp: work_def)
  next
    assume "\<exists>cid l. t = TRemove cid \<and> pending w' = (pending ?w)(l := pending ?w l @ [TDestroyed cid])"
    then obtain cid k where t: "t = TRemove cid" "pending w' = (pending ?w)(k := pending ?w k @ [TDestroyed cid])" by blast
    from work_upd [OF fin t(2)] 1 t(1) show ?thesis by simp
  qed
qed

lemma task_steps:
  "server_reach s w \<Longrightarrow> (task_step ^^ n) w w' \<Longrightarrow> server_reach s w' \<and> n + work w' = work w"
proof (induction n arbitrary: w')
  case (Suc n)
  then obtain v where v: "(task_step ^^ n) w v" "task_step v w'" by auto
  with Suc.IH [OF Suc.prems(1) v(1)] show ?case
    using task_step_reach task_step_work server_reach_finite by fastforce
qed simp

lemma task_step_possible:
  assumes "server_reach s w" and "pending w l \<noteq> []"
  shows "\<exists>w'. task_step w w'"
proof -
  obtain t ts where p: "pending w l = t # ts" using assms(2) by (cases "pending w l") auto
  from task_inv [OF server_reach_inv [OF assms(1)] p] p show ?thesis unfolding task_step_def by blast
qed

section \<open>Properties\<close>

text \<open>A server with one worker, and the world after it has accepted a connection.\<close>

definition example_server :: tcp_server where
  "example_server = (TcpServer_new 0 ''srv'' \<lparr>acc_channel = Channel_new 0 3, acc_callback = False, is_listening = False\<rparr>)
     \<lparr>thread_pool := pool_start (\<lambda>i. i + 1) (setThreadNum 1 (EventLoopThreadPool_new 0))\<rparr>"

lemma example_world:
  "\<exists>w c. server_reach example_server w \<and> pending w 1 = [TEstablished 1] \<and> objects w 1 = Some (1, c) \<and>
     state_of c = Connecting"
proof -
  let ?w = "fresh_world example_server"
  have i: "server_reach example_server ?w"
    by (rule server_reach.init) (simp_all add: example_server_def TcpServer_new_def)
  have s: "next_conn_id example_server = 1" "server_loop example_server = 0" "connections example_server = Map.empty"
    "acc_callback (server_acceptor example_server)"
    by (simp_all add: example_server_def TcpServer_new_def acc_setNewConnectionCallback_def)
  have nl: "fst (getNextLoop (thread_pool example_server)) = 1"
    by (simp add: example_server_def getNextLoop_def pool_start_def setThreadNum_def EventLoopThreadPool_new_def
        loop_index_def)
  obtain pool where nl2: "getNextLoop (thread_pool example_server) = (1, pool)" using nl by (metis prod.collapse)
  obtain c where c: "TcpConnection_new (loop_tid 1) 1 1 (conn_name_of example_server 1) 7 = Inr c" "state_of c = Connecting"
    using TcpConnection_new_ok by blast
  have "acceptor_readable (server_loop (server ?w)) 7 ?w = Inr (queue_task 1 (TEstablished 1)
      (?w\<lparr>server := example_server\<lparr>next_conn_id := 2, thread_pool := pool,
         connections := [conn_name_of example_server 1 \<mapsto> 1]\<rparr>,
       objects := [1 \<mapsto> (1, set_callbacks example_server c)]\<rparr>))" (is "_ = Inr ?w1")
    using c(1) nl2 by (simp add: acceptor_readable_def Acceptor_handleRead_def s(4) newConnection_def fresh_world_def s Let_def run_in_def)
  from server_reach.step [OF i server_step.accept [OF this]] show ?thesis
    using c(2) by (intro exI [of _ ?w1] exI [of _ "set_callbacks example_server c"])
      (simp add: queue_task_def fresh_world_def)
qed

text \<open>
  Property C12. The server never brings the process down over the order of events: in every
  reachable situation, whatever task is first in the queue of any loop runs without an abort or
  a fault (so \<open>connectionEstablished\<close> always finds a connection that is still connecting), every
  readable event, the end of the stream included, on a connection that is interested in reading
  is handled (so \<open>handleClose\<close> always finds a live connection), and the listening socket can be
  served, whatever \<open>accept4\<close> returns, until the counter of connections reaches the maximum of \<open>int\<close>.
\<close>
theorem server_never_aborts:
  assumes "server_reach s w"
  shows "(pending w l = t # ts \<longrightarrow> is_ok (exec_task t (w\<lparr>pending := (pending w)(l := ts)\<rparr>))) \<and>
    (objects w cid = Some (k, c) \<longrightarrow> isReading (chan c) \<longrightarrow> read_ok r (receive_buffer c) \<longrightarrow>
       is_ok (conn_readable cid r w)) \<and>
    (acc_callback (server_acceptor (server w)) \<longrightarrow> next_conn_id (server w) < 2147483647 \<longrightarrow>
       is_ok (acceptor_readable (server_loop (server w)) conn_fd w))"
  using task_inv [OF server_reach_inv [OF assms], of l t ts]
    readable_inv [OF server_reach_inv [OF assms], of cid k c r]
    accept_inv [OF server_reach_inv [OF assms], of conn_fd]
  by (auto simp: is_ok_iff acceptor_readable_def Acceptor_handleRead_def)

theorem server_never_aborts_witness:
  "\<exists>w. server_reach example_server w \<and> pending w 1 = [TEstablished 1] \<and>
     is_ok (exec_task (TEstablished 1) (w\<lparr>pending := (pending w)(1 := [])\<rparr>))"
proof -
  obtain w where w: "server_reach example_server w" "pending w 1 = [TEstablished 1]" using example_world by blast
  with server_never_aborts [OF w(1), of 1 "TEstablished 1" "[]"] show ?thesis by auto
qed

text \<open>
  Property C11. The life of a connection in the server, at every reachable moment; the user calls
  it in the thread of its loop. While it is connecting it is in the server's table, its
  \<open>connectionEstablished\<close> waits exactly once in its own loop, and no task was executed for it.
  While it is connected or disconnecting it is in the table, no task waits for it, and only
  \<open>connectionEstablished\<close> was executed, once. Once disconnected it is out of all interest, and its
  farewell is at exactly one of three places: the removal waits, once, in the server's loop and
  it is still in the table; or the removal was executed, once, it is out of the table, and
  \<open>connectionDestroyed\<close> waits, once, in its own loop; or both were executed, once each.
\<close>
theorem server_connection_lifecycle:
  assumes "server_reach s w" and "objects w cid = Some (l, c)"
  shows "(state_of c = Connecting \<longrightarrow>
       connections (server w) (conn_name c) = Some cid \<and>
       n_est cid l w = 1 \<and> n_rem cid w = 0 \<and> n_des cid l w = 0 \<and> past cid w = (0, 0, 0)) \<and>
    (state_of c = Connected \<or> state_of c = Disconnecting \<longrightarrow>
       connections (server w) (conn_name c) = Some cid \<and>
       n_est cid l w = 0 \<and> n_rem cid w = 0 \<and> n_des cid l w = 0 \<and> past cid w = (1, 0, 0)) \<and>
    (state_of c = Disconnected \<longrightarrow> \<not> isReading (chan c) \<and> n_est cid l w = 0 \<and>
       (connections (server w) (conn_name c) = Some cid \<longleftrightarrow> n_rem cid w = 1) \<and>
       ((n_rem cid w, n_des cid l w, past cid w) = (1, 0, 1, 0, 0) \<or>
        (n_rem cid w, n_des cid l w, past cid w) = (0, 1, 1, 1, 0) \<or>
        (n_rem cid w, n_des cid l w, past cid w) = (0, 0, 1, 1, 1)))"
proof -
  have "conn_phase_ok w cid" using server_reach_inv [OF assms(1)] world_inv_iff [of w cid] by simp
  then show ?thesis using assms(2)
    by (auto simp: conn_phase_ok_def phase_ok_def registered_def split: conn_state.splits)
qed

theorem server_connection_lifecycle_witness:
  "\<exists>w c. server_reach example_server w \<and> objects w 1 = Some (1, c) \<and> state_of c = Connecting \<and> n_est 1 1 w = 1"
proof -
  obtain w c where w: "server_reach example_server w" "objects w 1 = Some (1, c)" "state_of c = Connecting"
    using example_world by blast
  with server_connection_lifecycle [OF w(1,2)] show ?thesis by blast
qed

text \<open>
  Property C13. What the server has set in motion comes to an end, whichever loops run in which
  order: every course of task executions is finite, bounded by the work in the queues; it can
  only stop when all queues are empty; and then no connection is left half-way: each one is
  established, and the server's table holds exactly those that are not disconnected.
\<close>
theorem server_queues_drain:
  assumes "server_reach s w" and "(task_step ^^ n) w w'"
  shows "n \<le> work w \<and>
    ((\<nexists>v. task_step w' v) \<longrightarrow> (\<forall>l. pending w' l = []) \<and>
      (\<forall>cid l c. objects w' cid = Some (l, c) \<longrightarrow> state_of c \<noteq> Connecting \<and>
        (connections (server w') (conn_name c) = Some cid \<longleftrightarrow> state_of c \<noteq> Disconnected)))"
proof -
  have r: "server_reach s w'" "n + work w' = work w" using task_steps [OF assms] by simp_all
  have "state_of c \<noteq> Connecting \<and> (connections (server w') (conn_name c) = Some cid \<longleftrightarrow> state_of c \<noteq> Disconnected)"
    if "\<forall>l. pending w' l = []" "objects w' cid = Some (l, c)" for cid l c
  proof -
    have "conn_phase_ok w' cid" using server_reach_inv [OF r(1)] world_inv_iff [of w' cid] by simp
    with that show ?thesis
      by (auto simp: conn_phase_ok_def phase_ok_def registered_def n_est_def n_rem_def split: conn_state.splits)
  qed
  moreover have "\<forall>l. pending w' l = []" if "\<nexists>v. task_step w' v" using task_step_possible [OF r(1)] that by blast
  ultimately show ?thesis using r(2) by (metis le_add1)
qed

theorem server_queues_drain_witness:
  "\<exists>w w'. server_reach example_server w \<and> task_step w w' \<and> 1 \<le> work w"
proof -
  obtain w where w: "server_reach example_server w" "pending w 1 = [TEstablished 1]" using example_world by blast
  then obtain w' where s: "task_step w w'" using task_step_possible by (metis list.distinct(1))
  then have "(task_step ^^ 1) w w'" by (metis relpowp_1)
  from server_queues_drain [OF w(1) this] w(1) s show ?thesis by blast
qed

section \<open>After the destruction of a server\<close>

text \<open>
  Property C40. A server (or acceptor) that is destroyed while its loop lives on leaves a dangling
  channel behind. Under \<open>poll\<close> the entry of the closed descriptor is still in the table, the kernel
  reports \<open>POLLNVAL\<close> for it, and the next iteration uses the freed channel. Under \<open>epoll\<close> the table
  still has the descriptor's number, so a later channel that is given the same number is
  registered with \<open>EPOLL_CTL_MOD\<close>, which fails: whatever its interest, it is not watched.
\<close>
theorem destroyed_acceptor_stays_registered:
  assumes "h c = Some ch"
    and "poll_inv (h, p)" and "channels p (fd_of ch) = Some c" and "pfd (pollFdList p ! nat (index_of ch)) = fd_of ch"
    and "channel_map q (fd_of ch) = Some c" and "d \<noteq> c" and "fd_of ch' = fd_of ch"
  shows "loop_round run (Polled 1 ((replicate (length (pollFdList p)) 0)[nat (index_of ch) := 0x20])) wr
      (Acceptor_delete c (h, PollBackend p)) = Inl UseAfterFree \<and>
    (\<exists>h1 q1. Acceptor_delete c (h, EpollBackend q) = (h1, EpollBackend q1) \<and>
       (\<exists>q2. Epoller_updateChannel ctl_ok True d (h1(d \<mapsto> ch'), q1) = Inr (h1(d \<mapsto> ch'), q2) \<and>
          interest_list q2 (fd_of ch) = None))"
proof
  let ?L = "pollFdList p" and ?i = "nat (index_of ch)" and ?h = "h(c := None)"
  let ?rs = "(replicate (length ?L) 0)[?i := 0x20] :: 16 word list"
  let ?list = "map2 (\<lambda>e r. e\<lparr>prevents := r\<rparr>) ?L ?rs"
  have i: "?i < length ?L" using poll_registered [OF assms(2,3,1)] by simp
  have list: "?list = take ?i ?list @ ?list ! ?i # drop (Suc ?i) ?list" by (rule id_take_nth_drop) (use i in simp)
  have "\<forall>e \<in> set (take ?i ?list). \<not> reported e"
    by (auto simp: in_set_conv_nth reported_def)
  moreover have "reported (?list ! ?i)" "pfd (?list ! ?i) = fd_of ch" using i assms(4) by (simp_all add: reported_def)
  ultimately have "Poller_fillActiveChannels (channels p) ?list 1 ?h [] = Inl UseAfterFree"
    using fill_dangling [of "take ?i ?list" "?list ! ?i" "channels p" c ?h 1 "drop (Suc ?i) ?list" "[]"] list assms(3) by simp
  then show "loop_round run (Polled 1 ?rs) wr (Acceptor_delete c (h, PollBackend p)) = Inl UseAfterFree"
    by (simp add: loop_round_def backend_poll_def Acceptor_delete_def Poller_poll_def Let_def)
next
  show "\<exists>h1 q1. Acceptor_delete c (h, EpollBackend q) = (h1, EpollBackend q1) \<and>
       (\<exists>q2. Epoller_updateChannel ctl_ok True d (h1(d \<mapsto> ch'), q1) = Inr (h1(d \<mapsto> ch'), q2) \<and>
          interest_list q2 (fd_of ch) = None)"
    using assms(1,5-7)
    by (simp add: Acceptor_delete_def Epoller_updateChannel_def epoll_ctl_def domIff Let_def)
qed

theorem destroyed_acceptor_stays_registered_witness:
  "loop_round (\<lambda>_ _. Inr) (Polled 1 [0x20]) WaitFailed
     (Acceptor_delete 4 ([4 \<mapsto> (Channel_new 0 7)\<lparr>index_of := 0\<rparr>],
        PollBackend \<lparr>channels = [7 \<mapsto> 4], pollFdList = [\<lparr>pfd = 7, pevents = 3, prevents = 0\<rparr>]\<rparr>)) = Inl UseAfterFree"
proof -
  let ?ch = "(Channel_new 0 7)\<lparr>index_of := 0\<rparr>"
  let ?p = "\<lparr>channels = [7 \<mapsto> 4], pollFdList = [\<lparr>pfd = 7, pevents = 3, prevents = 0\<rparr>]\<rparr>"
  have "poll_inv ([4 \<mapsto> ?ch], ?p)"
    by (auto simp: poll_inv_def real_fd_def Channel_new_def NOT_FILL_def split: if_splits)
  then show ?thesis
    using destroyed_acceptor_stays_registered [of "[4 \<mapsto> ?ch]" 4 ?ch ?p
        "Epoller_new\<lparr>channel_map := [7 \<mapsto> 4]\<rparr>" 5 ?ch "\<lambda>_ _. Inr" WaitFailed True]
    by (simp add: Channel_new_def)
qed

end
