(* ===== verification/TcpClient.thy ===== *)
theory TcpClient
  imports TcpConnection Connector
begin

text \<open>
  \<open>net/TcpClient.cpp\<close>: a client with at most one connection, made by its connector. Everything runs in
  the thread of the client's loop. \<open>dying\<close> holds the connections whose \<open>connectionDestroyed\<close> waits in
  the queue of the loop. As for the connector, the answers of the kernel are inputs: \<open>s\<close> and \<open>err\<close> are
  the descriptor and the result of \<open>connect\<close> for an attempt that starts.
\<close>

section \<open>State and operations\<close>

record tcp_client =
  client_name :: string
  client_thread :: tid
  client_loop :: nat
  client_connector :: connector
  cl_message :: "nat option"
  cl_connection_cb :: "nat option"
  cl_write_complete :: "nat option"
  cl_high_water :: "nat option"
  cl_mark :: size_t
  connection :: "(conn_id \<times> tcp_connection) option"
  client_next_id :: "32 word"
  retry_flag :: bool
  connect_flag :: bool
  dying :: "tcp_connection list"

definition CLIENT_CLOSE :: nat where
  "CLIENT_CLOSE = 0"

definition TcpClient_new :: "tid \<Rightarrow> nat \<Rightarrow> string \<Rightarrow> tcp_client" where
  "TcpClient_new tid loop nm =
     \<lparr>client_name = nm, client_thread = tid, client_loop = loop,
      client_connector = setNewConnectionCallback (Connector_new loop),
      cl_message = None, cl_connection_cb = None, cl_write_complete = None, cl_high_water = None,
      cl_mark = 64 * 1024 * 1024, connection = None, client_next_id = 0, retry_flag = False,
      connect_flag = False, dying = []\<rparr>"

text \<open>The identifier of a connection comes from an atomic \<open>int\<close>, whose increment wraps around.\<close>

definition client_setConnectionCallback :: "nat option \<Rightarrow> tcp_client \<Rightarrow> tcp_client" where
  "client_setConnectionCallback cb k = k\<lparr>cl_connection_cb := cb\<rparr>"

definition client_setMessageCallback :: "nat option \<Rightarrow> tcp_client \<Rightarrow> tcp_client" where
  "client_setMessageCallback cb k = k\<lparr>cl_message := cb\<rparr>"

definition client_setWriteCompleteCallback :: "nat option \<Rightarrow> tcp_client \<Rightarrow> tcp_client" where
  "client_setWriteCompleteCallback cb k = k\<lparr>cl_write_complete := cb\<rparr>"

definition client_setHighWaterMarkCallback :: "nat option \<Rightarrow> size_t \<Rightarrow> tcp_client \<Rightarrow> tcp_client" where
  "client_setHighWaterMarkCallback cb n k = k\<lparr>cl_mark := n, cl_high_water := cb\<rparr>"

definition setRetry :: "bool \<Rightarrow> tcp_client \<Rightarrow> tcp_client" where
  "setRetry on k = k\<lparr>retry_flag := on\<rparr>"

definition with_connector :: "cn_result \<Rightarrow> tcp_client \<Rightarrow> (cn_effect list \<times> tcp_client) res" where
  "with_connector r k = bind_res r (\<lambda>(eff, c). Inr (eff, k\<lparr>client_connector := c\<rparr>))"

definition client_connect :: "fd \<Rightarrow> errno \<Rightarrow> tcp_client \<Rightarrow> (cn_effect list \<times> tcp_client) res" where
  "client_connect s err k =
     (let k1 = k\<lparr>connect_flag := True\<rparr>
      in with_connector (Connector_start s err (client_connector k1)) k1)"

definition client_stop :: "tcp_client \<Rightarrow> (cn_effect list \<times> tcp_client) res" where
  "client_stop k =
     (let k1 = k\<lparr>connect_flag := False\<rparr>
      in with_connector (Connector_stop (client_connector k1)) k1)"

definition client_disconnect :: "tcp_client \<Rightarrow> (effect list \<times> tcp_client) res" where
  "client_disconnect k =
     (let k1 = k\<lparr>connect_flag := False\<rparr>
      in case connection k1 of
           None \<Rightarrow> Inr ([], k1)
         | Some (cid, c) \<Rightarrow>
             bind_res (shutdown (client_thread k1) c) (\<lambda>(eff, c1). Inr (eff, k1\<lparr>connection := Some (cid, c1)\<rparr>)))"

text \<open>Only callbacks that are set are handed on; the close callback always is.\<close>

definition client_callbacks :: "tcp_client \<Rightarrow> tcp_connection \<Rightarrow> tcp_connection" where
  "client_callbacks k c0 =
     (let c1 = (if cl_connection_cb k \<noteq> None then setConnectionCallback (cl_connection_cb k) c0 else c0);
          c2 = (if cl_message k \<noteq> None then setMessageCallback (cl_message k) c1 else c1);
          c3 = (if cl_high_water k \<noteq> None then setHighWaterCallback (cl_high_water k) (cl_mark k) c2 else c2);
          c4 = (if cl_write_complete k \<noteq> None then setWriteCompleteCallback (cl_write_complete k) c3 else c3)
      in setCloseCallback (Some CLIENT_CLOSE) c4)"

definition onConnection :: "fd \<Rightarrow> tcp_client \<Rightarrow> (effect list \<times> tcp_client) res" where
  "onConnection s k =
     (let nm = client_name k @ ''#'' @ dec_int (sint (client_next_id k)); cid = unat (client_next_id k);
          k1 = k\<lparr>client_next_id := client_next_id k + 1\<rparr>
      in bind_res (TcpConnection_new (client_thread k) (client_loop k) cid nm s) (\<lambda>c0.
           bind_res (connectionEstablished (client_thread k) cid (client_callbacks k c0)) (\<lambda>(eff, c).
             Inr (eff, k1\<lparr>connection := Some (cid, c)\<rparr>))))"

text \<open>
  The channel of the connector is writable, with the pending error \<open>err\<close> of its socket. \<open>onConnection\<close>
  itself makes no call on the connector; the calls a connection callback of the user makes on the
  client are taken as events of their own, after this one.
\<close>

definition connector_writable :: "errno \<Rightarrow> tcp_client \<Rightarrow> (effect list \<times> tcp_client) res" where
  "connector_writable err k =
     bind_res (with_connector (Connector_handleWritable [] err (client_connector k)) k) (\<lambda>(eff, k1).
       (case filter (\<lambda>e. case e of NewConnection _ \<Rightarrow> True | _ \<Rightarrow> False) eff of
          NewConnection s # _ \<Rightarrow> onConnection s k1
        | _ \<Rightarrow> Inr ([], k1)))"

text \<open>The close callback of a connection.\<close>

definition client_on_close :: "fd \<Rightarrow> errno \<Rightarrow> tcp_connection \<Rightarrow> tcp_client \<Rightarrow> (cn_effect list \<times> tcp_client) res" where
  "client_on_close s err c k =
     (let k1 = k\<lparr>connection := None, dying := dying k @ [c]\<rparr>
      in if retry_flag k1 \<and> connect_flag k1
         then with_connector (Connector_restart s err (client_connector k1)) k1
         else Inr ([], k1))"

definition client_readable ::
  "fd \<Rightarrow> errno \<Rightarrow> read_result \<Rightarrow> tcp_client \<Rightarrow> (cn_effect list \<times> tcp_client) res" where
  "client_readable s err r k =
     (case connection k of
        None \<Rightarrow> Inl NullDereference
      | Some (cid, c) \<Rightarrow>
          bind_res (handleReadable (client_thread k) r c) (\<lambda>(eff, c1).
            if CallClose CLIENT_CLOSE \<in> set eff then client_on_close s err c1 k
            else Inr ([], k\<lparr>connection := Some (cid, c1)\<rparr>)))"

text \<open>The queued \<open>connectionDestroyed\<close>.\<close>

definition destroy_next :: "tcp_client \<Rightarrow> (effect list \<times> tcp_client) res" where
  "destroy_next k =
     (case dying k of
        [] \<Rightarrow> Inr ([], k)
      | c # cs \<Rightarrow> bind_res (connectionDestroyed (client_thread k) c) (\<lambda>(eff, _). Inr (eff, k\<lparr>dying := cs\<rparr>)))"

text \<open>The destructor, in the loop's thread.\<close>

definition TcpClient_delete :: "tcp_client \<Rightarrow> (effect list \<times> connector) res" where
  "TcpClient_delete k =
     (case connection k of
        Some (cid, c) \<Rightarrow>
          bind_res (connectionDestroyed (client_thread k) (setCloseCallback (Some (Suc CLIENT_CLOSE)) c))
            (\<lambda>(eff, _). Inr (eff, client_connector k))
      | None \<Rightarrow> bind_res (Connector_stop (client_connector k)) (\<lambda>(_, c). Inr ([], c)))"

section \<open>Properties\<close>

text \<open>A client whose connection stands: what \<open>onConnection\<close> leaves.\<close>

definition client_up :: "tcp_client \<Rightarrow> bool" where
  "client_up k \<longleftrightarrow> cn_inv (client_connector k) \<and> cn_state (client_connector k) = C_Connected \<and>
     (case connection k of
        None \<Rightarrow> False
      | Some (cid, c) \<Rightarrow> loop_thread c = client_thread k \<and> close_callback c = Some CLIENT_CLOSE \<and>
          (state_of c = Connected \<or> state_of c = Disconnecting) \<and> buf_inv (receive_buffer c))"

lemma client_callbacks_fields [simp]:
  "loop_thread (client_callbacks k c) = loop_thread c" "state_of (client_callbacks k c) = state_of c"
  "close_callback (client_callbacks k c) = Some CLIENT_CLOSE" "chan (client_callbacks k c) = chan c"
  "receive_buffer (client_callbacks k c) = receive_buffer c"
  by (simp_all add: client_callbacks_def setMessageCallback_def setConnectionCallback_def
      setWriteCompleteCallback_def setCloseCallback_def setHighWaterCallback_def Let_def)

lemma client_conn_new:
  "\<exists>c. TcpConnection_new tid l cid nm fd = Inr c \<and> loop_thread c = tid \<and> state_of c = Connecting \<and>
     buf_inv (receive_buffer c) \<and> \<not> isReading (chan c)"
proof -
  obtain b where "Buffer_new INITIALIZE_SIZE = Inr b" "buf_inv b"
    using Buffer_new_ok [of INITIALIZE_SIZE] by (auto simp: INITIALIZE_SIZE_def limit_defs)
  then show ?thesis
    by (simp add: TcpConnection_new_def isReading_def setReadCallback_def Channel_new_def kNoneEvent_def)
qed

text \<open>
  When the connector's socket becomes writable without an error, the client ends up
  with a connection that is connected, reads, and will report its end to the client: the socket
  is handed over once, the connector holds nothing any more, and the connection callback is
  called if one was set.
\<close>
theorem client_establishes_connection:
  assumes "cn_inv (client_connector k)" and "cn_state (client_connector k) = C_Connecting"
    and "cn_callback (client_connector k)"
  shows "\<exists>eff k' cid c s. connector_writable 0 k = Inr (eff, k') \<and> client_up k' \<and>
    connection k' = Some (cid, c) \<and> state_of c = Connected \<and> isReading (chan c) \<and>
    cn_socket (client_connector k) = Some s \<and>
    handed (client_connector k') = handed (client_connector k) @ [s] \<and> cn_socket (client_connector k') = None \<and>
    eff = UpdateChannel (events (chan c)) # opt_effect CallConnection (connection_callback c)"
proof -
  let ?c = "client_connector k"
  obtain s ch where s: "cn_socket ?c = Some s" "cn_channel ?c = Some ch"
    using assms(1,2) unfolding cn_inv_def consistent_def by auto
  let ?c1 = "?c\<lparr>cn_state := C_Connected, cn_channel := None, handed := handed ?c @ [s], cn_socket := None\<rparr>"
  have w: "Connector_handleWritable [] 0 ?c =
      Inr ([CnUpdateChannel (events (ignoreAll ch)), CnRemoveChannel, NewConnection s], ?c1)"
    using s assms(3) by (simp add: Connector_handleWritable_def resetChannel_def cn_then_def reset_socket_def)
  have inv1: "cn_inv ?c1" by (rule handleWritable_inv [OF assms(1) _ w]) simp
  let ?k1 = "k\<lparr>client_connector := ?c1\<rparr>"
  obtain c where c: "TcpConnection_new (client_thread k) (client_loop k) (unat (client_next_id k))
      (client_name k @ ''#'' @ dec_int (sint (client_next_id k))) s = Inr c" "loop_thread c = client_thread k"
    "state_of c = Connecting" "buf_inv (receive_buffer c)"
    using client_conn_new by blast
  let ?d = "client_callbacks ?k1 c"
  let ?e = "?d\<lparr>state_of := Connected, chan := listenTillReadable (tie (unat (client_next_id k)) (chan c))\<rparr>"
  have "connector_writable 0 k = Inr (UpdateChannel (events (chan ?e)) # opt_effect CallConnection (connection_callback ?e),
      ?k1\<lparr>client_next_id := client_next_id k + 1, connection := Some (unat (client_next_id k), ?e)\<rparr>)"
    using c by (simp add: connector_writable_def with_connector_def w onConnection_def connectionEstablished_def
        in_loop_def Let_def)
  then show ?thesis using s inv1 c by (simp add: client_up_def)
qed

definition connecting_client :: tcp_client where
  "connecting_client = (TcpClient_new 1 0 ''cl'')\<lparr>connect_flag := True, client_connector :=
     snd (case Connector_start 5 115 (setNewConnectionCallback (Connector_new 0)) of Inr r \<Rightarrow> r)\<rparr>"

lemma connecting_client_ok:
  "client_connect 5 115 (TcpClient_new 1 0 ''cl'') = Inr ([CnUpdateChannel kWriteEvent], connecting_client)"
  "cn_inv (client_connector connecting_client)" "cn_state (client_connector connecting_client) = C_Connecting"
  "cn_callback (client_connector connecting_client)"
proof -
  let ?c = "setNewConnectionCallback (Connector_new 0)"
  obtain c where c: "Connector_start 5 115 ?c = Inr ([CnUpdateChannel kWriteEvent], c)"
    "cn_state c = C_Connecting" "cn_callback c"
    by (simp add: Connector_start_def startInLoop_def cn_connect_socket_def in_progress_def connecting_def
        setNewConnectionCallback_def Connector_new_def reset_socket_def listenTillWritable_def
        setWriteCallback_def Channel_new_def kNoneEvent_def Let_def)
  show "client_connect 5 115 (TcpClient_new 1 0 ''cl'') = Inr ([CnUpdateChannel kWriteEvent], connecting_client)"
    using c(1) by (simp add: client_connect_def with_connector_def connecting_client_def TcpClient_new_def Let_def)
  have "cn_step (Start 5 115) ?c = Inr ([CnUpdateChannel kWriteEvent], c)" using c(1) by simp
  then have "cn_reach True c" by (rule cn_reach.step [OF cn_reach.init, rotated 2]) simp_all
  then show "cn_inv (client_connector connecting_client)" "cn_state (client_connector connecting_client) = C_Connecting"
    "cn_callback (client_connector connecting_client)"
    using c cn_reach_inv by (simp_all add: connecting_client_def)
qed

theorem client_establishes_connection_witness:
  "\<exists>eff k' cid c. connector_writable 0 connecting_client = Inr (eff, k') \<and>
     connection k' = Some (cid, c) \<and> state_of c = Connected"
  using client_establishes_connection [OF connecting_client_ok(2-4)] by blast

lemma client_up_reachable: "\<exists>eff k. connector_writable 0 connecting_client = Inr (eff, k) \<and> client_up k \<and> connect_flag k \<and> \<not> retry_flag k"
proof -
  let ?c = "client_connector connecting_client"
  obtain s ch where s: "cn_socket ?c = Some s" "cn_channel ?c = Some ch"
    using connecting_client_ok(2,3) unfolding cn_inv_def consistent_def by auto
  let ?c1 = "?c\<lparr>cn_state := C_Connected, cn_channel := None, handed := handed ?c @ [s], cn_socket := None\<rparr>"
  let ?k1 = "connecting_client\<lparr>client_connector := ?c1\<rparr>"
  have w: "Connector_handleWritable [] 0 ?c =
      Inr ([CnUpdateChannel (events (ignoreAll ch)), CnRemoveChannel, NewConnection s], ?c1)"
    using s connecting_client_ok(4) by (simp add: Connector_handleWritable_def resetChannel_def cn_then_def reset_socket_def)
  have inv1: "cn_inv ?c1" by (rule handleWritable_inv [OF connecting_client_ok(2) _ w]) simp
  obtain c where c: "TcpConnection_new 1 0 0 (''cl'' @ ''#'' @ dec_int 0) s = Inr c" "loop_thread c = 1"
    "state_of c = Connecting" "buf_inv (receive_buffer c)" using client_conn_new by blast
  have "connector_writable 0 connecting_client = onConnection s ?k1"
    by (simp add: connector_writable_def with_connector_def w)
  then show ?thesis using c inv1
    by (simp add: onConnection_def connectionEstablished_def in_loop_def connecting_client_def TcpClient_new_def
        client_up_def Let_def)
qed

lemma client_eof:
  assumes "client_up k" and "connection k = Some (cid, c)"
  shows "\<exists>eff b. handleReadable (client_thread k) (ReadBytes []) c = Inr (eff,
      c\<lparr>receive_buffer := b, state_of := Disconnected, chan := ignoreAll (chan c)\<rparr>) \<and> CallClose CLIENT_CLOSE \<in> set eff"
proof -
  have c: "loop_thread c = client_thread k" "close_callback c = Some CLIENT_CLOSE"
    "state_of c = Connected \<or> state_of c = Disconnecting" "buf_inv (receive_buffer c)"
    using assms by (auto simp: client_up_def)
  have "has_room 0 (receive_buffer c)" using buf_invD [OF c(4)] by (simp add: has_room_def)
  with readFd_ok [OF c(4), of "[]"] obtain b where "readFd (ReadBytes []) (receive_buffer c) = Inr (0, None, b)"
    by auto
  then show ?thesis using c by (auto simp: handleReadable_def handleClose_def in_loop_def Let_def)
qed

text \<open>
  Property C25. When the peer closes the client's connection, the client forgets it and queues its
  destruction exactly once. If the client is to retry and has not been told to disconnect, it
  starts a new attempt at once, with the retry delay back at its default; otherwise the
  connector is left as it was.
\<close>
theorem client_reacts_to_close:
  assumes "client_up k" and "connection k = Some (cid, c)" and "s \<noteq> -1"
  shows "\<exists>eff k' c'. client_readable s 115 (ReadBytes []) k = Inr (eff, k') \<and> connection k' = None \<and>
    dying k' = dying k @ [c'] \<and> state_of c' = Disconnected \<and>
    (if retry_flag k \<and> connect_flag k
     then cn_state (client_connector k') = C_Connecting \<and> cn_socket (client_connector k') = Some s \<and>
       retry_delay (client_connector k') = DEFAULT_RETRY_DELAY
     else client_connector k' = client_connector k)"
proof -
  obtain eff b where h: "handleReadable (client_thread k) (ReadBytes []) c = Inr (eff,
      c\<lparr>receive_buffer := b, state_of := Disconnected, chan := ignoreAll (chan c)\<rparr>)" "CallClose CLIENT_CLOSE \<in> set eff"
    using client_eof [OF assms(1,2)] by blast
  have "cn_socket (client_connector k) = None"
    using assms(1) unfolding client_up_def cn_inv_def consistent_def by auto
  then show ?thesis using h assms(2,3)
    by (simp add: client_readable_def client_on_close_def with_connector_def Connector_restart_def startInLoop_def
        cn_connect_socket_def in_progress_def connecting_def reset_socket_None Let_def)
qed

theorem client_reacts_to_close_witness:
  "\<exists>k eff k'. client_up k \<and> client_readable 6 115 (ReadBytes []) k = Inr (eff, k') \<and> connection k' = None"
proof -
  obtain k where k: "client_up k" using client_up_reachable by blast
  then obtain cid c where "connection k = Some (cid, c)" by (auto simp: client_up_def split: option.splits)
  from client_reacts_to_close [OF k this, of 6] k show ?thesis by auto
qed

text \<open>
  A client without automatic retry cannot connect a second time: after its connection
  has closed, the connector still believes to be connected, and \<open>connect()\<close> aborts the process.
\<close>
theorem connect_after_close_aborts:
  assumes "client_up k" and "\<not> retry_flag k" and "client_readable s err (ReadBytes []) k = Inr (eff, k')"
  shows "connection k' = None \<and> client_connect s' err' k' = Inl Abort"
proof -
  obtain cid c where conn: "connection k = Some (cid, c)"
    using assms(1) by (auto simp: client_up_def split: option.splits)
  obtain e b where h: "handleReadable (client_thread k) (ReadBytes []) c = Inr (e,
      c\<lparr>receive_buffer := b, state_of := Disconnected, chan := ignoreAll (chan c)\<rparr>)" "CallClose CLIENT_CLOSE \<in> set e"
    using client_eof [OF assms(1) conn] by blast
  have "client_connector k' = client_connector k" "connection k' = None"
    using assms(2,3) h conn by (auto simp: client_readable_def client_on_close_def Let_def)
  moreover have "cn_state (client_connector k) = C_Connected" using assms(1) by (simp add: client_up_def)
  ultimately show ?thesis
    by (simp add: client_connect_def with_connector_def Connector_start_def startInLoop_def Let_def)
qed

theorem connect_after_close_aborts_witness:
  "\<exists>k eff k'. client_up k \<and> client_readable 6 115 (ReadBytes []) k = Inr (eff, k') \<and> client_connect 7 115 k' = Inl Abort"
proof -
  obtain k where k: "client_up k" "\<not> retry_flag k" using client_up_reachable by blast
  then obtain cid c where conn: "connection k = Some (cid, c)" by (auto simp: client_up_def split: option.splits)
  obtain e b where "handleReadable (client_thread k) (ReadBytes []) c = Inr (e,
      c\<lparr>receive_buffer := b, state_of := Disconnected, chan := ignoreAll (chan c)\<rparr>)" "CallClose CLIENT_CLOSE \<in> set e"
    using client_eof [OF k(1) conn] by blast
  then obtain eff k' where "client_readable 6 115 (ReadBytes []) k = Inr (eff, k')"
    using conn k(2) by (simp add: client_readable_def client_on_close_def Let_def)
  from connect_after_close_aborts [OF k this] this k(1) show ?thesis by blast
qed

end
