(* ===== verification/LoopProgram.thy ===== *)
theory LoopProgram
  imports EventLoop
begin

text \<open>
  \<open>EventLoop::loop\<close> as the program it is: poll, the callbacks of the ready channels, the pending
  tasks, until \<open>quit_\<close> is found set. What comes from outside is a list with one entry per poll: the
  kernel's answer and the calls that other threads complete while the loop polls. A program that
  has used up the list is still running. What callbacks and tasks ask of their own loop is given
  by functions from invocations and tasks to calls. The program is a run of the atomic steps of
  \<open>EventLoop\<close>, so what holds under every interleaving holds of it.
\<close>

section \<open>The program\<close>

fun callback_of :: "invocation \<Rightarrow> callback" where
  "callback_of (OnError cb) = cb"
| "callback_of (OnRead cb) = cb"
| "callback_of (OnWrite cb) = cb"

text \<open>The callbacks of one round, one after the other; that of the wakeup channel reads the counter.\<close>

fun serve :: "(invocation \<Rightarrow> loop_call list) \<Rightarrow> invocation list \<Rightarrow> event_loop \<Rightarrow> event_loop" where
  "serve cb_calls [] s = s"
| "serve cb_calls (i # is) s =
     (let s1 = s\<lparr>pc := Handling (map callback_of is)\<rparr>
      in serve cb_calls is
           (if callback_of i = WakeupRead then handleWakeupRead s1
            else fold (do_loop_call (thread_id s1)) (cb_calls i) s1))"

text \<open>One poll: the answers of \<open>poll\<close> and \<open>epoll_wait\<close>, and what other threads did meanwhile.\<close>

record poll_window =
  polled :: poll_result
  waited :: wait_result
  meanwhile :: "(tid \<times> loop_call) list"

definition interfere :: "(tid \<times> loop_call) list \<Rightarrow> event_loop \<Rightarrow> event_loop" where
  "interfere others s = fold (\<lambda>(tid, c). do_loop_call tid c) others s"

definition loop_iteration ::
  "cb_effect \<Rightarrow> (invocation \<Rightarrow> loop_call list) \<Rightarrow>
   (task \<Rightarrow> loop_call list) \<Rightarrow> poll_window \<Rightarrow> event_loop \<times> chan_heap \<times> backend \<Rightarrow>
   (event_loop \<times> chan_heap \<times> backend) res" where
  "loop_iteration run cb_calls task_calls ans = (\<lambda>(s, hb).
     bind_res (loop_round run (polled ans) (waited ans) hb) (\<lambda>(calls, hb1).
       Inr (executePendingTasks task_calls
              (serve cb_calls calls ((interfere (meanwhile ans) s)\<lparr>pc := Handling (map callback_of calls)\<rparr>)), hb1)))"

fun loop_while ::
  "cb_effect \<Rightarrow> (invocation \<Rightarrow> loop_call list) \<Rightarrow>
   (task \<Rightarrow> loop_call list) \<Rightarrow> poll_window list \<Rightarrow> event_loop \<times> chan_heap \<times> backend \<Rightarrow>
   (poll_window list \<times> event_loop \<times> chan_heap \<times> backend) option res" where
  "loop_while run cb_calls task_calls answers (s, hb) =
     (if quit_flag s then Inr (Some (answers, s\<lparr>is_running := False, pc := Outside\<rparr>, hb))
      else (case answers of
              [] \<Rightarrow> Inr None
            | ans # rest \<Rightarrow>
                bind_res (loop_iteration run cb_calls task_calls ans (s, hb))
                  (loop_while run cb_calls task_calls rest)))"

definition EventLoop_loop ::
  "cb_effect \<Rightarrow> (invocation \<Rightarrow> loop_call list) \<Rightarrow>
   (task \<Rightarrow> loop_call list) \<Rightarrow> tid \<Rightarrow> poll_window list \<Rightarrow> event_loop \<times> chan_heap \<times> backend \<Rightarrow>
   (poll_window list \<times> event_loop \<times> chan_heap \<times> backend) option res" where
  "EventLoop_loop run cb_calls task_calls tid answers = (\<lambda>(s, hb).
     if is_running s then Inr (Some (answers, s\<lparr>is_running := False\<rparr>, hb))
     else bind_res (assertInLoopThread tid s) (\<lambda>_.
            loop_while run cb_calls task_calls answers
              (s\<lparr>is_running := True, quit_flag := False, pc := Testing\<rparr>, hb)))"

section \<open>The program is a run of steps\<close>

text \<open>The loop's thread in the callbacks of a round, not in the middle of a call.\<close>

definition in_callbacks :: "callback list \<Rightarrow> event_loop \<Rightarrow> bool" where
  "in_callbacks cbs s \<longleftrightarrow> pc s = Handling cbs \<and> thread_id s \<notin> pushed s \<and> thread_id s \<notin> quitting s"

text \<open>What user code of the loop's thread does not change, and what it adds to the queue.\<close>

definition extends_queue :: "task list \<Rightarrow> event_loop \<Rightarrow> event_loop \<Rightarrow> bool" where
  "extends_queue ts s s' \<longleftrightarrow> loop_step\<^sup>*\<^sup>* s s' \<and> task_queue s' = task_queue s @ ts \<and>
     thread_id s' = thread_id s \<and> executed s' = executed s \<and> (quit_flag s \<longrightarrow> quit_flag s')"

lemma extends_queue_refl: "extends_queue [] s s"
  by (simp add: extends_queue_def)

lemma extends_queue_trans:
  "extends_queue ts s s1 \<Longrightarrow> extends_queue us s1 s2 \<Longrightarrow> extends_queue (ts @ us) s s2"
  by (auto simp: extends_queue_def)

lemma call_in_callbacks:
  assumes "in_callbacks cbs s" and "thread_id s = tid"
  shows "in_callbacks cbs (do_loop_call tid c s) \<and> extends_queue (queued_by [c]) s (do_loop_call tid c s)"
proof (cases c)
  case (QueueInLoop t)
  have "loop_step s (push_task tid t s)"
    using assms by (intro loop_step.push) (simp add: in_callbacks_def may_call_def user_code_def)
  moreover have "loop_step (push_task tid t s) (queueInLoop tid t s)"
    unfolding queueInLoop_def by (rule loop_step.wake) (simp add: push_task_def)
  ultimately have "loop_step\<^sup>*\<^sup>* s (queueInLoop tid t s)" by auto
  moreover have "in_callbacks cbs (queueInLoop tid t s)" "task_queue (queueInLoop tid t s) = task_queue s @ [t]"
    "thread_id (queueInLoop tid t s) = thread_id s" "executed (queueInLoop tid t s) = executed s"
    "quit_flag (queueInLoop tid t s) = quit_flag s"
    using assms by (simp_all add: in_callbacks_def queueInLoop_def push_task_def wake_after_push_def Let_def)
  ultimately show ?thesis using QueueInLoop by (simp add: extends_queue_def)
next
  case Quit
  have q: "quit tid s = set_quit tid s" "set_quit tid s = s\<lparr>quit_flag := True\<rparr>"
    using assms by (simp_all add: quit_def set_quit_def isInLoopThread_def)
  have "loop_step s (set_quit tid s)"
    using assms by (intro loop_step.quit_set) (simp add: in_callbacks_def may_call_def user_code_def)
  then show ?thesis using assms Quit q by (auto simp: extends_queue_def in_callbacks_def)
qed

lemma calls_in_callbacks:
  "in_callbacks cbs s \<Longrightarrow> thread_id s = tid \<Longrightarrow>
   in_callbacks cbs (fold (do_loop_call tid) cs s) \<and> extends_queue (queued_by cs) s (fold (do_loop_call tid) cs s)"
proof (induction cs arbitrary: s)
  case (Cons c cs)
  let ?s = "do_loop_call tid c s"
  have s1: "in_callbacks cbs ?s" "extends_queue (queued_by [c]) s ?s" using call_in_callbacks [OF Cons.prems] by auto
  then have "thread_id ?s = tid" using Cons.prems(2) by (simp add: extends_queue_def)
  moreover have "queued_by (c # cs) = queued_by [c] @ queued_by cs" by (cases c) simp_all
  ultimately show ?case using Cons.IH [OF s1(1)] extends_queue_trans [OF s1(2)] by simp
qed (simp add: extends_queue_refl)

text \<open>Other threads that are not inside a call of their own may call at any time.\<close>

definition others_free :: "(tid \<times> loop_call) list \<Rightarrow> event_loop \<Rightarrow> bool" where
  "others_free others s \<longleftrightarrow> (\<forall>tid \<in> fst ` set others. tid \<noteq> thread_id s \<and> tid \<notin> pushed s \<and> tid \<notin> quitting s)"

definition undisturbed :: "event_loop \<Rightarrow> event_loop \<Rightarrow> bool" where
  "undisturbed s s' \<longleftrightarrow> pc s' = pc s \<and> pushed s' = pushed s \<and> quitting s' = quitting s"

lemma other_call:
  assumes "tid \<noteq> thread_id s" and "tid \<notin> pushed s" and "tid \<notin> quitting s"
  shows "undisturbed s (do_loop_call tid c s) \<and> extends_queue (queued_by [c]) s (do_loop_call tid c s)"
proof (cases c)
  case (QueueInLoop t)
  have "loop_step s (push_task tid t s)"
    using assms by (intro loop_step.push) (simp add: may_call_def isInLoopThread_def)
  moreover have "loop_step (push_task tid t s) (queueInLoop tid t s)"
    unfolding queueInLoop_def by (rule loop_step.wake) (simp add: push_task_def)
  ultimately have "loop_step\<^sup>*\<^sup>* s (queueInLoop tid t s)" by auto
  moreover have "undisturbed s (queueInLoop tid t s)" "task_queue (queueInLoop tid t s) = task_queue s @ [t]"
    "thread_id (queueInLoop tid t s) = thread_id s" "executed (queueInLoop tid t s) = executed s"
    "quit_flag (queueInLoop tid t s) = quit_flag s"
    using assms by (simp_all add: undisturbed_def queueInLoop_def push_task_def wake_after_push_def Let_def)
  ultimately show ?thesis using QueueInLoop by (simp add: extends_queue_def)
next
  case Quit
  have q: "quit tid s = wake_after_quit tid (set_quit tid s)"
    using assms by (simp add: quit_def set_quit_def isInLoopThread_def)
  have "loop_step s (set_quit tid s)"
    using assms by (intro loop_step.quit_set) (simp add: may_call_def isInLoopThread_def)
  moreover have "loop_step (set_quit tid s) (quit tid s)"
    unfolding q using assms by (intro loop_step.quit_wake) (simp add: set_quit_def isInLoopThread_def)
  ultimately have "loop_step\<^sup>*\<^sup>* s (quit tid s)" by auto
  moreover have "undisturbed s (quit tid s)" "task_queue (quit tid s) = task_queue s"
    "thread_id (quit tid s) = thread_id s" "executed (quit tid s) = executed s" "quit_flag (quit tid s)"
    using assms by (simp_all add: q undisturbed_def set_quit_def wake_after_quit_def isInLoopThread_def)
  ultimately show ?thesis using Quit by (simp add: extends_queue_def)
qed

lemma interfere_steps:
  "others_free others s \<Longrightarrow> undisturbed s (interfere others s) \<and>
     extends_queue (queued_by (map snd others)) s (interfere others s)"
proof (induction others arbitrary: s)
  case Nil
  then show ?case by (simp add: interfere_def undisturbed_def extends_queue_refl)
next
  case (Cons tc others)
  obtain tid c where tc: "tc = (tid, c)" by (cases tc)
  let ?s = "do_loop_call tid c s"
  have s1: "undisturbed s ?s" "extends_queue (queued_by [c]) s ?s"
    using other_call [of tid s c] Cons.prems by (simp_all add: others_free_def tc)
  then have "others_free others ?s" using Cons.prems by (simp add: others_free_def undisturbed_def extends_queue_def)
  from Cons.IH [OF this] have "undisturbed ?s (interfere others ?s)"
    "extends_queue (queued_by (map snd others)) ?s (interfere others ?s)" by auto
  moreover have "queued_by (c # map snd others) = queued_by [c] @ queued_by (map snd others)" by (cases c) simp_all
  ultimately show ?case using s1 extends_queue_trans [OF s1(2)] by (simp add: tc interfere_def undisturbed_def)
qed

text \<open>What a round of callbacks queues.\<close>

definition queued_in_round :: "(invocation \<Rightarrow> loop_call list) \<Rightarrow> invocation list \<Rightarrow> task list" where
  "queued_in_round cb_calls is = concat (map (\<lambda>i. if callback_of i = WakeupRead then [] else queued_by (cb_calls i)) is)"

lemma serve_steps:
  "in_callbacks (map callback_of is) s \<Longrightarrow>
   in_callbacks [] (serve cb_calls is s) \<and> extends_queue (queued_in_round cb_calls is) s (serve cb_calls is s)"
proof (induction "is" arbitrary: s)
  case Nil
  then show ?case by (simp add: queued_in_round_def extends_queue_refl)
next
  case (Cons i "is")
  let ?s = "s\<lparr>pc := Handling (map callback_of is)\<rparr>"
  let ?w = "handleWakeupRead ?s" and ?c = "fold (do_loop_call (thread_id ?s)) (cb_calls i) ?s"
  have here: "in_callbacks (map callback_of is) ?s" using Cons.prems by (simp add: in_callbacks_def)
  have q: "queued_in_round cb_calls (i # is) =
      (if callback_of i = WakeupRead then [] else queued_by (cb_calls i)) @ queued_in_round cb_calls is"
    by (simp add: queued_in_round_def)
  show ?case
  proof (cases "callback_of i = WakeupRead")
    case True
    have "loop_step s ?w" using Cons.prems True by (intro loop_step.handle_wakeup) (simp_all add: in_callbacks_def loop_free_def)
    then have "extends_queue [] s ?w" by (auto simp: extends_queue_def handleWakeupRead_def)
    moreover have "in_callbacks (map callback_of is) ?w" using here by (simp add: in_callbacks_def handleWakeupRead_def)
    ultimately show ?thesis using Cons.IH [of ?w] extends_queue_trans [of "[]" s ?w] True q by (simp add: Let_def)
  next
    case False
    have "loop_step s ?s" using Cons.prems False
      by (intro loop_step.handle_other [of _ "callback_of i"]) (simp_all add: in_callbacks_def loop_free_def)
    then have "extends_queue [] s ?s" by (auto simp: extends_queue_def)
    moreover have c: "in_callbacks (map callback_of is) ?c \<and> extends_queue (queued_by (cb_calls i)) ?s ?c"
      by (rule calls_in_callbacks [OF here refl])
    ultimately have "extends_queue (queued_by (cb_calls i)) s ?c" using extends_queue_trans by fastforce
    with c Cons.IH [of ?c] extends_queue_trans [of _ s ?c] False q show ?thesis by (simp add: Let_def)
  qed
qed

section \<open>Iterations\<close>

text \<open>
  The loop's thread at the test of \<open>quit_\<close>; and a kernel that reports the wakeup channel only when
  its counter is positive, in every iteration of the run.
\<close>

definition at_test :: "event_loop \<Rightarrow> bool" where
  "at_test s \<longleftrightarrow> pc s = Testing \<and> thread_id s \<notin> pushed s \<and> thread_id s \<notin> quitting s"

definition honest_report :: "poll_window \<Rightarrow> invocation list \<Rightarrow> event_loop \<Rightarrow> bool" where
  "honest_report ans calls s \<longleftrightarrow> others_free (meanwhile ans) s \<and>
     (WakeupRead \<in> callback_of ` set calls \<longrightarrow> 0 < wakeup_count (interfere (meanwhile ans) s))"

definition after_round ::
  "(invocation \<Rightarrow> loop_call list) \<Rightarrow> (task \<Rightarrow> loop_call list) \<Rightarrow> poll_window \<Rightarrow> invocation list \<Rightarrow>
   event_loop \<Rightarrow> event_loop" where
  "after_round cb_calls task_calls ans calls s =
     executePendingTasks task_calls
       (serve cb_calls calls ((interfere (meanwhile ans) s)\<lparr>pc := Handling (map callback_of calls)\<rparr>))"

text \<open>All that is queued while an iteration polls and serves the ready channels.\<close>

definition queued_before_tasks :: "(invocation \<Rightarrow> loop_call list) \<Rightarrow> poll_window \<Rightarrow> invocation list \<Rightarrow> task list" where
  "queued_before_tasks cb_calls ans calls = queued_by (map snd (meanwhile ans)) @ queued_in_round cb_calls calls"

lemma interfere_pc: "(interfere others (s\<lparr>pc := Polling\<rparr>))\<lparr>pc := x\<rparr> = (interfere others s)\<lparr>pc := x\<rparr>" if "others_free others s"
  using that
proof (induction others arbitrary: s)
  case (Cons tc others)
  obtain tid c where tc: "tc = (tid, c)" by (cases tc)
  have free: "tid \<noteq> thread_id s" "tid \<notin> pushed s" "tid \<notin> quitting s" using Cons.prems by (simp_all add: others_free_def tc)
  have "do_loop_call tid c (s\<lparr>pc := Polling\<rparr>) = (do_loop_call tid c s)\<lparr>pc := Polling\<rparr>"
    using free by (cases c) (simp_all add: queueInLoop_def quit_def loop_defs wakeup_def)
  moreover have "others_free others (do_loop_call tid c s)"
    using other_call [OF free, of c] Cons.prems by (simp add: others_free_def undisturbed_def extends_queue_def)
  ultimately show ?case using Cons.IH by (simp add: tc interfere_def)
qed (simp add: interfere_def)

lemma after_round_callbacks:
  assumes "at_test s" and "\<not> quit_flag s" and "honest_report ans calls s"
    and "c = serve cb_calls calls ((interfere (meanwhile ans) s)\<lparr>pc := Handling (map callback_of calls)\<rparr>)"
  shows "in_callbacks [] c" "extends_queue (queued_before_tasks cb_calls ans calls) s c"
    "quit_flag (interfere (meanwhile ans) s) \<Longrightarrow> quit_flag c"
proof -
  let ?p = "s\<lparr>pc := Polling\<rparr>" let ?i = "interfere (meanwhile ans) ?p"
  let ?h = "?i\<lparr>pc := Handling (map callback_of calls)\<rparr>"
  have free: "others_free (meanwhile ans) s" "others_free (meanwhile ans) ?p"
    using assms(3) by (simp_all add: honest_report_def others_free_def)
  note i = interfere_steps [OF free(2)]
  note eq = interfere_pc [OF free(1)]
  then have same: "wakeup_count ?i = wakeup_count (interfere (meanwhile ans) s)"
    "quit_flag ?i = quit_flag (interfere (meanwhile ans) s)"
    by (metis event_loop.select_convs(6) event_loop.surjective event_loop.update_convs(7),
        metis event_loop.select_convs(2) event_loop.surjective event_loop.update_convs(7))
  have "loop_step s (loop_test s)" using assms(1) by (intro loop_step.test) (simp add: at_test_def)
  then have "extends_queue [] s ?p" using assms(2) by (auto simp: loop_test_def extends_queue_def)
  moreover have "pc ?i = Polling" using i by (simp add: undisturbed_def)
  then have "loop_step ?i ?h" using assms(3) same
    by (intro loop_step.poll) (auto simp: honest_report_def)
  then have "extends_queue [] ?i ?h" by (auto simp: extends_queue_def)
  ultimately have h: "extends_queue (queued_by (map snd (meanwhile ans))) s ?h"
    using i extends_queue_trans by (metis append_Nil append_Nil2)
  have "in_callbacks (map callback_of calls) ?h"
    using i assms(1) by (simp add: in_callbacks_def at_test_def undisturbed_def extends_queue_def)
  from serve_steps [OF this, of cb_calls] assms(4)
  have c: "in_callbacks [] c" "extends_queue (queued_in_round cb_calls calls) ?h c" by (simp_all add: eq)
  show "in_callbacks [] c" "extends_queue (queued_before_tasks cb_calls ans calls) s c"
    using c extends_queue_trans [OF h] by (simp_all add: queued_before_tasks_def)
  show "quit_flag c" if "quit_flag (interfere (meanwhile ans) s)"
    using that c(2) same by (simp add: extends_queue_def)
qed

lemma after_round_steps:
  assumes "at_test s" and "\<not> quit_flag s" and "honest_report ans calls s"
    and "s' = after_round cb_calls task_calls ans calls s"
  shows "loop_step\<^sup>*\<^sup>* s s'" "at_test s'" "thread_id s' = thread_id s"
    "executed s' = executed s @ task_queue s @ queued_before_tasks cb_calls ans calls"
    "task_queue s' = requeued task_calls (task_queue s @ queued_before_tasks cb_calls ans calls)"
proof -
  let ?c = "serve cb_calls calls ((interfere (meanwhile ans) s)\<lparr>pc := Handling (map callback_of calls)\<rparr>)"
  note c = after_round_callbacks [OF assms(1-3) refl, of cb_calls]
  then have "pc ?c = Handling []" "thread_id ?c \<notin> pushed ?c" "thread_id ?c \<notin> quitting ?c"
    by (simp_all add: in_callbacks_def)
  note e = executePendingTasks_steps [OF this assms(4) [unfolded after_round_def]]
  show "loop_step\<^sup>*\<^sup>* s s'" using c(2) e(1) unfolding extends_queue_def by (meson rtranclp_trans)
  show "at_test s'" "thread_id s' = thread_id s"
    "executed s' = executed s @ task_queue s @ queued_before_tasks cb_calls ans calls"
    "task_queue s' = requeued task_calls (task_queue s @ queued_before_tasks cb_calls ans calls)"
    using e(2-) c(2) by (simp_all add: at_test_def extends_queue_def)
qed

lemma loop_iteration_round:
  "loop_iteration run cb_calls task_calls ans (s, hb) =
     bind_res (loop_round run (polled ans) (waited ans) hb)
       (\<lambda>(calls, hb1). Inr (after_round cb_calls task_calls ans calls s, hb1))"
  by (simp add: loop_iteration_def after_round_def)

fun honest ::
  "cb_effect \<Rightarrow> (invocation \<Rightarrow> loop_call list) \<Rightarrow>
   (task \<Rightarrow> loop_call list) \<Rightarrow> poll_window list \<Rightarrow> event_loop \<times> chan_heap \<times> backend \<Rightarrow> bool" where
  "honest run cb_calls task_calls [] (s, hb) = True"
| "honest run cb_calls task_calls (ans # rest) (s, hb) =
     (case loop_round run (polled ans) (waited ans) hb of
        Inl e \<Rightarrow> True
      | Inr (calls, hb1) \<Rightarrow>
          honest_report ans calls s \<and> honest run cb_calls task_calls rest (after_round cb_calls task_calls ans calls s, hb1))"

lemma loop_while_steps:
  "at_test s \<Longrightarrow> honest run cb_calls task_calls answers (s, hb) \<Longrightarrow>
   loop_while run cb_calls task_calls answers (s, hb) = Inr (Some (rest, s', hb')) \<Longrightarrow>
   loop_step\<^sup>*\<^sup>* s s' \<and> pc s' = Outside \<and> \<not> is_running s' \<and> quit_flag s' \<and>
   (\<exists>used. answers = used @ rest)"
proof (induction answers arbitrary: s hb)
  case Nil
  then have "loop_step s (loop_test s)" by (intro loop_step.test) (simp add: at_test_def)
  with Nil show ?case by (auto simp: loop_test_def split: if_splits)
next
  case (Cons ans answers)
  show ?case
  proof (cases "quit_flag s")
    case True
    have "loop_step s (loop_test s)" using Cons.prems(1) by (intro loop_step.test) (simp add: at_test_def)
    with True Cons.prems(3) show ?thesis by (auto simp: loop_test_def)
  next
    case False
    with Cons.prems(3) obtain calls hb1 where r: "loop_round run (polled ans) (waited ans) hb = Inr (calls, hb1)"
      "loop_while run cb_calls task_calls answers (after_round cb_calls task_calls ans calls s, hb1) = Inr (Some (rest, s', hb'))"
      by (auto simp: loop_iteration_round bind_res_def split: sum.splits)
    with Cons.prems(2) have hon: "honest_report ans calls s"
      "honest run cb_calls task_calls answers (after_round cb_calls task_calls ans calls s, hb1)" by simp_all
    note one = after_round_steps [OF Cons.prems(1) False hon(1) refl, of cb_calls task_calls]
    from Cons.IH [OF one(2) hon(2) r(2)] one(1) show ?thesis
      by (metis append_Cons rtranclp_trans)
  qed
qed

text \<open>How the program ends: what a task or a callback asks for with \<open>quit()\<close> stays requested.\<close>

lemma do_loop_call_quit:
  "quit_flag s \<Longrightarrow> quit_flag (do_loop_call tid c s)" "quit_flag (do_loop_call tid Quit s)"
  by (cases c; simp add: queueInLoop_def quit_def loop_defs wake_after_quit_def)
    (simp add: quit_def loop_defs)

lemma calls_quit: "quit_flag s \<or> Quit \<in> set cs \<Longrightarrow> quit_flag (fold (do_loop_call tid) cs s)"
  by (induction cs arbitrary: s) (use do_loop_call_quit in \<open>auto simp del: do_loop_call.simps\<close>)

lemma run_tasks_quit:
  "quit_flag s \<or> (\<exists>t \<in> set ts. Quit \<in> set (calls t)) \<Longrightarrow> quit_flag (run_tasks calls ts s)"
proof (induction ts arbitrary: s)
  case (Cons t ts)
  have "quit_flag (fold (do_loop_call (thread_id s)) (calls t) (take_task s))"
    if "quit_flag s \<or> Quit \<in> set (calls t)"
    using that by (intro calls_quit) (auto simp: take_task_def)
  with Cons show ?case by auto
qed simp

lemma interfere_quit: "Quit \<in> snd ` set others \<Longrightarrow> quit_flag (interfere others s)"
proof (induction others arbitrary: s)
  case (Cons tc others)
  have "quit_flag s \<Longrightarrow> quit_flag (interfere others s)" for s
    by (induction others arbitrary: s) (auto simp: interfere_def do_loop_call_quit simp del: do_loop_call.simps)
  then show ?case using Cons
    by (cases tc) (auto simp: interfere_def do_loop_call_quit simp del: do_loop_call.simps)
qed simp

lemma executePendingTasks_quit:
  assumes "quit_flag s \<or> (\<exists>t \<in> set (task_queue s). Quit \<in> set (calls t))"
  shows "quit_flag (executePendingTasks calls s)"
  using assms
  by (auto simp: executePendingTasks_def Let_def end_tasks_def swap_tasks_def begin_tasks_def intro!: run_tasks_quit)

lemma after_round_quit:
  assumes "at_test s" and "\<not> quit_flag s" and "honest_report ans calls s"
    and "Quit \<in> snd ` set (meanwhile ans) \<or> (\<exists>t \<in> set (task_queue s). Quit \<in> set (task_calls t))"
  shows "quit_flag (after_round cb_calls task_calls ans calls s)"
  unfolding after_round_def
proof (rule executePendingTasks_quit)
  let ?c = "serve cb_calls calls ((interfere (meanwhile ans) s)\<lparr>pc := Handling (map callback_of calls)\<rparr>)"
  note c = after_round_callbacks [OF assms(1-3) refl, of cb_calls]
  show "quit_flag ?c \<or> (\<exists>t \<in> set (task_queue ?c). Quit \<in> set (task_calls t))"
    using assms(4) c(2,3) interfere_quit by (auto simp: extends_queue_def)
qed

section \<open>Properties\<close>

text \<open>
  A run for the witnesses: while the loop of thread 1 polls, thread 2 queues task 7 and quits the
  loop, and the kernel reports the wakeup channel.
\<close>

definition woken_heap :: chan_heap where
  "woken_heap = [4 \<mapsto> setReadCallback (Some WakeupRead) (Channel_new 0 9)]"

definition woken_window :: poll_window where
  "woken_window = \<lparr>polled = PollFailed, waited = Waited [\<lparr>ep_events = EPOLLIN, ep_ptr = Some 4\<rparr>],
     meanwhile = [(2, QueueInLoop 7), (2, Quit)]\<rparr>"

definition entered_loop :: event_loop where
  "entered_loop = (EventLoop_init 1)\<lparr>is_running := True, quit_flag := False, pc := Testing\<rparr>"

lemma woken_round:
  "\<exists>hb1. loop_round (\<lambda>_ _. Inr) (polled woken_window) (waited woken_window)
     (woken_heap, EpollBackend Epoller_new) = Inr ([OnRead WakeupRead], hb1)"
  by (simp add: loop_round_def backend_poll_def woken_window_def woken_heap_def Epoller_poll_def Epoller_new_def
      Let_def event_tests_def call_if_def setReturnEvents_def setReadCallback_def Channel_new_def mask_eval)

lemma woken_honest: "honest_report woken_window [OnRead WakeupRead] entered_loop"
  by (simp add: honest_report_def woken_window_def entered_loop_def EventLoop_init_def others_free_def
      interfere_def quit_def queueInLoop_def loop_defs)

lemma woken_run:
  "\<exists>s' hb'. EventLoop_loop (\<lambda>_ _. Inr) (\<lambda>_. []) (\<lambda>_. []) 1 [woken_window]
     (EventLoop_init 1, woken_heap, EpollBackend Epoller_new) = Inr (Some ([], s', hb')) \<and>
     executed s' = [7] \<and> task_queue s' = [] \<and> wakeup_count s' = 0"
proof -
  obtain hb1 where "loop_round (\<lambda>_ _. Inr) (polled woken_window) (waited woken_window)
     (woken_heap, EpollBackend Epoller_new) = Inr ([OnRead WakeupRead], hb1)" using woken_round by blast
  then show ?thesis
    by (simp add: EventLoop_loop_def loop_iteration_def EventLoop_init_def woken_window_def interfere_def
        queueInLoop_def quit_def loop_defs executePendingTasks_def)
qed

lemma reachable_steps: "loop_step\<^sup>*\<^sup>* s s' \<Longrightarrow> reachable tid s \<Longrightarrow> reachable tid s'"
  by (induction rule: rtranclp_induct) (auto intro: reachable.step)

lemma loop_enter_steps:
  assumes "pc s = Outside" and "\<not> is_running s" and "thread_id s \<notin> pushed s" and "thread_id s \<notin> quitting s"
    and "s1 = s\<lparr>is_running := True, quit_flag := False, pc := Testing\<rparr>"
  shows "loop_step s s1" "at_test s1"
    "EventLoop_loop run cb_calls task_calls (thread_id s) answers (s, hb) =
       loop_while run cb_calls task_calls answers (s1, hb)"
proof -
  show "loop_step s s1"
    using assms by (intro loop_step.enter) (simp_all add: loop_free_def loop_enter_def assertInLoopThread_def isInLoopThread_def)
  show "at_test s1" using assms by (simp add: at_test_def)
  show "EventLoop_loop run cb_calls task_calls (thread_id s) answers (s, hb) =
       loop_while run cb_calls task_calls answers (s1, hb)"
    using assms by (simp add: EventLoop_loop_def assertInLoopThread_def isInLoopThread_def)
qed

text \<open>
  Property C9. The program \<open>loop()\<close> refines the interleaved loop. When it returns, the state it leaves is one the
  atomic steps reach, the thread is outside of the loop again, the answers of the kernel it used
  are the first ones it was given, and every task ever submitted has been executed, once and in
  order, or waits for the next call of \<open>loop()\<close>, those that waited before in front.
\<close>
theorem loop_program_refines:
  assumes "reachable tid s" and "pc s = Outside" and "\<not> is_running s"
    and "tid \<notin> pushed s" and "tid \<notin> quitting s"
    and "honest run cb_calls task_calls answers (s\<lparr>is_running := True, quit_flag := False, pc := Testing\<rparr>, hb)"
    and "EventLoop_loop run cb_calls task_calls tid answers (s, hb) = Inr (Some (rest, s', hb'))"
  shows "loop_step\<^sup>*\<^sup>* s s' \<and> reachable tid s' \<and> pc s' = Outside \<and> \<not> is_running s' \<and> quit_flag s' \<and>
    (\<exists>used. answers = used @ rest) \<and> submitted s' = executed s' @ task_queue s' \<and>
    (\<exists>k added. task_queue s' = drop k (task_queue s) @ added)"
proof -
  let ?s = "s\<lparr>is_running := True, quit_flag := False, pc := Testing\<rparr>"
  have tid: "thread_id s = tid" using reachable_thread_id [OF assms(1)] .
  note en = loop_enter_steps [of s ?s, simplified tid, OF assms(2-5) refl]
  have w: "loop_step\<^sup>*\<^sup>* ?s s'" "pc s' = Outside" "\<not> is_running s'" "quit_flag s'" "\<exists>used. answers = used @ rest"
    using loop_while_steps [OF en(2) assms(6), of rest s' hb'] assms(7) en(3) by simp_all
  have st: "loop_step\<^sup>*\<^sup>* s s'" using en(1) w(1) by simp
  have re: "reachable tid s'" by (rule reachable_steps [OF st assms(1)])
  have idle: "tasks s = []" "tasks s' = []"
    using reachable_inv [OF assms(1)] reachable_inv [OF re] assms(2) w(2) by (auto simp: loop_inv_def phase_ok_def)
  then have "submitted s' = executed s' @ task_queue s'"
    using reachable_inv [OF re] by (simp add: loop_inv_def in_order_def)
  moreover have "\<exists>k added. task_queue s' = drop k (task_queue s) @ added"
    using lq.run_front_to_back [OF st reachable_inv [OF assms(1)]] idle by (simp add: waiting_tasks_def)
  ultimately show ?thesis using st re w by blast
qed

theorem loop_program_refines_witness:
  "\<exists>s' hb'. EventLoop_loop (\<lambda>_ _. Inr) (\<lambda>_. []) (\<lambda>_. []) 1 [woken_window]
     (EventLoop_init 1, woken_heap, EpollBackend Epoller_new) = Inr (Some ([], s', hb')) \<and>
     reachable 1 s' \<and> executed s' = [7] \<and> submitted s' = [7]"
proof -
  obtain s' hb' where r: "EventLoop_loop (\<lambda>_ _. Inr) (\<lambda>_. []) (\<lambda>_. []) 1 [woken_window]
     (EventLoop_init 1, woken_heap, EpollBackend Epoller_new) = Inr (Some ([], s', hb'))"
    "executed s' = [7]" "task_queue s' = []" using woken_run by blast
  have "honest (\<lambda>_ _. Inr) (\<lambda>_. []) (\<lambda>_. []) [woken_window]
      ((EventLoop_init 1)\<lparr>is_running := True, quit_flag := False, pc := Testing\<rparr>, woken_heap, EpollBackend Epoller_new)"
    using woken_round woken_honest [unfolded entered_loop_def] by auto
  from loop_program_refines [OF reachable.init _ _ _ _ this r(1)] r show ?thesis
    by (auto simp: EventLoop_init_def)
qed

text \<open>
  Property C10. The program ends. When another thread calls \<open>quit()\<close> while the loop polls, or a
  task that waits as \<open>loop()\<close> is entered does, the loop returns after this iteration: it has
  called the callbacks of the ready channels, then executed the tasks that waited, those that
  other threads queued during the poll and those that the callbacks queued, in this order, and
  what the tasks queued in turn is left for the next call of \<open>loop()\<close>.
\<close>
theorem loop_ends_after_quit:
  assumes "pc s = Outside" and "\<not> is_running s" and "thread_id s \<notin> pushed s" and "thread_id s \<notin> quitting s"
    and "Quit \<in> snd ` set (meanwhile ans) \<or> (\<exists>t \<in> set (task_queue s). Quit \<in> set (task_calls t))"
    and "loop_round run (polled ans) (waited ans) hb = Inr (calls, hb1)"
    and "honest_report ans calls (s\<lparr>is_running := True, quit_flag := False, pc := Testing\<rparr>)"
  shows "\<exists>s'. EventLoop_loop run cb_calls task_calls (thread_id s) (ans # rest) (s, hb) = Inr (Some (rest, s', hb1)) \<and>
    pc s' = Outside \<and> \<not> is_running s' \<and>
    executed s' = executed s @ task_queue s @ queued_by (map snd (meanwhile ans)) @ queued_in_round cb_calls calls \<and>
    task_queue s' = requeued task_calls (task_queue s @ queued_by (map snd (meanwhile ans)) @ queued_in_round cb_calls calls)"
proof -
  let ?s = "s\<lparr>is_running := True, quit_flag := False, pc := Testing\<rparr>"
  note en = loop_enter_steps [OF assms(1-4) refl]
  have "quit_flag (after_round cb_calls task_calls ans calls ?s)"
    using after_round_quit [OF en(2) _ assms(7)] assms(5) by simp
  then have "loop_while run cb_calls task_calls (ans # rest) (?s, hb) =
      Inr (Some (rest, (after_round cb_calls task_calls ans calls ?s)\<lparr>is_running := False, pc := Outside\<rparr>, hb1))"
    using assms(6) by (simp add: loop_iteration_round)
  with after_round_steps(4,5) [OF en(2) _ assms(7) refl, of cb_calls task_calls] en(3) show ?thesis
    by (simp add: queued_before_tasks_def)
qed

theorem loop_ends_after_quit_witness:
  "\<exists>s' hb1. EventLoop_loop (\<lambda>_ _. Inr) (\<lambda>_. []) (\<lambda>_. []) 1 [woken_window]
     (EventLoop_init 1, woken_heap, EpollBackend Epoller_new) = Inr (Some ([], s', hb1)) \<and>
     pc s' = Outside \<and> executed s' = [7]"
proof -
  obtain hb1 where "loop_round (\<lambda>_ _. Inr) (polled woken_window) (waited woken_window)
     (woken_heap, EpollBackend Epoller_new) = Inr ([OnRead WakeupRead], hb1)" using woken_round by blast
  moreover have "queued_by (map snd (meanwhile woken_window)) = [7]" "Quit \<in> snd ` set (meanwhile woken_window)"
    by (simp_all add: woken_window_def)
  ultimately show ?thesis
    using loop_ends_after_quit [of "EventLoop_init 1" woken_window "\<lambda>_. []" "\<lambda>_ _. Inr" "(woken_heap, EpollBackend Epoller_new)"
        "[OnRead WakeupRead]" hb1 "\<lambda>_. []" "[]"] woken_honest [unfolded entered_loop_def]
    by (fastforce simp: EventLoop_init_def queued_in_round_def)
qed

end
