(* ===== verification/LoopSetup.thy ===== *)
theory LoopSetup
  imports EventLoop Buffer
begin

text \<open>
  Construction and destruction of an \<open>EventLoop\<close> (\<open>net/EventLoop.cpp\<close>) with its members, the
  constructor and the destructor of \<open>TimerQueue\<close> included, on the store of channels. \<open>tc\<close> and \<open>wc\<close>
  are the addresses of the timer channel and the wakeup channel; the descriptors are the kernel's.
\<close>

section \<open>Construction\<close>

definition create_eventfd :: "int \<Rightarrow> fd res" where
  "create_eventfd event_fd = (if event_fd = -1 then Inl Abort else Inr event_fd)"

text \<open>A change of the interest of a channel in place, followed by \<open>notifyLoop\<close>.\<close>

definition notifyLoop ::
  "nat \<Rightarrow> tid \<Rightarrow> event_loop \<Rightarrow> bool \<Rightarrow> addr \<Rightarrow> (channel \<Rightarrow> channel) \<Rightarrow> chan_heap \<times> backend \<Rightarrow> (chan_heap \<times> backend) res" where
  "notifyLoop this tid s ctl_ok c f = (\<lambda>(h, b).
     (case h c of
        None \<Rightarrow> Inl UseAfterFree
      | Some ch \<Rightarrow> EventLoop_updateChannel this tid s ctl_ok c (h(c \<mapsto> f ch), b)))"

text \<open>\<open>timerfd_create\<close> is not checked; the channel is a member, so it exists from the start.\<close>

definition TimerQueue_construct ::
  "nat \<Rightarrow> tid \<Rightarrow> event_loop \<Rightarrow> bool \<Rightarrow> addr \<Rightarrow> fd \<Rightarrow> chan_heap \<times> backend \<Rightarrow> (chan_heap \<times> backend) res" where
  "TimerQueue_construct this tid s ctl_ok tc timer_fd = (\<lambda>(h, b).
     bind_res (assertInLoopThread tid s) (\<lambda>_.
       notifyLoop this tid s ctl_ok tc listenTillReadable
         (h(tc \<mapsto> setReadCallback (Some TimersRead) (Channel_new this timer_fd)), b)))"

definition EventLoop_construct ::
  "string option \<Rightarrow> tid \<Rightarrow> nat \<Rightarrow> bool \<Rightarrow> addr \<Rightarrow> addr \<Rightarrow> fd \<Rightarrow> int \<Rightarrow> loop_registry \<times> chan_heap \<Rightarrow>
   (event_loop \<times> loop_registry \<times> chan_heap \<times> backend) res" where
  "EventLoop_construct env tid this ctl_ok tc wc timer_fd event_fd = (\<lambda>(reg, h).
     bind_res (TimerQueue_construct this tid (EventLoop_init tid) ctl_ok tc timer_fd (h, getPoller env)) (\<lambda>(h1, b1).
     bind_res (create_eventfd event_fd) (\<lambda>wakeup_fd.
     bind_res (EventLoop_new tid this reg) (\<lambda>(s, reg1).
     bind_res (notifyLoop this tid s ctl_ok wc listenTillReadable
                 (h1(wc \<mapsto> setReadCallback (Some WakeupRead) (Channel_new this wakeup_fd)), b1)) (\<lambda>(h2, b2).
     Inr (s, reg1, h2, b2))))))"

section \<open>Destruction\<close>

text \<open>
  \<open>close\<close> takes a descriptor out of the interest list of \<open>epoll\<close>. The destructor's body comes first,
  then the members in the reverse order of their declaration: the wakeup channel, then the timer
  queue, whose destructor removes its channel from the poller, then the poller.
\<close>

definition close_fd :: "fd \<Rightarrow> backend \<Rightarrow> backend" where
  "close_fd fd b =
     (case b of
        PollBackend p \<Rightarrow> PollBackend p
      | EpollBackend p \<Rightarrow> EpollBackend (p\<lparr>interest_list := (interest_list p)(fd := None)\<rparr>))"

definition TimerQueue_destruct ::
  "nat \<Rightarrow> tid \<Rightarrow> event_loop \<Rightarrow> bool \<Rightarrow> addr \<Rightarrow> fd \<Rightarrow> chan_heap \<times> backend \<Rightarrow> (chan_heap \<times> backend) res" where
  "TimerQueue_destruct this tid s ctl_ok tc timer_fd hb =
     bind_res (EventLoop_removeChannel this tid s ctl_ok tc hb) (\<lambda>(h, b).
       Inr (h(tc := None), close_fd timer_fd b))"

definition EventLoop_destruct ::
  "tid \<Rightarrow> nat \<Rightarrow> bool \<Rightarrow> addr \<Rightarrow> addr \<Rightarrow> fd \<Rightarrow> fd \<Rightarrow> event_loop \<times> loop_registry \<times> chan_heap \<times> backend \<Rightarrow>
   (loop_registry \<times> chan_heap \<times> backend) res" where
  "EventLoop_destruct tid this ctl_ok tc wc timer_fd wakeup_fd = (\<lambda>(s, reg, h, b).
     bind_res (EventLoop_delete tid s reg) (\<lambda>reg1.
     bind_res (notifyLoop this tid s ctl_ok wc ignoreAll (h, b)) (\<lambda>(h1, b1).
     bind_res (TimerQueue_destruct this tid s ctl_ok tc timer_fd (h1(wc := None), close_fd wakeup_fd b1)) (\<lambda>(h2, b2).
     Inr (reg1, h2, b2)))))"

section \<open>The signal of a broken pipe\<close>

text \<open>
  A static object ignores \<open>SIGPIPE\<close> before \<open>main\<close> runs. A \<open>write\<close> to a socket whose peer is gone
  raises the signal, which ends the process unless it is ignored; then the call fails with \<open>EPIPE\<close>.
\<close>

datatype disposition = SIG_DFL | SIG_IGN

definition SIGPIPE :: nat where
  "SIGPIPE = 13"

definition EPIPE :: errno where
  "EPIPE = 32"

definition IgnoreSigPipe :: "(nat \<Rightarrow> disposition) \<Rightarrow> nat \<Rightarrow> disposition" where
  "IgnoreSigPipe d = d(SIGPIPE := SIG_IGN)"

definition write_to_closed_peer :: "(nat \<Rightarrow> disposition) \<Rightarrow> write_result res" where
  "write_to_closed_peer d = (case d SIGPIPE of SIG_DFL \<Rightarrow> Inl Abort | SIG_IGN \<Rightarrow> Inr (WriteError EPIPE))"

lemma write_after_IgnoreSigPipe: "write_to_closed_peer (IgnoreSigPipe d) = Inr (WriteError EPIPE)"
  by (simp add: write_to_closed_peer_def IgnoreSigPipe_def)

section \<open>What a new loop watches\<close>

lemma init_thread [simp]: "assertInLoopThread tid (EventLoop_init tid) = Inr ()" "isInLoopThread tid (EventLoop_init tid)"
  by (simp_all add: assertInLoopThread_def isInLoopThread_def EventLoop_init_def)

text \<open>Registering a new channel of the loop for reading.\<close>

definition reader :: "nat \<Rightarrow> fd \<Rightarrow> callback \<Rightarrow> channel" where
  "reader this fd cb = listenTillReadable (setReadCallback (Some cb) (Channel_new this fd))"

lemma reader_fields [simp]:
  "fd_of (reader this fd cb) = fd" "loop_of (reader this fd cb) = this" "events (reader this fd cb) = kReadEvent"
  "index_of (reader this fd cb) = NOT_FILL" "read_callback (reader this fd cb) = Some cb"
  by (simp_all add: reader_def listenTillReadable_def setReadCallback_def Channel_new_def kNoneEvent_def)

lemma notify_reader:
  assumes "backend_inv (h(c \<mapsto> reader this fd cb), b)" and "backend_watched (h(c \<mapsto> reader this fd cb), b) fd = None"
  shows "\<exists>h' b'. notifyLoop this tid (EventLoop_init tid) True c listenTillReadable
      (h(c \<mapsto> setReadCallback (Some cb) (Channel_new this fd)), b) = Inr (h', b') \<and>
    backend_inv (h', b') \<and> same_channels (h(c \<mapsto> reader this fd cb)) h' \<and>
    backend_watched (h', b') = (backend_watched (h(c \<mapsto> reader this fd cb), b))(fd \<mapsto> (c, backend_asked b kReadEvent)) \<and>
    backend_asked b' = backend_asked b"
proof -
  let ?h = "h(c \<mapsto> reader this fd cb)"
  have "valid_mask (events (reader this fd cb))" 
    using valid_mask_interest(1) [OF valid_mask_interest(6), of this fd]
    by (simp add: listenTillReadable_def Channel_new_def kNoneEvent_def)
  moreover have "fd_free (backend_watched (?h, b)) c (reader this fd cb)" using assms(2) by (simp add: fd_free_def)
  ultimately obtain h' b' where u: "backend_update True True c (?h, b) = Inr (h', b')" "backend_inv (h', b')"
      "same_channels ?h h'" "backend_watched (h', b') = (backend_watched (?h, b))(fd \<mapsto> (c, backend_asked b kReadEvent))"
      "backend_asked b' = backend_asked b"
    using backend.update_law [OF assms(1), of c "reader this fd cb"] by auto
  moreover have "notifyLoop this tid (EventLoop_init tid) True c listenTillReadable
      (h(c \<mapsto> setReadCallback (Some cb) (Channel_new this fd)), b) = backend_update True True c (?h, b)"
    by (simp add: notifyLoop_def EventLoop_updateChannel_def flip: reader_def)
  ultimately show ?thesis by auto
qed

text \<open>A channel that is created at a new address is not watched and disturbs nothing.\<close>

lemma backend_new_channel:
  assumes "backend_inv (h, b)" and "h c = None" and "index_of ch = NOT_FILL" and "\<And>p. b = PollBackend p \<Longrightarrow> 0 \<le> fd_of ch"
  shows "backend_inv (h(c \<mapsto> ch), b)" "backend_watched (h(c \<mapsto> ch), b) = backend_watched (h, b)"
proof -
  have "poll_inv (h(c \<mapsto> ch), p) \<and> poll_watched (h(c \<mapsto> ch), p) = poll_watched (h, p)"
    if i: "poll_inv (h, p)" and b: "b = PollBackend p" for p
  proof -
    have c: "channels p fd \<noteq> Some c" for fd using i assms(2) unfolding poll_inv_def by fastforce
    have "poll_inv (h(c \<mapsto> ch), p)"
      using i assms(2,3) assms(4) [OF b] c unfolding poll_inv_def by (fastforce split: if_splits)
    with c show ?thesis by (auto simp: poll_watched_def fun_eq_iff split: option.splits)
  qed
  moreover have "epoll_inv (h(c \<mapsto> ch), p) \<and> epoll_watched (h(c \<mapsto> ch), p) = epoll_watched (h, p)"
    if i: "epoll_inv (h, p)" for p
    using i assms(2) by (fastforce simp: epoll_inv_def epoll_watched_def fun_eq_iff)
  ultimately show "backend_inv (h(c \<mapsto> ch), b)" "backend_watched (h(c \<mapsto> ch), b) = backend_watched (h, b)"
    using assms(1) by (cases b; simp add: backend_inv_def backend_watched_def)+
qed

lemma TimerQueue_construct_returns:
  "\<exists>h1 b1. TimerQueue_construct this tid (EventLoop_init tid) ctl_ok tc fd (h, getPoller env) = Inr (h1, b1)"
  by (auto simp: TimerQueue_construct_def notifyLoop_def EventLoop_updateChannel_def backend_update_def getPoller_def
      Poller_updateChannel_def Epoller_updateChannel_def Let_def listenTillReadable_def setReadCallback_def Channel_new_def
      split: option.split)

text \<open>
  Property C15. A new loop is ready: its thread is recorded, the thread's place is taken, and the
  poller, of either kind, watches exactly the timer descriptor and the event descriptor, each for
  reading (with \<open>epoll\<close> also for \<open>EPOLLRDHUP\<close>) and each with its own callback. A second loop in the same thread aborts, and so does a
  failure of \<open>eventfd\<close>.
\<close>
theorem new_loop_watches_its_descriptors:
  assumes "reg tid = None" and "tc \<noteq> wc" and "0 \<le> timer_fd" and "0 \<le> event_fd" and "timer_fd \<noteq> event_fd"
  shows "\<exists>h b. EventLoop_construct env tid this True tc wc timer_fd event_fd (reg, Map.empty) =
      Inr (EventLoop_init tid, reg(tid \<mapsto> this), h, b) \<and>
    backend_inv (h, b) \<and>
    backend_watched (h, b) = [timer_fd \<mapsto> (tc, backend_asked (getPoller env) kReadEvent),
      event_fd \<mapsto> (wc, backend_asked (getPoller env) kReadEvent)] \<and>
    map_option read_callback (h tc) = Some (Some TimersRead) \<and> map_option read_callback (h wc) = Some (Some WakeupRead) \<and>
    EventLoop_construct env2 tid this2 True tc2 wc2 fd2 efd2 (reg(tid \<mapsto> this), h2') = Inl Abort \<and>
    EventLoop_construct env tid this True tc wc timer_fd (-1) (reg, Map.empty) = Inl Abort"
proof -
  let ?t = "reader this timer_fd TimersRead" and ?w = "reader this event_fd WakeupRead"
  let ?m = "backend_asked (getPoller env) kReadEvent"
  have inv0: "backend_inv (Map.empty, getPoller env)" by (rule getPoller_inv) simp
  have w0: "backend_watched (Map.empty, getPoller env) = Map.empty" using getPoller_watches_nothing by (auto simp: fun_eq_iff)
  have n1: "backend_inv ([tc \<mapsto> ?t], getPoller env)" "backend_watched ([tc \<mapsto> ?t], getPoller env) = Map.empty"
    using backend_new_channel [OF inv0, where c = tc and ch = ?t] assms(3) w0 by simp_all
  then obtain h1 b1 where s1: "notifyLoop this tid (EventLoop_init tid) True tc listenTillReadable
      ([tc \<mapsto> setReadCallback (Some TimersRead) (Channel_new this timer_fd)], getPoller env) = Inr (h1, b1)"
      "backend_inv (h1, b1)" "same_channels [tc \<mapsto> ?t] h1" "backend_watched (h1, b1) = [timer_fd \<mapsto> (tc, ?m)]"
      "backend_asked b1 = backend_asked (getPoller env)"
    using notify_reader [of Map.empty tc this timer_fd TimersRead "getPoller env" tid] by auto
  obtain i where t: "h1 tc = Some (setIndex i ?t)" using same_channelsD [OF s1(3)] by (metis fun_upd_same)
  have "h1 wc = None" using s1(3) assms(2) by (auto simp: same_channels_def dest: spec [of _ wc])
  then have n2: "backend_inv (h1(wc \<mapsto> ?w), b1)" "backend_watched (h1(wc \<mapsto> ?w), b1) = [timer_fd \<mapsto> (tc, ?m)]"
    using backend_new_channel [OF s1(2), where c = wc and ch = ?w] assms(4) s1(4) by simp_all
  then obtain h2 b2 where s2: "notifyLoop this tid (EventLoop_init tid) True wc listenTillReadable
      (h1(wc \<mapsto> setReadCallback (Some WakeupRead) (Channel_new this event_fd)), b1) = Inr (h2, b2)"
      "backend_inv (h2, b2)" "same_channels (h1(wc \<mapsto> ?w)) h2"
      "backend_watched (h2, b2) = [timer_fd \<mapsto> (tc, ?m), event_fd \<mapsto> (wc, ?m)]"
    using notify_reader [of h1 wc this event_fd WakeupRead b1 tid] assms(5) s1(5) by auto
  obtain j k where "h2 wc = Some (setIndex j ?w)" "h2 tc = Some (setIndex k (setIndex i ?t))"
    using same_channelsD [OF s2(3)] t assms(2) by (metis fun_upd_other fun_upd_same)
  moreover obtain h3 b3 where
    "TimerQueue_construct this2 tid (EventLoop_init tid) True tc2 fd2 (h2', getPoller env2) = Inr (h3, b3)"
    using TimerQueue_construct_returns by blast
  ultimately show ?thesis using s1(1) s2 assms(1,4)
    by (auto simp: EventLoop_construct_def TimerQueue_construct_def create_eventfd_def EventLoop_new_def setIndex_def)
qed

theorem new_loop_watches_its_descriptors_witness:
  "\<exists>h b. EventLoop_construct None 1 0 True 4 5 7 8 (Map.empty, Map.empty) = Inr (EventLoop_init 1, [1 \<mapsto> 0], h, b) \<and>
     backend_watched (h, b) = [7 \<mapsto> (4, kReadEvent OR EPOLLRDHUP), 8 \<mapsto> (5, kReadEvent OR EPOLLRDHUP)]"
proof -
  have "backend_asked (getPoller None) kReadEvent = kReadEvent OR EPOLLRDHUP"
    by (simp add: getPoller_def with_rdhup_def)
  then show ?thesis
    using new_loop_watches_its_descriptors [of Map.empty 1 4 5 7 8 None 0 None 0 4 5 7 8 Map.empty] by auto
qed

section \<open>The end of a loop\<close>

lemmas setup_defs = EventLoop_construct_def TimerQueue_construct_def notifyLoop_def EventLoop_updateChannel_def
  create_eventfd_def EventLoop_new_def getPoller_def backend_update_def Let_def

lemmas teardown_defs = EventLoop_destruct_def TimerQueue_destruct_def notifyLoop_def EventLoop_updateChannel_def
  EventLoop_removeChannel_def EventLoop_delete_def backend_update_def backend_remove_def close_fd_def Let_def

lemma reader_eq: "listenTillReadable (setReadCallback (Some cb) (Channel_new this fd)) = reader this fd cb"
  by (simp add: reader_def)

lemma construct_poll:
  assumes "reg tid = None" and "tc \<noteq> wc" and "timer_fd \<noteq> event_fd" and "0 \<le> event_fd"
  shows "EventLoop_construct (Some ''1'') tid this True tc wc timer_fd event_fd (reg, Map.empty) =
    Inr (EventLoop_init tid, reg(tid \<mapsto> this),
         [tc \<mapsto> setIndex 0 (reader this timer_fd TimersRead), wc \<mapsto> setIndex 1 (reader this event_fd WakeupRead)],
         PollBackend \<lparr>channels = [timer_fd \<mapsto> tc, event_fd \<mapsto> wc],
           pollFdList = [\<lparr>pfd = timer_fd, pevents = ucast kReadEvent, prevents = 0\<rparr>,
                         \<lparr>pfd = event_fd, pevents = ucast kReadEvent, prevents = 0\<rparr>]\<rparr>)"
  using assms by (simp add: setup_defs reader_eq Poller_updateChannel_def Poller_new_def)

text \<open>The two channels of a loop's own, each registered with its poller, whatever else is.\<close>

definition own_channel :: "nat \<Rightarrow> addr \<Rightarrow> fd \<Rightarrow> chan_heap \<times> backend \<Rightarrow> bool" where
  "own_channel this c fd hb \<longleftrightarrow>
     (\<exists>ch. fst hb c = Some ch \<and> fd_of ch = fd \<and> loop_of ch = this) \<and> map_option fst (backend_watched hb fd) = Some c"

lemma own_channel_poll:
  assumes "poll_inv (h, p)" and "own_channel this c fd (h, PollBackend p)"
  obtains ch i where "h c = Some ch" "fd_of ch = fd" "loop_of ch = this" "channels p fd = Some c" "index_of ch = int i"
    "i < length (pollFdList p)" "real_fd (pollFdList p ! i) = fd" "0 \<le> fd"
proof -
  from assms(2) obtain ch where ch: "h c = Some ch" "fd_of ch = fd" "loop_of ch = this" "channels p fd = Some c"
    by (auto simp: own_channel_def backend_watched_def poll_watched_def Let_def split: option.splits)
  note r = poll_registered [OF assms(1) ch(4,1)]
  show thesis
    by (rule that [OF ch, of "nat (index_of ch)"]) (use r poll_invD(4) [OF assms(1) ch(1)] ch(2) in auto)
qed

lemma own_channel_epoll:
  assumes "epoll_inv (h, q)" and "own_channel this c fd (h, EpollBackend q)"
  obtains ch where "h c = Some ch" "fd_of ch = fd" "loop_of ch = this" "channel_map q fd = Some c" "fd \<in> dom (interest_list q)"
proof -
  from assms(2) obtain ch where ch: "h c = Some ch" "fd_of ch = fd" "loop_of ch = this" "channel_map q fd = Some c"
    by (auto simp: own_channel_def backend_watched_def epoll_watched_def split: option.splits)
  with epoll_invD(1) [OF assms(1)] show thesis by (intro that [OF ch]) auto
qed

text \<open>The destructor up to the destruction of the timer queue, with \<open>poll\<close>.\<close>

lemma destruct_poll:
  assumes "h wc = Some w" and "loop_of w = this" and "index_of w = int j" and "j < length (pollFdList p)"
    and "thread_id s = tid" and "\<not> is_running s"
  shows "EventLoop_destruct tid this True tc wc tfd (fd_of w) (s, reg, h, PollBackend p) =
    bind_res (TimerQueue_destruct this tid s True tc tfd
        (h(wc := None), PollBackend (p\<lparr>pollFdList := (pollFdList p)[j :=
           \<lparr>pfd = flip_fd (fd_of w), pevents = ucast (events (ignoreAll w)), prevents = 0\<rparr>]\<rparr>)))
      (\<lambda>(h2, b2). Inr (reg(tid := None), h2, b2))"
proof -
  have "notifyLoop this tid s True wc ignoreAll (h, PollBackend p) =
      Inr (h(wc \<mapsto> ignoreAll w), PollBackend (p\<lparr>pollFdList := (pollFdList p)[j :=
           \<lparr>pfd = flip_fd (fd_of w), pevents = ucast (events (ignoreAll w)), prevents = 0\<rparr>]\<rparr>))"
    using assms
    by (simp add: notifyLoop_def EventLoop_updateChannel_def backend_update_def assertInLoopThread_def
        isInLoopThread_def Poller_updateChannel_def NOT_FILL_def ignoreAll_def isNoneEvent_def kNoneEvent_def)
  then show ?thesis using assms(6) by (simp add: EventLoop_destruct_def EventLoop_delete_def close_fd_def)
qed

lemma removal_moves_last:
  assumes "h c = Some ch" and "index_of ch = int i" and "i < length (pollFdList p)"
  shows "if Suc i = length (pollFdList p) then is_ok (Poller_removeChannel True c (h, p))
    else case channels p (real_fd (last (pollFdList p))) of
        None \<Rightarrow> is_ok (Poller_removeChannel True c (h, p))
      | Some x \<Rightarrow> if h x = None then Poller_removeChannel True c (h, p) = Inl UseAfterFree
                  else is_ok (Poller_removeChannel True c (h, p))"
proof (cases "Suc i = length (pollFdList p)")
  case True
  then show ?thesis
    using assms by (auto simp: Poller_removeChannel_def Let_def set_index_at_def is_ok_iff)
next
  case False
  then have "i < length (pollFdList p) - 1" using assms(3) by simp
  then show ?thesis
    using assms False
    by (auto simp: Poller_removeChannel_def Let_def set_index_at_def is_ok_iff split: option.splits)
qed

lemma destroyed_wakeup_moved:
  assumes inv: "poll_inv (h, p)" and tcwc: "tc \<noteq> wc" and t: "h tc = Some t" "channels p (fd_of t) = Some tc"
    and w: "h wc = Some w" "channels p (fd_of w) = Some wc" "index_of w = int j"
    and p': "p' = p\<lparr>pollFdList := (pollFdList p)[j := \<lparr>pfd = flip_fd (fd_of w), pevents = m, prevents = 0\<rparr>]\<rparr>"
  shows "if Suc j = length (pollFdList p) then Poller_removeChannel True tc (h(wc := None), p') = Inl UseAfterFree
    else is_ok (Poller_removeChannel True tc (h(wc := None), p'))"
proof -
  let ?L = "pollFdList p" and ?i = "nat (index_of t)" and ?h = "h(wc := None)"
  let ?n = "length ?L" and ?L' = "pollFdList p'"
  note rt = poll_registered [OF inv t(2,1)] and rw = poll_registered [OF inv w(2,1)]
  have fw: "0 \<le> fd_of w" by (rule poll_invD(4) [OF inv w(1)])
  have ne: "?i \<noteq> j" using rt rw w(2,3) t(2) tcwc by auto
  have idx: "0 \<le> index_of t" "?i < ?n" "j < ?n" using rt rw w(3) by auto
  have L: "length ?L' = ?n" "channels p' = channels p" by (simp_all add: p')
  have "?L' \<noteq> []" using idx L(1) by auto
  then have last: "last ?L' = ?L' ! (?n - 1)" using L(1) by (simp add: last_conv_nth)
  have "?h tc = Some t" "index_of t = int ?i" "?i < length ?L'" using t(1) tcwc idx L(1) by simp_all
  note moves = removal_moves_last [of ?h tc t ?i p', OF this]
  show ?thesis
  proof (cases "Suc j = ?n")
    case True
    then have "last ?L' = ?L' ! j" using last by (metis diff_Suc_1)
    then have "real_fd (last ?L') = fd_of w" using idx(3) fw by (simp add: p' real_fd_def)
    moreover have "Suc ?i \<noteq> ?n" using True ne by simp
    ultimately show ?thesis using moves True L w(2) by simp
  next
    case False
    then have e: "last ?L' = ?L ! (?n - 1)" using last idx by (simp add: p')
    obtain x ch where x: "channels p (real_fd (?L ! (?n - 1))) = Some x" "h x = Some ch" "index_of ch = int (?n - 1)"
      using poll_invD(1) [OF inv, of "?n - 1"] idx by fastforce
    have "x \<noteq> wc" using x(2,3) w(1,3) False idx by auto
    then show ?thesis using moves False L e x by (simp split: if_splits)
  qed
qed



end
