(* ===== verification/CrossThreadSend.thy ===== *)
theory CrossThreadSend
  imports TcpConnection EventLoop
begin

text \<open>
  A connection together with its loop: threads call \<open>send\<close>, the tasks wait in the loop's queue, and
  the loop's thread runs them, sends for itself and serves writability, in any interleaving of
  the atomic steps of \<open>EventLoop\<close>. The task with number \<open>n\<close> is the \<open>n\<close>-th element of \<open>jobs\<close>; \<open>handed\<close>
  records the messages that reached \<open>sendInLoop\<close>, with the thread each came from.
\<close>

section \<open>The system\<close>

datatype job = Send_job tid effect | Other_job

record send_world =
  sw_loop :: event_loop
  sw_conn :: tcp_connection
  jobs :: "job list"
  handed :: "(tid \<times> byte list) list"

fun queued_bytes :: "effect \<Rightarrow> byte list" where
  "queued_bytes (QueueSend d) = d"
| "queued_bytes (QueueSendBuffer b) = contents b"
| "queued_bytes _ = []"

fun queued_size :: "effect \<Rightarrow> nat" where
  "queued_size (QueueSend d) = length d"
| "queued_size (QueueSendBuffer b) = write_index b"
| "queued_size _ = 0"

fun job_sends :: "job \<Rightarrow> (tid \<times> byte list) list" where
  "job_sends (Send_job tid q) = [(tid, queued_bytes q)]"
| "job_sends Other_job = []"

definition add_job :: "tid \<Rightarrow> job \<Rightarrow> send_world \<Rightarrow> send_world" where
  "add_job tid j w = w\<lparr>sw_loop := push_task tid (length (jobs w)) (sw_loop w), jobs := jobs w @ [j]\<rparr>"

text \<open>
  The steps. Another thread that calls \<open>send\<close> on the connected connection adds a job (\<open>runInLoop\<close>);
  anyone may add jobs that have nothing to do with the stream, such as the callbacks for a complete write;
  the loop's thread takes a job, sends by itself from user code, or serves a writable event; the
  state of the connection may change at any time; all other steps of the loop leave the
  connection alone. The kernel accepts at most what it is offered, and memory suffices.
\<close>

inductive send_step :: "send_world \<Rightarrow> send_world \<Rightarrow> bool" where
  cross: "may_call tid (sw_loop w) \<Longrightarrow> \<not> isInLoopThread tid (sw_loop w) \<Longrightarrow>
    send tid wr msg (sw_conn w) = Inr ([q], c') \<Longrightarrow> send_step w (add_job tid (Send_job tid q) w)"
| cross_buffer: "may_call tid (sw_loop w) \<Longrightarrow> \<not> isInLoopThread tid (sw_loop w) \<Longrightarrow> buf_inv b \<Longrightarrow>
    send_buf tid wr b (sw_conn w) = Inr ([q], c', b') \<Longrightarrow> send_step w (add_job tid (Send_job tid q) w)"
| other: "may_call tid (sw_loop w) \<Longrightarrow> send_step w (add_job tid Other_job w)"
| run_other: "pc (sw_loop w) = Running \<Longrightarrow> loop_free (sw_loop w) \<Longrightarrow> tasks (sw_loop w) \<noteq> [] \<Longrightarrow>
    jobs w ! hd (tasks (sw_loop w)) = Other_job \<Longrightarrow> send_step w (w\<lparr>sw_loop := take_task (sw_loop w)\<rparr>)"
| run_send: "pc (sw_loop w) = Running \<Longrightarrow> loop_free (sw_loop w) \<Longrightarrow> tasks (sw_loop w) \<noteq> [] \<Longrightarrow>
    jobs w ! hd (tasks (sw_loop w)) = Send_job tid q \<Longrightarrow> accepts wr (length (queued_bytes q)) \<Longrightarrow>
    has_room (queued_size q) (send_buffer (sw_conn w)) \<Longrightarrow>
    run_queued (thread_id (sw_loop w)) wr [] q (sw_conn w) = Inr (eff, c') \<Longrightarrow>
    send_step w (w\<lparr>sw_loop := take_task (sw_loop w), sw_conn := c', handed := handed w @ [(tid, queued_bytes q)]\<rparr>)"
| local: "user_code (sw_loop w) \<Longrightarrow> loop_free (sw_loop w) \<Longrightarrow> accepts wr (length msg) \<Longrightarrow>
    has_room (length msg) (send_buffer (sw_conn w)) \<Longrightarrow>
    sendInLoop (thread_id (sw_loop w)) wr msg (sw_conn w) = Inr (eff, c') \<Longrightarrow>
    send_step w (w\<lparr>sw_conn := c', handed := handed w @ [(thread_id (sw_loop w), msg)]\<rparr>)"
| writable: "pc (sw_loop w) = Handling ready \<Longrightarrow> accepts wr (readableBytes (send_buffer (sw_conn w))) \<Longrightarrow>
    handleWritable (thread_id (sw_loop w)) wr (sw_conn w) = Inr (eff, c') \<Longrightarrow> send_step w (w\<lparr>sw_conn := c'\<rparr>)"
| state: "send_step w (w\<lparr>sw_conn := (sw_conn w)\<lparr>state_of := st\<rparr>\<rparr>)"
| loop: "loop_step (sw_loop w) s' \<Longrightarrow> executed s' = executed (sw_loop w) \<Longrightarrow>
    submitted s' = submitted (sw_loop w) \<Longrightarrow> send_step w (w\<lparr>sw_loop := s'\<rparr>)"

definition send_start :: "tid \<Rightarrow> tcp_connection \<Rightarrow> send_world" where
  "send_start tid c = \<lparr>sw_loop = EventLoop_init tid, sw_conn = c, jobs = [], handed = []\<rparr>"

section \<open>The invariant\<close>

definition job_ok :: "tid \<Rightarrow> job \<Rightarrow> bool" where
  "job_ok tid j \<longleftrightarrow>
     (case j of
        Other_job \<Rightarrow> True
      | Send_job other q \<Rightarrow> other \<noteq> tid \<and> ((\<exists>d. q = QueueSend d) \<or> (\<exists>b. q = QueueSendBuffer b \<and> buf_inv b)))"

definition from_others :: "send_world \<Rightarrow> (tid \<times> byte list) list" where
  "from_others w = filter (\<lambda>m. fst m \<noteq> thread_id (sw_loop w)) (handed w)"

definition sends_run :: "send_world \<Rightarrow> (tid \<times> byte list) list" where
  "sends_run w = concat (map (\<lambda>n. job_sends (jobs w ! n)) (executed (sw_loop w)))"

definition stream :: "tcp_connection \<Rightarrow> byte list" where
  "stream c = wire c @ contents (send_buffer c)"

definition conn_part :: "send_world \<Rightarrow> bool" where
  "conn_part w \<longleftrightarrow> conn_ok (sw_conn w) \<and> loop_thread (sw_conn w) = thread_id (sw_loop w) \<and>
     stream (sw_conn w) = concat (map snd (handed w))"

definition job_part :: "send_world \<Rightarrow> bool" where
  "job_part w \<longleftrightarrow> loop_inv (sw_loop w) \<and> submitted (sw_loop w) = [0..<length (jobs w)] \<and>
     (\<forall>j \<in> set (jobs w). job_ok (thread_id (sw_loop w)) j) \<and> from_others w = sends_run w"

lemma executed_jobs:
  assumes "job_part w" and "n \<in> set (executed (sw_loop w) @ tasks (sw_loop w))"
  shows "n < length (jobs w)"
proof -
  have "n \<in> set (submitted (sw_loop w))" using assms by (auto simp: job_part_def loop_inv_def in_order_def)
  then show ?thesis using assms(1) by (simp add: job_part_def)
qed

lemma extends_conn_part:
  assumes "conn_part w" and "extends_stream d k (sw_conn w) c'"
  shows "conn_ok c'" "loop_thread c' = thread_id (sw_loop w)" "stream c' = concat (map snd (handed w)) @ d"
  using assms by (auto simp: conn_part_def extends_stream_def stream_def)

lemma add_job_inv:
  assumes "job_part w" and "may_call tid (sw_loop w)" and "job_ok (thread_id (sw_loop w)) j"
  shows "job_part (add_job tid j w)"
proof -
  have "loop_inv (push_task tid (length (jobs w)) (sw_loop w))"
    using loop_step_inv [OF loop_step.push [OF assms(2)]] assms(1) by (simp add: job_part_def)
  moreover have "sends_run (add_job tid j w) = sends_run w"
    using executed_jobs [OF assms(1)]
    by (auto simp: sends_run_def add_job_def push_task_def nth_append cong: map_cong intro!: arg_cong [of _ _ concat])
  ultimately show ?thesis using assms(1,3)
    by (simp add: job_part_def add_job_def push_task_def from_others_def)
qed

lemma run_job_inv:
  assumes "job_part w" and "pc (sw_loop w) = Running" and "loop_free (sw_loop w)" and "tasks (sw_loop w) \<noteq> []"
    and "hs = job_sends (jobs w ! hd (tasks (sw_loop w)))"
  shows "job_part (w\<lparr>sw_loop := take_task (sw_loop w), sw_conn := c', handed := handed w @ hs\<rparr>)"
proof -
  have "loop_inv (take_task (sw_loop w))"
    using loop_step_inv [OF loop_step.task [OF assms(2-4)]] assms(1) by (simp add: job_part_def)
  moreover have "hd (tasks (sw_loop w)) < length (jobs w)" using executed_jobs [OF assms(1)] assms(4) by simp
  then have "job_ok (thread_id (sw_loop w)) (jobs w ! hd (tasks (sw_loop w)))" using assms(1) by (simp add: job_part_def)
  then have "filter (\<lambda>m. fst m \<noteq> thread_id (sw_loop w)) hs = hs"
    unfolding assms(5) by (cases "jobs w ! hd (tasks (sw_loop w))") (auto simp: job_ok_def)
  ultimately show ?thesis using assms(1,5)
    by (simp add: job_part_def take_task_def from_others_def sends_run_def)
qed

lemma run_queued_stream:
  assumes "conn_ok c" and "job_ok tid (Send_job other q)" and "accepts wr (length (queued_bytes q))"
    and "has_room (queued_size q) (send_buffer c)" and "run_queued (loop_thread c) wr mem q c = Inr (eff, c')"
  shows "extends_stream (queued_bytes q) (queued_size q) c c'"
proof -
  consider d where "q = QueueSend d" | b where "q = QueueSendBuffer b" "buf_inv b"
    using assms(2) by (auto simp: job_ok_def)
  then show ?thesis
  proof cases
    case 1
    with sendInLoop_stream [OF assms(1), of wr d] assms(3-) show ?thesis by (auto simp: run_queued_def)
  next
    case 2
    with sendInLoop_buffer_stream [OF assms(1) 2(2), of wr] assms(3-) show ?thesis
      by (auto simp: run_queued_def length_contents buf_inv_wf)
  qed
qed

lemma send_step_thread: "send_step w w' \<Longrightarrow> thread_id (sw_loop w') = thread_id (sw_loop w)"
  by (induction rule: send_step.induct) (auto simp: add_job_def push_task_def take_task_def step_thread_id)

lemma send_step_inv: "send_step w w' \<Longrightarrow> conn_part w \<and> job_part w \<Longrightarrow> conn_part w' \<and> job_part w'"
proof (induction rule: send_step.induct)
  case (cross tid w wr msg q c')
  then have "\<exists>d. q = QueueSend d" by (auto simp: send_def in_loop_def conn_part_def isInLoopThread_def split: if_splits)
  then have "job_ok (thread_id (sw_loop w)) (Send_job tid q)" using cross(2) by (auto simp: job_ok_def isInLoopThread_def)
  with add_job_inv [of w tid] cross show ?case by (auto simp: conn_part_def add_job_def push_task_def)
next
  case (cross_buffer tid w b wr q c' b')
  then have "q = QueueSendBuffer b"
    by (auto simp: send_buf_def in_loop_def conn_part_def isInLoopThread_def buf_swap_def Let_def bind_res_eq_Inr
        split: if_splits)
  then have "job_ok (thread_id (sw_loop w)) (Send_job tid q)"
    using cross_buffer(2,3) by (auto simp: job_ok_def isInLoopThread_def)
  with add_job_inv [of w tid] cross_buffer show ?case by (auto simp: conn_part_def add_job_def push_task_def)
next
  case (other tid w)
  with add_job_inv [of w tid Other_job] show ?case by (auto simp: conn_part_def add_job_def push_task_def job_ok_def)
next
  case (run_other w)
  with run_job_inv [of w "[]" "sw_conn w"] show ?case by (auto simp: conn_part_def take_task_def)
next
  case (run_send w tid q wr eff c')
  then have c: "conn_ok (sw_conn w)" "loop_thread (sw_conn w) = thread_id (sw_loop w)" by (simp_all add: conn_part_def)
  have "hd (tasks (sw_loop w)) < length (jobs w)" using executed_jobs [of w] run_send by simp
  then have "job_ok (thread_id (sw_loop w)) (Send_job tid q)" 
    using run_send(4,8) unfolding job_part_def by (metis nth_mem)
  with run_queued_stream [OF c(1) _ run_send(5,6)] run_send(7) c(2)
  have "extends_stream (queued_bytes q) (queued_size q) (sw_conn w) c'" by simp
  note ext = extends_conn_part [OF conjunct1 [OF run_send(8)] this]
  have "job_part (w\<lparr>sw_loop := take_task (sw_loop w), sw_conn := c', handed := handed w @ [(tid, queued_bytes q)]\<rparr>)"
    by (rule run_job_inv) (use run_send in simp_all)
  with ext show ?case by (simp add: conn_part_def take_task_def)
next
  case (local w wr msg eff c')
  then have "extends_stream msg (length msg) (sw_conn w) c'"
    using sendInLoop_stream [of "sw_conn w" wr msg] by (auto simp: conn_part_def)
  note ext = extends_conn_part [OF conjunct1 [OF local(6)] this]
  with local(6) show ?case by (simp add: conn_part_def job_part_def from_others_def sends_run_def)
next
  case (writable w ready wr eff c')
  then have "extends_stream [] 0 (sw_conn w) c'"
    using handleWritable_stream [of "sw_conn w" wr] by (auto simp: conn_part_def)
  note ext = extends_conn_part [OF conjunct1 [OF writable(4)] this]
  with writable(4) show ?case by (simp add: conn_part_def job_part_def from_others_def sends_run_def)
next
  case (state w st)
  then show ?case by (simp add: conn_part_def job_part_def from_others_def sends_run_def conn_ok_def stream_def)
next
  case (loop w s')
  have "loop_inv s'" "thread_id s' = thread_id (sw_loop w)"
    using loop loop_step_inv [OF loop(1)] step_thread_id [OF loop(1)] by (simp_all add: job_part_def)
  with loop show ?case by (auto simp: conn_part_def job_part_def from_others_def sends_run_def)
qed

lemma send_run_inv:
  assumes "conn_ok c" and "loop_thread c = tid" and "stream c = []" and "send_step\<^sup>*\<^sup>* (send_start tid c) w"
  shows "conn_part w \<and> job_part w \<and> thread_id (sw_loop w) = tid"
  using assms(4)
proof (induction rule: rtranclp_induct)
  case base
  have "loop_inv (EventLoop_init tid)" by (rule reachable_inv [OF reachable.init])
  then show ?case using assms(1-3)
    by (simp add: send_start_def conn_part_def job_part_def from_others_def sends_run_def EventLoop_init_def)
next
  case (step w w')
  then show ?case using send_step_inv send_step_thread by metis
qed

section \<open>Messages of other threads arrive whole, once and in order\<close>

definition sent_by :: "tid \<Rightarrow> send_world \<Rightarrow> (tid \<times> byte list) list" where
  "sent_by other w = filter (\<lambda>m. fst m = other) (concat (map job_sends (jobs w)))"

lemma executed_prefix:
  assumes "job_part w"
  shows "\<exists>rest. concat (map job_sends (jobs w)) = sends_run w @ rest \<and>
    (tasks (sw_loop w) = [] \<longrightarrow> task_queue (sw_loop w) = [] \<longrightarrow> rest = [])"
proof -
  let ?s = "sw_loop w" and ?f = "\<lambda>n. job_sends (jobs w ! n)"
  have "[0..<length (jobs w)] = executed ?s @ tasks ?s @ task_queue ?s"
    using assms unfolding job_part_def loop_inv_def in_order_def by metis
  moreover have "map job_sends (jobs w) = map ?f [0..<length (jobs w)]"
    by (intro nth_equalityI) simp_all
  ultimately show ?thesis
    by (intro exI [of _ "concat (map ?f (tasks ?s @ task_queue ?s))"]) (simp add: sends_run_def)
qed

text \<open>
  Property C2. Sending from other threads is safe and ordered. Whatever the interleaving of the
  senders with the loop, and however the kernel cuts the writes, the bytes on the wire and in the
  send buffer are the concatenation of whole messages; the messages of another thread among them
  are the first ones this thread sent, in its order and each once; and when no task is left, they
  are all it sent.
\<close>
theorem cross_thread_sends_in_order:
  assumes "conn_ok c" and "loop_thread c = tid" and "wire c = []" and "contents (send_buffer c) = []"
    and "send_step\<^sup>*\<^sup>* (send_start tid c) w" and "other \<noteq> tid"
  shows "wire (sw_conn w) @ contents (send_buffer (sw_conn w)) = concat (map snd (handed w)) \<and>
    (\<exists>rest. sent_by other w = filter (\<lambda>m. fst m = other) (handed w) @ rest \<and>
       (tasks (sw_loop w) = [] \<longrightarrow> task_queue (sw_loop w) = [] \<longrightarrow> rest = []))"
proof -
  have inv: "conn_part w" "job_part w" "thread_id (sw_loop w) = tid"
    using send_run_inv [OF assms(1,2) _ assms(5)] assms(3,4) by (simp_all add: stream_def)
  have "filter (\<lambda>m. fst m = other) (handed w) = filter (\<lambda>m. fst m = other) (from_others w)"
    using inv(3) assms(6) by (auto simp: from_others_def intro: filter_cong)
  also have "\<dots> = filter (\<lambda>m. fst m = other) (sends_run w)" using inv(2) by (simp add: job_part_def)
  finally show ?thesis using executed_prefix [OF inv(2)] inv(1)
    by (fastforce simp: sent_by_def conn_part_def stream_def)
qed

text \<open>A run: thread 2 sends two bytes through the loop of thread 1.\<close>

lemma loop_steps_send:
  "quiet_step\<^sup>*\<^sup>* s s' \<Longrightarrow>
   send_step\<^sup>*\<^sup>* (w\<lparr>sw_loop := s\<rparr>) (w\<lparr>sw_loop := s'\<rparr>)"
proof (induction rule: rtranclp_induct)
  case (step s' s'')
  then have "send_step (w\<lparr>sw_loop := s'\<rparr>) (w\<lparr>sw_loop := s'\<rparr>\<lparr>sw_loop := s''\<rparr>)" 
    by (intro send_step.loop) (simp_all add: quiet_step_def)
  with step.IH show ?case by simp
qed simp

theorem cross_thread_sends_in_order_witness:
  "\<exists>w. send_step\<^sup>*\<^sup>* (send_start 1 small_conn) w \<and> handed w = [(2, [1, 2])] \<and>
     wire (sw_conn w) @ contents (send_buffer (sw_conn w)) = [1, 2] \<and> sent_by 2 w = [(2, [1, 2])]"
proof -
  let ?q = "QueueSend [1, 2] :: effect" and ?j = "Send_job 2 (QueueSend [1, 2])"
  let ?w0 = "send_start 1 small_conn"
  let ?w1 = "add_job 2 ?j ?w0" let ?w2 = "?w1\<lparr>sw_loop := serving_loop\<rparr>"
  have l: "loop_thread small_conn = 1" "send_buffer small_conn = small_buffer" "state_of small_conn = Connected"
    "wire small_conn = []" by (simp_all add: small_conn_def)
  have small: "contents small_buffer = []" by (simp add: small_buffer_def buf_eval)
  have room: "has_room (Suc (Suc 0)) small_buffer" by (simp add: has_room_def small_buffer_def VECTOR_MAX_def)
  have s1: "send_step ?w0 ?w1"
    by (rule send_step.cross [of _ _ undefined "[1, 2]"])
      (simp_all add: send_start_def EventLoop_init_def may_call_def isInLoopThread_def send_def in_loop_def l)
  have s2: "send_step\<^sup>*\<^sup>* ?w1 ?w2"
    using loop_steps_send [OF serving_loop_steps, of ?w1] by (simp add: add_job_def send_start_def)
  obtain eff c' where run: "run_queued 1 (WriteCount 2) [] ?q small_conn = Inr (eff, c')"
    using sendInLoop_stream [OF small_conn_ok, of "WriteCount 2" "[1, 2]"] l room
    by (auto simp: run_queued_def accepts_def)
  have srv: "pc serving_loop = Running" "loop_free serving_loop" "tasks serving_loop = [0]" "thread_id serving_loop = 1"
    "task_queue serving_loop = []"
    by (simp_all add: serving_loop_def loop_free_def queued_loop_fields)
  let ?w3 = "?w2\<lparr>sw_loop := take_task serving_loop, sw_conn := c', handed := [(2, [1, 2])]\<rparr>"
  have "send_step ?w2 ?w3"
    using send_step.run_send [of ?w2 2 ?q "WriteCount 2" eff c'] srv run l room
    by (simp add: add_job_def send_start_def accepts_def)
  with s1 s2 have r: "send_step\<^sup>*\<^sup>* ?w0 ?w3"
    by (meson converse_rtranclp_into_rtranclp rtranclp.rtrancl_into_rtrancl)
  from cross_thread_sends_in_order [OF small_conn_ok l(1,4) _ r, of 2] r srv l small show ?thesis
    by (intro exI [of _ ?w3]) (auto simp: take_task_def)
qed

end
