(* ===== verification/ServerLifetime.thy ===== *)
theory ServerLifetime
  imports TcpServer
begin

text \<open>
  Who keeps a connection of a \<open>TcpServer\<close> alive, and what the destruction of the server leaves
  behind. Connections are shared pointers: they are held by the server's table, by the tasks that
  wait in the loops, and by the close callback, a lambda that captures the connection it is
  installed in (\<open>TcpServer.cpp\<close>, the callback for new connections).
\<close>

section \<open>Owners of a connection\<close>

datatype owner = InTable string | InTask nat server_task | InCloseCallback

definition keeps_alive :: "server_world \<Rightarrow> owner \<Rightarrow> conn_id \<Rightarrow> bool" where
  "keeps_alive w ow cid \<longleftrightarrow>
     (case ow of
        InTable n \<Rightarrow> connections (server w) n = Some cid
      | InTask l t \<Rightarrow> t \<in> set (pending w l) \<and> task_conn t = cid
      | InCloseCallback \<Rightarrow> map_option (close_callback \<circ> snd) (objects w cid) = Some (Some SERVER_CLOSE))"

text \<open>The death of objects whose last owner is gone: the channel and the socket die with them.\<close>

definition drop_unowned :: "server_world \<Rightarrow> server_world" where
  "drop_unowned w = w\<lparr>objects := objects w |` {cid. \<exists>ow. keeps_alive w ow cid}\<rparr>"

section \<open>The table names what it holds\<close>

definition table_ok :: "server_world \<Rightarrow> bool" where
  "table_ok w \<longleftrightarrow> (\<forall>n x. connections (server w) n = Some x \<longrightarrow> n = conn_name_of (server w) (int x))"

definition shrinks :: "server_world \<Rightarrow> server_world \<Rightarrow> bool" where
  "shrinks w w' \<longleftrightarrow> server_name (server w') = server_name (server w) \<and>
     connections (server w') \<subseteq>\<^sub>m connections (server w)"

lemma table_ok_shrinks: "table_ok w \<Longrightarrow> shrinks w w' \<Longrightarrow> table_ok w'"
  by (force simp: table_ok_def shrinks_def conn_name_of_def map_le_def dom_def)

lemma exec_task_shrinks: "exec_task t w = Inr w' \<Longrightarrow> shrinks w w'"
  by (auto simp: exec_task_def task_body_def removeConnectionInLoop_def update_conn_def shrinks_def queue_task_def Let_def
      map_le_def bind_res_eq_Inr split: server_task.splits option.splits if_splits)

lemma run_in_shrinks: "run_in here l t w = Inr w' \<Longrightarrow> shrinks w w'"
  using exec_task_shrinks by (auto simp: run_in_def shrinks_def queue_task_def split: if_splits)

lemma newConnection_table:
  assumes "newConnection here conn_fd w = Inr w'" and "1 \<le> next_conn_id (server w)" and "table_ok w"
  shows "table_ok w'"
proof -
  obtain l pool c where "run_in here l (TEstablished (nat (next_conn_id (server w))))
      (w\<lparr>server := (server w)\<lparr>next_conn_id := next_conn_id (server w) + 1, thread_pool := pool,
         connections := (connections (server w))(conn_name_of (server w) (next_conn_id (server w)) \<mapsto>
           nat (next_conn_id (server w)))\<rparr>, objects := (objects w)(nat (next_conn_id (server w)) \<mapsto> c)\<rparr>) = Inr w'"
    (is "run_in _ _ _ ?w = _")
    using assms(1) by (auto simp: newConnection_def Let_def case_prod_beta bind_res_eq_Inr split: if_splits)
  moreover have "table_ok ?w" using assms(2,3) by (simp add: table_ok_def conn_name_of_def)
  ultimately show ?thesis using table_ok_shrinks run_in_shrinks by blast
qed

lemma server_step_table: "server_step w w' \<Longrightarrow> world_inv w \<Longrightarrow> table_ok w \<Longrightarrow> table_ok w'"
proof (induction rule: server_step.induct)
  case (accept w conn_fd w')
  then have "1 \<le> next_conn_id (server w)" by (simp add: world_inv_def others_ok_def)
  with accept newConnection_table [of _ conn_fd w w'] show ?case
    by (auto simp: acceptor_readable_def Acceptor_handleRead_def split: if_splits)
next
  case (task w l t ts w')
  have "shrinks w w'" using exec_task_shrinks [OF task(2)] by (simp add: shrinks_def)
  then show ?case using task table_ok_shrinks by blast
next
  case (readable w cid l c r w')
  then have "shrinks w w'"
    using run_in_shrinks
    by (fastforce simp: conn_readable_def update_conn_def removeConnection_def shrinks_def bind_res_eq_Inr split: if_splits)
  then show ?case using readable table_ok_shrinks by blast
next
  case (user op cid w w')
  then have "shrinks w w'" by (auto simp: conn_user_def update_conn_def shrinks_def bind_res_eq_Inr split: option.splits)
  then show ?case using user table_ok_shrinks by blast
next
  case (consume w cid l c b)
  then show ?case by (simp add: table_ok_def)
qed

lemma server_reach_table: "server_reach s w \<Longrightarrow> table_ok w"
proof (induction rule: server_reach.induct)
  case init
  then show ?case by (simp add: table_ok_def fresh_world_def)
next
  case (step w w')
  then show ?case using server_step_table server_reach_inv by blast
qed

section \<open>No connection of a server dies\<close>

lemma eof_closes:
  assumes "buf_inv (receive_buffer c)" and "state_of c = Connected \<or> state_of c = Disconnecting"
    and "close_callback c = Some cb" and "loop_thread c = tid"
  shows "\<exists>b. buf_inv b \<and> handleReadable tid (ReadBytes []) c =
      Inr ([UpdateChannel (events (ignoreAll (chan c))), CallClose cb],
           c\<lparr>receive_buffer := b, state_of := Disconnected, chan := ignoreAll (chan c)\<rparr>)"
proof -
  have "has_room 0 (receive_buffer c)" using assms(1) by (simp add: has_room_def buf_inv_def)
  then obtain b where "readFd (ReadBytes []) (receive_buffer c) = Inr (0, None, b)" "buf_inv b"
    using readFd_ok [OF assms(1), of "[]"] by auto
  then show ?thesis using assms(2-4) by (auto simp: handleReadable_def handleClose_def in_loop_def Let_def)
qed

text \<open>
  A server without workers for the witnesses: a world in which a connection is established, and
  the one after its peer has closed it and its tasks have run.
\<close>

definition plain_server :: tcp_server where
  "plain_server = TcpServer_new 0 ''srv'' \<lparr>acc_channel = Channel_new 0 3, acc_callback = False, is_listening = False\<rparr>"

lemma plain_world:
  "\<exists>w c. server_reach plain_server w \<and> objects w 1 = Some (0, c) \<and> isReading (chan c) \<and> state_of c = Connected \<and>
     loop_thread c = 0 \<and> close_callback c = Some SERVER_CLOSE \<and> buf_inv (receive_buffer c) \<and>
     server w = plain_server\<lparr>next_conn_id := 2, connections := [conn_name c \<mapsto> 1]\<rparr> \<and> pending w = (\<lambda>_. [])"
proof -
  let ?w = "fresh_world plain_server"
  have i: "server_reach plain_server ?w"
    by (rule server_reach.init) (simp_all add: plain_server_def TcpServer_new_def)
  have s: "next_conn_id plain_server = 1" "server_loop plain_server = 0" "connections plain_server = Map.empty"
    "acc_callback (server_acceptor plain_server)" "getNextLoop (thread_pool plain_server) = (0, thread_pool plain_server)"
    by (simp_all add: plain_server_def TcpServer_new_def acc_setNewConnectionCallback_def getNextLoop_def
        EventLoopThreadPool_new_def)
  let ?nm = "conn_name_of plain_server 1"
  obtain c where c: "TcpConnection_new (loop_tid 0) 0 1 ?nm 7 = Inr c" "state_of c = Connecting" "conn_name c = ?nm"
      "loop_thread c = 0" "buf_inv (receive_buffer c)"
    using TcpConnection_new_ok [of "loop_tid 0" 0 1 ?nm 7] by (auto simp: loop_tid_def)
  let ?c0 = "set_callbacks plain_server c"
  let ?c = "?c0\<lparr>state_of := Connected, chan := listenTillReadable (tie 1 (chan ?c0))\<rparr>"
  let ?w1 = "?w\<lparr>server := plain_server\<lparr>next_conn_id := 2, connections := [?nm \<mapsto> 1]\<rparr>, objects := [1 \<mapsto> (0, ?c)],
      performed := [TEstablished 1]\<rparr>"
  have "acceptor_readable (server_loop (server ?w)) 7 ?w = Inr ?w1"
    using c by (simp add: acceptor_readable_def Acceptor_handleRead_def newConnection_def fresh_world_def s Let_def
        run_in_def exec_task_def note_task_def task_body_def update_conn_def connectionEstablished_def in_loop_def loop_tid_def)
  from server_reach.step [OF i server_step.accept [OF this]] show ?thesis
    using c(3-5) by (intro exI [of _ ?w1] exI [of _ ?c]) (simp add: fresh_world_def)
qed

lemma closed_world:
  "\<exists>w c. server_reach plain_server w \<and> objects w 1 = Some (0, c) \<and> state_of c = Disconnected \<and> pending w = (\<lambda>_. [])"
proof -
  obtain w c where w: "server_reach plain_server w" "objects w 1 = Some (0, c)" "isReading (chan c)"
      "state_of c = Connected" "loop_thread c = 0" "close_callback c = Some SERVER_CLOSE" "buf_inv (receive_buffer c)"
      "server w = plain_server\<lparr>next_conn_id := 2, connections := [conn_name c \<mapsto> 1]\<rparr>" "pending w = (\<lambda>_. [])"
    using plain_world by blast
  have sl: "server_loop plain_server = 0" by (simp add: plain_server_def TcpServer_new_def)
  obtain b where b: "handleReadable 0 (ReadBytes []) c =
      Inr ([UpdateChannel (events (ignoreAll (chan c))), CallClose SERVER_CLOSE],
           c\<lparr>receive_buffer := b, state_of := Disconnected, chan := ignoreAll (chan c)\<rparr>)"
    using eof_closes [OF w(7) _ w(6,5)] w(4) by auto
  let ?c = "c\<lparr>receive_buffer := b, state_of := Disconnected, chan := ignoreAll (chan c)\<rparr>"
  obtain w1 where w1: "conn_readable 1 (ReadBytes []) w = Inr w1" "objects w1 1 = Some (0, ?c)"
      "pending w1 = (\<lambda>_. [])(0 := [TDestroyed 1])"
    using w b by (simp add: conn_readable_def update_conn_def loop_tid_def Let_def removeConnection_def run_in_def exec_task_def task_body_def removeConnectionInLoop_def queue_task_def sl)
  have r1: "server_reach plain_server w1"
    by (rule server_reach.step [OF w(1) server_step.readable [OF w(2,3) _ w1(1)]])
      (use w(7) in \<open>simp add: read_ok_def has_room_def buf_inv_def\<close>)
  have "exec_task (TDestroyed 1) (w1\<lparr>pending := (pending w1)(0 := [])\<rparr>) =
      Inr (w1\<lparr>pending := (\<lambda>_. []), objects := (objects w1)(1 \<mapsto> (0, ?c\<lparr>chan := ignoreAll (chan ?c)\<rparr>)),
             performed := performed w1 @ [TDestroyed 1]\<rparr>)"
    using w1(2,3) w(5) by (simp add: exec_task_def note_task_def task_body_def update_conn_def connectionDestroyed_def in_loop_def loop_tid_def Let_def fun_upd_idem)
  from server_reach.step [OF r1 server_step.task [OF _ this]] w1(3) show ?thesis by fastforce
qed

lemma reach_close_callback:
  assumes "server_reach s w" and "objects w cid = Some (l, c)"
  shows "close_callback c = Some SERVER_CLOSE"
proof -
  have "others_ok 0 w" using server_reach_inv [OF assms(1)] by (simp add: world_inv_def)
  then show ?thesis using conn_goodD(2) [OF others_okD(2) assms(2)] by blast
qed

text \<open>
  Property C35. A connection of a server is never freed. At every reachable moment its own close
  callback owns it, so that the disappearance of all other owners destroys nothing. Once it is
  disconnected and no task waits for it, after \<open>connectionDestroyed\<close> has run, this callback is the
  only owner: a cycle that nothing breaks, and the object, its channel and its descriptor stay for
  the life of the process.
\<close>
theorem server_connections_leak:
  assumes "server_reach s w" and "objects w cid = Some (l, c)"
  shows "keeps_alive w InCloseCallback cid \<and> drop_unowned w = w \<and>
    (state_of c = Disconnected \<longrightarrow> (\<forall>k. \<forall>t \<in> set (pending w k). task_conn t \<noteq> cid) \<longrightarrow>
       (\<forall>ow. keeps_alive w ow cid \<longleftrightarrow> ow = InCloseCallback))"
proof -
  have own: "keeps_alive w InCloseCallback x" if "objects w x \<noteq> None" for x
    using reach_close_callback [OF assms(1), of x] that by (auto simp: keeps_alive_def)
  then have "objects w |` {x. \<exists>ow. keeps_alive w ow x} = objects w"
    by (intro ext) (metis (mono_tags, lifting) mem_Collect_eq restrict_in restrict_out)
  then have "drop_unowned w = w" by (simp add: drop_unowned_def)
  moreover have "keeps_alive w ow cid \<longleftrightarrow> ow = InCloseCallback"
    if "state_of c = Disconnected" "\<forall>k. \<forall>t \<in> set (pending w k). task_conn t \<noteq> cid" for ow
  proof (cases ow)
    case (InTable n)
    have "conn_phase_ok w cid" using server_reach_inv [OF assms(1)] world_inv_iff [of w cid] by simp
    moreover have "TRemove cid \<notin> set (pending w k)" for k using that(2) by fastforce
    ultimately have "\<not> registered cid c w"
      using assms(2) that(1) by (auto simp: conn_phase_ok_def phase_ok_def n_rem_def)
    moreover have "conn_name c = conn_name_of (server w) (int cid)"
      using server_reach_inv [OF assms(1)] conn_goodD(3) [OF others_okD(2) assms(2)] by (auto simp: world_inv_def)
    ultimately show ?thesis using server_reach_table [OF assms(1)] InTable
      by (auto simp: table_ok_def keeps_alive_def registered_def)
  next
    case (InTask k t)
    then show ?thesis using that(2) by (auto simp: keeps_alive_def)
  next
    case InCloseCallback
    then show ?thesis using own assms(2) by simp
  qed
  ultimately show ?thesis using own assms(2) by blast
qed

theorem server_connections_leak_witness:
  "\<exists>w c. server_reach plain_server w \<and> objects w 1 = Some (0, c) \<and> state_of c = Disconnected \<and>
     (\<forall>ow. keeps_alive w ow 1 \<longleftrightarrow> ow = InCloseCallback)"
proof -
  obtain w c where w: "server_reach plain_server w" "objects w 1 = Some (0, c)" "state_of c = Disconnected" "pending w = (\<lambda>_. [])"
    using closed_world by blast
  with server_connections_leak [OF w(1,2)] show ?thesis by auto
qed

section \<open>After the destructor\<close>

text \<open>
  \<open>~TcpServer\<close> clears \<open>started_\<close> and destroys the members: the pool joins its threads, whose loops die
  with their queues (the last iterations of these loops are steps of the world before), and the
  table goes. What is left are the loops outside of the pool and the connections some owner still
  holds.
\<close>

record orphan_world =
  orphans :: "conn_id \<rightharpoonup> (nat \<times> tcp_connection)"
  waiting :: "nat \<Rightarrow> server_task list"

definition TcpServer_delete :: "server_world \<Rightarrow> orphan_world" where
  "TcpServer_delete w =
     (let q = (\<lambda>l. if l \<in> set (loops (thread_pool (server w))) then [] else pending w l);
          w1 = w\<lparr>server := (server w)\<lparr>started := False, connections := Map.empty\<rparr>, pending := q\<rparr>
      in \<lparr>orphans = objects (drop_unowned w1), waiting = q\<rparr>)"

text \<open>
  A readable event of a connection that is left, and the tasks that are: \<open>removeConnection\<close>, which the close
  callback calls, and \<open>removeConnectionInLoop\<close> are calls on the destroyed server.
\<close>

definition orphan_readable :: "conn_id \<Rightarrow> read_result \<Rightarrow> orphan_world \<Rightarrow> orphan_world res" where
  "orphan_readable cid r w =
     (case orphans w cid of
        None \<Rightarrow> Inl UseAfterFree
      | Some (l, c) \<Rightarrow>
          bind_res (handleReadable (loop_tid l) r c) (\<lambda>(eff, c').
            if CallClose SERVER_CLOSE \<in> set eff then Inl UseAfterFree
            else Inr (w\<lparr>orphans := (orphans w)(cid \<mapsto> (l, c'))\<rparr>)))"



end
