(* ===== verification/ConnectionContext.thy ===== *)
theory ConnectionContext
  imports TcpConnection Socket
begin

text \<open>
  What a user of a \<open>TcpConnection\<close> keeps with it and sets on it (\<open>net/TcpConnection.hpp\<close>): the context, a
  \<open>std::any\<close>, and the options of its socket. A \<open>std::any\<close> is empty or holds a value together with the type
  it was stored as; types and values are numbers.
\<close>

section \<open>The context\<close>

type_synonym type_id = nat

datatype any = EmptyAny | AnyOf type_id nat

definition any_cast :: "type_id \<Rightarrow> any \<Rightarrow> nat res" where
  "any_cast T a = (case a of EmptyAny \<Rightarrow> Inl BadAnyCast | AnyOf U v \<Rightarrow> if T = U then Inr v else Inl BadAnyCast)"

record connection_with_context = tcp_connection +
  context_of :: any

definition setContext :: "any \<Rightarrow> connection_with_context \<Rightarrow> connection_with_context" where
  "setContext a c = c\<lparr>context_of := a\<rparr>"

definition hasContext :: "type_id \<Rightarrow> connection_with_context \<Rightarrow> bool" where
  "hasContext T c \<longleftrightarrow> (case context_of c of EmptyAny \<Rightarrow> False | AnyOf U v \<Rightarrow> U = T)"

definition getContextAs :: "type_id \<Rightarrow> connection_with_context \<Rightarrow> nat res" where
  "getContextAs T c = any_cast T (context_of c)"

text \<open>What was stored is found again under its own type; \<open>hasContext\<close> tells when \<open>getContextAs\<close> throws.\<close>

lemma context_roundtrip:
  "getContextAs T (setContext (AnyOf T v) c) = Inr v"
  "hasContext T c \<longleftrightarrow> is_ok (getContextAs T c)"
  "T \<noteq> U \<Longrightarrow> getContextAs U (setContext (AnyOf T v) c) = Inl BadAnyCast"
  "tcp_connection.truncate (setContext a c) = tcp_connection.truncate c"
  by (auto simp: getContextAs_def setContext_def hasContext_def any_cast_def tcp_connection.defs split: any.split)

section \<open>Options of the socket\<close>

text \<open>The socket of a connection and its channel have the same descriptor.\<close>

definition conn_setTcpNoDelay :: "bool \<Rightarrow> bool \<Rightarrow> tcp_connection \<Rightarrow> kernel_options \<Rightarrow> kernel_options" where
  "conn_setTcpNoDelay opt_ok on c k = setTcpNoDelay opt_ok (fd_of (chan c)) on k"

definition conn_setKeepAlive :: "bool \<Rightarrow> bool \<Rightarrow> tcp_connection \<Rightarrow> kernel_options \<Rightarrow> kernel_options" where
  "conn_setKeepAlive opt_ok on c k = setKeepAlive_to opt_ok (fd_of (chan c)) on k"

lemma conn_options:
  "conn_setTcpNoDelay True on c k (fd_of (chan c)) TCP_NODELAY = (if on then 1 else 0)"
  "conn_setKeepAlive True on c k (fd_of (chan c)) SO_KEEPALIVE = (if on then 1 else 0)"
  "fd \<noteq> fd_of (chan c) \<Longrightarrow> conn_setTcpNoDelay ok on c k fd = k fd"
  "fd \<noteq> fd_of (chan c) \<Longrightarrow> conn_setKeepAlive ok on c k fd = k fd"
  by (simp_all add: conn_setTcpNoDelay_def conn_setKeepAlive_def setTcpNoDelay_def setKeepAlive_to_def setsockopt_def)

end
