(* ===== verification/EchoBench.thy ===== *)
theory EchoBench
  imports TcpServer
begin

text \<open>
  \<open>benchmark/echo_bench.cpp\<close>: the echo server, the client's callbacks with their statistics, the
  division of the connections among the client's threads, and the command line. The counters are
  unbounded; \<open>get_nprocs\<close> is an argument.
\<close>

section \<open>The server\<close>

definition ECHO :: nat where
  "ECHO = 1"

definition run_server ::
  "(nat \<Rightarrow> nat) \<Rightarrow> fd \<Rightarrow> int \<Rightarrow> int \<Rightarrow> int \<Rightarrow> tcp_server res" where
  "run_server worker_loop s bind_ret listen_ret thread_num =
     bind_res (Acceptor_new 0 s bind_ret) (\<lambda>a.
       TcpServer_start worker_loop listen_ret
         (server_setMessageCallback (Some ECHO) (server_setThreadNum thread_num (TcpServer_new 0 ''EchoServer'' a))))"

text \<open>The message callback: \<open>send\<close> of what the buffer holds, then \<open>retrieveAll\<close>.\<close>

definition echo_onMessage :: "tid \<Rightarrow> write_result \<Rightarrow> tcp_connection \<Rightarrow> conn_result" where
  "echo_onMessage tid w c =
     bind_res (peek_at (receive_buffer c) 0 (readableBytes (receive_buffer c))) (\<lambda>d.
       bind_res (send_ptr tid w d 0 (readableBytes (receive_buffer c)) c) (\<lambda>(eff, c1).
         Inr (eff, c1\<lparr>receive_buffer := retrieveAll (receive_buffer c1)\<rparr>)))"

text \<open>A readable event of a connection whose message callback is this one.\<close>

definition echo_read :: "tid \<Rightarrow> byte list \<Rightarrow> write_result \<Rightarrow> tcp_connection \<Rightarrow> conn_result" where
  "echo_read tid d w c =
     bind_res (handleReadable tid (ReadBytes d) c) (\<lambda>(eff, c1).
       if CallMessage ECHO \<in> set eff
       then bind_res (echo_onMessage tid w c1) (\<lambda>(eff2, c2). Inr (eff @ eff2, c2))
       else Inr (eff, c1))"

datatype echo_event = Arrives "byte list" write_result | CanWrite write_result

fun echo_step :: "echo_event \<Rightarrow> tcp_connection \<Rightarrow> conn_result" where
  "echo_step (Arrives d w) c = echo_read (loop_thread c) d w c"
| "echo_step (CanWrite w) c = handleWritable (loop_thread c) w c"

fun echo_run :: "echo_event list \<Rightarrow> tcp_connection \<Rightarrow> conn_result" where
  "echo_run [] c = Inr ([], c)"
| "echo_run (e # es) c =
     bind_res (echo_step e c) (\<lambda>(eff, c1). bind_res (echo_run es c1) (\<lambda>(eff2, c2). Inr (eff @ eff2, c2)))"

fun arrived :: "echo_event \<Rightarrow> byte list" where
  "arrived (Arrives d w) = d"
| "arrived (CanWrite w) = []"

text \<open>What the kernel may do along the run: reads that fit, writes of at most what is offered.\<close>

fun echo_kernel :: "echo_event list \<Rightarrow> tcp_connection \<Rightarrow> bool" where
  "echo_kernel [] c \<longleftrightarrow> True"
| "echo_kernel (e # es) c \<longleftrightarrow>
     (case e of
        Arrives d w \<Rightarrow> d \<noteq> [] \<and> length d \<le> EXTRA_SIZE \<and> accepts w (length d)
      | CanWrite w \<Rightarrow> accepts w (readableBytes (send_buffer c))) \<and>
     (case echo_step e c of Inl _ \<Rightarrow> True | Inr (_, c') \<Rightarrow> echo_kernel es c')"

text \<open>A connection of the echo server between two events.\<close>

definition echo_ready :: "tcp_connection \<Rightarrow> bool" where
  "echo_ready c \<longleftrightarrow> conn_ok c \<and> state_of c = Connected \<and> message_callback c = Some ECHO \<and>
     contents (receive_buffer c) = [] \<and> write_index (receive_buffer c) + EXTRA_SIZE \<le> VECTOR_MAX"

definition same_user_side :: "tcp_connection \<Rightarrow> tcp_connection \<Rightarrow> bool" where
  "same_user_side c c' \<longleftrightarrow> state_of c' = state_of c \<and> message_callback c' = message_callback c \<and>
     receive_buffer c' = receive_buffer c"

lemma want_write_message [simp]: "message_callback (snd (want_write c)) = message_callback c"
  by (simp add: want_write_def Let_def)

lemma sendInLoop_user_side: "sendInLoop tid w msg c = Inr (eff, c') \<Longrightarrow> same_user_side c c'"
  by (auto simp: sendInLoop_def direct_write_def same_user_side_def Let_def case_prod_beta bind_res_eq_Inr
      split: if_splits write_result.splits)

lemma handleWritable_user_side:
  "handleWritable tid w c = Inr (eff, c') \<Longrightarrow> state_of c = Connected \<Longrightarrow> same_user_side c c'"
  by (cases w) (auto simp: handleWritable_def same_user_side_def Let_def case_prod_beta bind_res_eq_Inr
      split: if_splits write_result.splits)

lemma retrieveAll_index [simp]: "write_index (retrieveAll b) = CHEAP_PREPEND"
  by (simp add: retrieveAll_def)

lemma echo_onMessage_stream:
  assumes "conn_ok c" and "state_of c = Connected" and "accepts w (length (contents (receive_buffer c)))"
    and "has_room (length (contents (receive_buffer c))) (send_buffer c)"
  shows "\<exists>eff c'. echo_onMessage (loop_thread c) w c = Inr (eff, c') \<and>
    extends_stream (contents (receive_buffer c)) (length (contents (receive_buffer c))) c c' \<and>
    state_of c' = Connected \<and> message_callback c' = message_callback c \<and>
    contents (receive_buffer c') = [] \<and> write_index (receive_buffer c') = CHEAP_PREPEND"
proof -
  let ?rb = "receive_buffer c" let ?d = "contents ?rb"
  have inv: "buf_inv ?rb" using assms(1) by (simp add: conn_ok_def)
  have len: "readableBytes ?rb = length ?d" using inv by (simp add: length_contents buf_inv_wf)
  obtain eff c1 where s: "sendInLoop (loop_thread c) w ?d c = Inr (eff, c1)" "extends_stream ?d (length ?d) c c1"
    using sendInLoop_stream [OF assms(1,3,4)] by blast
  have side: "same_user_side c c1" by (rule sendInLoop_user_side [OF s(1)])
  let ?c = "c1\<lparr>receive_buffer := retrieveAll (receive_buffer c1)\<rparr>"
  have "echo_onMessage (loop_thread c) w c = Inr (eff, ?c)"
    using peek_all [OF inv] s(1) assms(2) by (simp add: echo_onMessage_def send_ptr_def in_loop_def mem_read_def len)
  moreover have "buf_inv (retrieveAll ?rb)" using retrieveAll_inv [OF buf_inv_wf [OF inv]] .
  ultimately show ?thesis using s(2) side assms(2)
    by (auto simp: extends_stream_def same_user_side_def conn_ok_def)
qed

lemma echo_read_stream:
  assumes "echo_ready c" and "d \<noteq> []" and "length d \<le> EXTRA_SIZE" and "accepts w (length d)"
    and "has_room (length d) (send_buffer c)"
  shows "\<exists>eff c'. echo_read (loop_thread c) d w c = Inr (eff, c') \<and> echo_ready c' \<and> extends_stream d (length d) c c'"
proof -
  have inv: "buf_inv (receive_buffer c)" using assms(1) by (simp add: echo_ready_def conn_ok_def)
  obtain b where b: "readFd (ReadBytes d) (receive_buffer c) = Inr (int (length d), None, b)" "buf_inv b" "contents b = d"
    using readFd_ok [OF inv, of d] assms(1,3) by (auto simp: echo_ready_def has_room_def)
  let ?c = "c\<lparr>receive_buffer := b\<rparr>"
  have "handleReadable (loop_thread c) (ReadBytes d) c = Inr ([CallMessage ECHO], ?c)"
    using b(1) assms(1,2) by (simp add: handleReadable_def in_loop_def Let_def opt_effect_def echo_ready_def)
  moreover have ok: "conn_ok ?c" using assms(1) b(2) by (simp add: echo_ready_def conn_ok_def)
  obtain eff c' where "echo_onMessage (loop_thread c) w ?c = Inr (eff, c')" "extends_stream d (length d) ?c c'"
      "state_of c' = Connected" "message_callback c' = message_callback c" "contents (receive_buffer c') = []"
      "write_index (receive_buffer c') = CHEAP_PREPEND"
    using echo_onMessage_stream [OF ok, of w] assms(1,4,5) b(3) by (auto simp: echo_ready_def)
  ultimately show ?thesis using assms(1)
    by (auto simp: echo_read_def echo_ready_def extends_stream_def CHEAP_PREPEND_def EXTRA_SIZE_def VECTOR_MAX_def)
qed

lemma echo_step_stream:
  assumes "echo_ready c" and "echo_kernel [e] c" and "has_room (length (arrived e)) (send_buffer c)"
  shows "\<exists>eff c'. echo_step e c = Inr (eff, c') \<and> echo_ready c' \<and> extends_stream (arrived e) (length (arrived e)) c c'"
proof (cases e)
  case (Arrives d w)
  with echo_read_stream [OF assms(1), of d w] assms show ?thesis by simp
next
  case (CanWrite w)
  have ok: "conn_ok c" "state_of c = Connected" using assms(1) by (simp_all add: echo_ready_def)
  obtain eff c' where s: "handleWritable (loop_thread c) w c = Inr (eff, c')" "extends_stream [] 0 c c'"
    using handleWritable_stream [OF ok(1), of w] assms(2) CanWrite by auto
  with handleWritable_user_side [OF s(1) ok(2)] assms(1) CanWrite show ?thesis
    by (auto simp: echo_ready_def same_user_side_def extends_stream_def)
qed

lemma echo_run_stream:
  "echo_ready c \<Longrightarrow> echo_kernel es c \<Longrightarrow> has_room (sum_list (map (\<lambda>e. length (arrived e)) es)) (send_buffer c) \<Longrightarrow>
   \<exists>eff c'. echo_run es c = Inr (eff, c') \<and> echo_ready c' \<and>
     wire c' @ contents (send_buffer c') = wire c @ contents (send_buffer c) @ concat (map arrived es)"
proof (induction es arbitrary: c)
  case (Cons e es)
  have "has_room (length (arrived e)) (send_buffer c)" "echo_kernel [e] c"
    using Cons.prems(2,3) by (auto simp: has_room_def split: sum.splits prod.splits)
  with echo_step_stream [OF Cons.prems(1)] obtain eff c1 where
    s: "echo_step e c = Inr (eff, c1)" "echo_ready c1" "extends_stream (arrived e) (length (arrived e)) c c1" by blast
  then have "has_room (sum_list (map (\<lambda>e. length (arrived e)) es)) (send_buffer c1)"
    using Cons.prems(3) by (auto simp: extends_stream_def has_room_def comp_def)
  with Cons.IH [OF s(2)] Cons.prems(2) s(1) obtain eff2 c2 where
    "echo_run es c1 = Inr (eff2, c2)" "echo_ready c2"
    "wire c2 @ contents (send_buffer c2) = wire c1 @ contents (send_buffer c1) @ concat (map arrived es)" by auto
  with s show ?case by (auto simp: extends_stream_def)
qed simp

text \<open>
  The echo server echoes. On a connection of the server, whatever bytes arrive, cut
  into whatever reads, and whatever part of each answer the kernel accepts at once, the bytes put
  on the wire followed by those still buffered are exactly the bytes that arrived, in order; no
  event faults, and nothing stays behind in the receive buffer.
\<close>
theorem echo_server_echoes:
  assumes "echo_ready c" and "echo_kernel es c"
    and "write_index (send_buffer c) + sum_list (map (\<lambda>e. length (arrived e)) es) \<le> VECTOR_MAX"
  shows "\<exists>eff c'. echo_run es c = Inr (eff, c') \<and> contents (receive_buffer c') = [] \<and>
    wire c' @ contents (send_buffer c') = wire c @ contents (send_buffer c) @ concat (map arrived es)"
  using echo_run_stream [OF assms(1,2)] assms(3) by (auto simp: has_room_def echo_ready_def)

theorem echo_server_echoes_witness:
  "\<exists>eff c'. echo_run [Arrives [1, 2, 3] (WriteCount 1), Arrives [4] (WriteError 11)] small_conn = Inr (eff, c') \<and>
     wire c' @ contents (send_buffer c') = [1, 2, 3, 4]"
proof -
  have c: "wire small_conn = []" "send_buffer small_conn = small_buffer" "receive_buffer small_conn = small_buffer"
    "state_of small_conn = Connected" "message_callback small_conn = Some ECHO"
    by (simp_all add: small_conn_def ECHO_def)
  have i: "write_index small_buffer = 8" by (simp add: small_buffer_def)
  have "echo_ready small_conn"
    using small_conn_ok by (simp add: echo_ready_def c i EXTRA_SIZE_def VECTOR_MAX_def)
  moreover have "echo_kernel [Arrives [1, 2, 3] (WriteCount 1), Arrives [4] (WriteError 11)] small_conn"
    by (simp add: accepts_def EXTRA_SIZE_def split: sum.split prod.split)
  ultimately show ?thesis
    using echo_server_echoes [of small_conn "[Arrives [1, 2, 3] (WriteCount 1), Arrives [4] (WriteError 11)]"]
    by (auto simp: c i VECTOR_MAX_def)
qed

section \<open>The client\<close>

record bench_stats =
  bytes_sent :: int
  bytes_received :: int
  messages_sent :: int
  messages_received :: int
  connections_active :: int
  test_finished :: bool

definition no_stats :: bench_stats where
  "no_stats = \<lparr>bytes_sent = 0, bytes_received = 0, messages_sent = 0, messages_received = 0,
     connections_active = 0, test_finished = False\<rparr>"

definition count_sent :: "byte list \<Rightarrow> bench_stats \<Rightarrow> bench_stats" where
  "count_sent payload st =
     st\<lparr>bytes_sent := bytes_sent st + int (length payload), messages_sent := messages_sent st + 1\<rparr>"

definition client_onConnection ::
  "byte list \<Rightarrow> tid \<Rightarrow> write_result \<Rightarrow> tcp_connection \<times> bench_stats \<Rightarrow> (effect list \<times> tcp_connection \<times> bench_stats) res" where
  "client_onConnection payload tid w = (\<lambda>(c, st).
     if connected c then
       bind_res (send tid w payload c) (\<lambda>(eff, c1).
         Inr (eff, c1, count_sent payload (st\<lparr>connections_active := connections_active st + 1\<rparr>)))
     else Inr ([], c, st))"

definition client_onMessage ::
  "byte list \<Rightarrow> tid \<Rightarrow> write_result \<Rightarrow> tcp_connection \<times> bench_stats \<Rightarrow> (effect list \<times> tcp_connection \<times> bench_stats) res" where
  "client_onMessage payload tid w = (\<lambda>(c, st).
     (let bytes = readableBytes (receive_buffer c);
          st1 = st\<lparr>bytes_received := bytes_received st + int bytes, messages_received := messages_received st + 1\<rparr>;
          c1 = c\<lparr>receive_buffer := retrieveAll (receive_buffer c)\<rparr>
      in if \<not> test_finished st1 then
           bind_res (send tid w payload c1) (\<lambda>(eff, c2). Inr (eff, c2, count_sent payload st1))
         else Inr ([], c1, st1)))"

definition CLIENT_MESSAGE :: nat where
  "CLIENT_MESSAGE = 1"

text \<open>The readable events of a connection of the client, each with the bytes it finds and the result of the write.\<close>

fun client_reads ::
  "byte list \<Rightarrow> (byte list \<times> write_result) list \<Rightarrow> tcp_connection \<times> bench_stats \<Rightarrow> (tcp_connection \<times> bench_stats) res" where
  "client_reads payload [] cs = Inr cs"
| "client_reads payload ((d, w) # es) cs =
     bind_res (handleReadable (loop_thread (fst cs)) (ReadBytes d) (fst cs)) (\<lambda>(eff, c1).
       if CallMessage CLIENT_MESSAGE \<in> set eff
       then bind_res (client_onMessage payload (loop_thread c1) w (c1, snd cs)) (\<lambda>(eff2, cs1).
              client_reads payload es cs1)
       else client_reads payload es (c1, snd cs))"

text \<open>The statistics of a run in which nothing has finished.\<close>

definition stats_ok :: "byte list \<Rightarrow> bench_stats \<Rightarrow> bool" where
  "stats_ok payload st \<longleftrightarrow> \<not> test_finished st \<and> bytes_sent st = int (length payload) * messages_sent st \<and>
     messages_sent st = connections_active st + messages_received st"

lemma client_onMessage_stream:
  assumes "conn_ok c" and "state_of c = Connected" and "accepts w (length payload)"
    and "has_room (length payload) (send_buffer c)" and "stats_ok payload st"
  shows "\<exists>eff c' st'. client_onMessage payload (loop_thread c) w (c, st) = Inr (eff, c', st') \<and>
    extends_stream payload (length payload) c c' \<and> state_of c' = Connected \<and> message_callback c' = message_callback c \<and>
    contents (receive_buffer c') = [] \<and> write_index (receive_buffer c') = CHEAP_PREPEND \<and>
    stats_ok payload st' \<and> messages_sent st' = messages_sent st + 1 \<and> connections_active st' = connections_active st \<and>
    bytes_received st' = bytes_received st + int (length (contents (receive_buffer c)))"
proof -
  let ?c = "c\<lparr>receive_buffer := retrieveAll (receive_buffer c)\<rparr>"
  have inv: "buf_inv (receive_buffer c)" using assms(1) by (simp add: conn_ok_def)
  have ok: "conn_ok ?c" using assms(1) retrieveAll_inv [OF buf_inv_wf [OF inv]] by (simp add: conn_ok_def)
  obtain eff c1 where s: "sendInLoop (loop_thread c) w payload ?c = Inr (eff, c1)"
      "extends_stream payload (length payload) ?c c1"
    using sendInLoop_stream [OF ok assms(3)] assms(4) by auto
  have "same_user_side ?c c1" by (rule sendInLoop_user_side [OF s(1)])
  moreover have "readableBytes (receive_buffer c) = length (contents (receive_buffer c))"
    using inv by (simp add: length_contents buf_inv_wf)
  ultimately show ?thesis using s assms(2,5)
    by (auto simp: client_onMessage_def send_def in_loop_def Let_def count_sent_def stats_ok_def
        same_user_side_def extends_stream_def distrib_left)
qed

definition client_ready :: "tcp_connection \<Rightarrow> bool" where
  "client_ready c \<longleftrightarrow> conn_ok c \<and> state_of c = Connected \<and> message_callback c = Some CLIENT_MESSAGE \<and>
     contents (receive_buffer c) = [] \<and> write_index (receive_buffer c) + EXTRA_SIZE \<le> VECTOR_MAX"

lemma client_reads_stream:
  "client_ready c \<Longrightarrow> stats_ok payload st \<Longrightarrow>
   \<forall>(d, w) \<in> set es. d \<noteq> [] \<and> length d \<le> EXTRA_SIZE \<and> accepts w (length payload) \<Longrightarrow>
   has_room (length es * length payload) (send_buffer c) \<Longrightarrow>
   \<exists>c' st'. client_reads payload es (c, st) = Inr (c', st') \<and> stats_ok payload st' \<and>
     messages_sent st' = messages_sent st + int (length es) \<and> connections_active st' = connections_active st \<and>
     bytes_received st' = bytes_received st + int (length (concat (map fst es))) \<and>
     wire c' @ contents (send_buffer c') = wire c @ contents (send_buffer c) @ concat (replicate (length es) payload)"
proof (induction es arbitrary: c st)
  case (Cons e es)
  obtain d w where e: "e = (d, w)" by (cases e)
  have d: "d \<noteq> []" "length d \<le> EXTRA_SIZE" "accepts w (length payload)" using Cons.prems(3) e by auto
  have inv: "buf_inv (receive_buffer c)" "conn_ok c" "state_of c = Connected"
    using Cons.prems(1) by (simp_all add: client_ready_def conn_ok_def)
  obtain b where b: "readFd (ReadBytes d) (receive_buffer c) = Inr (int (length d), None, b)" "buf_inv b" "contents b = d"
    using readFd_ok [OF inv(1), of d] Cons.prems(1) d(2) by (auto simp: client_ready_def has_room_def)
  let ?c = "c\<lparr>receive_buffer := b\<rparr>"
  have h: "handleReadable (loop_thread c) (ReadBytes d) c = Inr ([CallMessage CLIENT_MESSAGE], ?c)"
    using b(1) d(1) Cons.prems(1) by (simp add: handleReadable_def in_loop_def Let_def client_ready_def opt_effect_def)
  have ok: "conn_ok ?c" "state_of ?c = Connected" "has_room (length payload) (send_buffer ?c)"
    using inv(2,3) b(2) Cons.prems(4) by (simp_all add: conn_ok_def has_room_def)
  obtain eff c1 st1 where m: "client_onMessage payload (loop_thread c) w (?c, st) = Inr (eff, c1, st1)"
      "extends_stream payload (length payload) ?c c1" "state_of c1 = Connected" "message_callback c1 = message_callback c" "contents (receive_buffer c1) = []"
      "write_index (receive_buffer c1) = CHEAP_PREPEND" "stats_ok payload st1" "messages_sent st1 = messages_sent st + 1"
      "connections_active st1 = connections_active st" "bytes_received st1 = bytes_received st + int (length d)"
    using client_onMessage_stream [OF ok(1,2) d(3) ok(3) Cons.prems(2)] b(3) by auto
  then have c1: "client_ready c1" "has_room (length es * length payload) (send_buffer c1)"
    using Cons.prems(1,4)
    by (auto simp: client_ready_def extends_stream_def has_room_def CHEAP_PREPEND_def EXTRA_SIZE_def VECTOR_MAX_def)
  have "\<forall>(d, w) \<in> set es. d \<noteq> [] \<and> length d \<le> EXTRA_SIZE \<and> accepts w (length payload)"
    using Cons.prems(3) by simp
  from Cons.IH [OF c1(1) m(7) this c1(2)] obtain c2 st2 where
    r: "client_reads payload es (c1, st1) = Inr (c2, st2)" "stats_ok payload st2"
    "messages_sent st2 = messages_sent st1 + int (length es)" "connections_active st2 = connections_active st1"
    "bytes_received st2 = bytes_received st1 + int (length (concat (map fst es)))"
    "wire c2 @ contents (send_buffer c2) = wire c1 @ contents (send_buffer c1) @ concat (replicate (length es) payload)"
    by blast
  have "wire c1 @ contents (send_buffer c1) = wire c @ contents (send_buffer c) @ payload"
    using m(2) by (simp add: extends_stream_def)
  with r(6) have "wire c2 @ contents (send_buffer c2) =
      wire c @ contents (send_buffer c) @ concat (replicate (length (e # es)) payload)" by simp
  moreover have "client_reads payload (e # es) (c, st) = Inr (c2, st2)" using h m(1) r(1) by (simp add: e)
  ultimately show ?case using r(2-5) m(8-10) by (intro exI [of _ c2] exI [of _ st2]) (simp add: e)
qed simp

text \<open>
  The client of the benchmark counts reads, not messages, and its traffic grows. It
  answers every readable event with a new message of full length, so that a single echo that
  arrives in \<open>k\<close> reads is answered by \<open>k\<close> messages and is counted as \<open>k\<close>: the number of messages under
  way is multiplied, although the program means to send the next message after each echo.
\<close>
theorem split_echo_multiplies_messages:
  assumes "client_ready c" and "stats_ok payload st" and "concat (map fst es) = payload"
    and "\<forall>(d, w) \<in> set es. d \<noteq> [] \<and> length d \<le> EXTRA_SIZE \<and> accepts w (length payload)"
    and "write_index (send_buffer c) + length es * length payload \<le> VECTOR_MAX"
  shows "\<exists>c' st'. client_reads payload es (c, st) = Inr (c', st') \<and>
    messages_sent st' = messages_sent st + int (length es) \<and>
    messages_received st' = messages_received st + int (length es) \<and>
    bytes_received st' = bytes_received st + int (length payload) \<and>
    bytes_sent st' = bytes_sent st + int (length es) * int (length payload) \<and>
    wire c' @ contents (send_buffer c') = wire c @ contents (send_buffer c) @ concat (replicate (length es) payload)"
proof -
  have "has_room (length es * length payload) (send_buffer c)" using assms(5) by (simp add: has_room_def)
  from client_reads_stream [OF assms(1,2,4) this] obtain c' st' where
    r: "client_reads payload es (c, st) = Inr (c', st')" "stats_ok payload st'"
      "messages_sent st' = messages_sent st + int (length es)" "connections_active st' = connections_active st"
      "bytes_received st' = bytes_received st + int (length payload)"
      "wire c' @ contents (send_buffer c') = wire c @ contents (send_buffer c) @ concat (replicate (length es) payload)"
    using assms(3) by auto
  moreover have "bytes_sent st' = bytes_sent st + int (length es) * int (length payload)"
    using r(2,3) assms(2) by (simp add: stats_ok_def distrib_left)
  moreover have "messages_received st' = messages_received st + int (length es)"
    using r(2-4) assms(2) by (simp add: stats_ok_def)
  ultimately show ?thesis by blast
qed

theorem split_echo_multiplies_messages_witness:
  "\<exists>c' st'. client_reads [72, 72] [([72], WriteCount 2), ([72], WriteCount 2)]
       (small_conn, no_stats\<lparr>connections_active := 1, messages_sent := 1, bytes_sent := 2\<rparr>) = Inr (c', st') \<and>
     messages_sent st' = 3 \<and> bytes_received st' = 2 \<and> bytes_sent st' = 6"
proof -
  let ?st = "no_stats\<lparr>connections_active := 1, messages_sent := 1, bytes_sent := 2\<rparr>"
  let ?es = "[([72], WriteCount 2), ([72], WriteCount 2)] :: (byte list \<times> write_result) list"
  have c: "send_buffer small_conn = small_buffer" "receive_buffer small_conn = small_buffer" "state_of small_conn = Connected"
    "message_callback small_conn = Some CLIENT_MESSAGE"
    by (simp_all add: small_conn_def CLIENT_MESSAGE_def)
  have i: "write_index small_buffer = 8" by (simp add: small_buffer_def)
  have "client_ready small_conn"
    using small_conn_ok by (simp add: client_ready_def c i EXTRA_SIZE_def VECTOR_MAX_def)
  moreover have "stats_ok [72, 72] ?st" by (simp add: stats_ok_def no_stats_def)
  moreover have "\<forall>(d, w) \<in> set ?es. d \<noteq> [] \<and> length d \<le> EXTRA_SIZE \<and> accepts w (length [72, 72 :: byte])"
    by (simp add: EXTRA_SIZE_def accepts_def)
  ultimately show ?thesis
    using split_echo_multiplies_messages [of small_conn "[72, 72]" ?st ?es] by (auto simp: c i VECTOR_MAX_def no_stats_def)
qed

section \<open>The threads of the client\<close>

text \<open>
  \<open>run_client\<close> divides the connections among its threads, truncating; \<open>worker_thread\<close> reserves room for
  its clients, and a negative number, converted to \<open>size_t\<close>, is more than a vector can have.
\<close>

definition client_threads :: "int \<Rightarrow> int" where
  "client_threads nprocs = max 2 (nprocs div 2)"

definition connections_per_thread :: "int \<Rightarrow> int \<Rightarrow> int" where
  "connections_per_thread nprocs conns =
     (let n = client_threads nprocs in sgn conns * (\<bar>conns\<bar> div n))"

definition client_name :: "nat \<Rightarrow> nat \<Rightarrow> string" where
  "client_name thread_idx i = ''W'' @ dec_nat thread_idx @ ''-C'' @ dec_nat i"

definition worker_clients :: "nat \<Rightarrow> int \<Rightarrow> string list res" where
  "worker_clients thread_idx n = (if n < 0 then Inl LengthError else Inr (map (client_name thread_idx) [0..<nat n]))"

text \<open>All clients that are started, by thread; and what \<open>run_client\<close> reports as their number.\<close>

fun start_workers :: "nat list \<Rightarrow> int \<Rightarrow> string list list res" where
  "start_workers [] k = Inr []"
| "start_workers (i # is) k =
     bind_res (worker_clients i k) (\<lambda>names. bind_res (start_workers is k) (\<lambda>rest. Inr (names # rest)))"

definition run_client :: "int \<Rightarrow> int \<Rightarrow> (string list list \<times> int) res" where
  "run_client nprocs conns =
     (let thread_count = client_threads nprocs; k = connections_per_thread nprocs conns
      in bind_res (start_workers [0..<nat thread_count] k) (\<lambda>names. Inr (names, k * thread_count)))"

lemma start_workers_ok:
  "0 \<le> k \<Longrightarrow> start_workers is k = Inr (map (\<lambda>i. map (client_name i) [0..<nat k]) is)"
  by (induction "is") (simp_all add: worker_clients_def)

lemma client_name_inj: "client_name i j = client_name i' j' \<Longrightarrow> i = i' \<Longrightarrow> j = j'"
  by (simp add: client_name_def)

text \<open>
  The client starts as many connections as it reports, and fewer than one per thread less than it was
  asked for; with fewer connections than threads it starts none.
\<close>

lemma run_client_connections:
  assumes "0 \<le> nprocs" and "0 \<le> conns"
  shows "\<exists>names actual. run_client nprocs conns = Inr (names, actual) \<and> int (length (concat names)) = actual \<and>
    actual \<le> conns \<and> conns < actual + client_threads nprocs \<and> (conns < client_threads nprocs \<longrightarrow> actual = 0)"
proof -
  let ?n = "client_threads nprocs" let ?k = "conns div ?n"
  have n: "0 < ?n" by (simp add: client_threads_def)
  have k: "connections_per_thread nprocs conns = ?k" "0 \<le> ?k"
    using assms(2) n by (auto simp: connections_per_thread_def Let_def sgn_if pos_imp_zdiv_nonneg_iff)
  have "?k * ?n \<le> conns" "conns < ?k * ?n + ?n"
    using n by (simp_all add: minus_mod_eq_div_mult [symmetric] pos_mod_bound)
  moreover have "conns < ?n \<Longrightarrow> ?k = 0" using assms(2) by (simp add: div_pos_pos_trivial)
  moreover have "length (concat (map (\<lambda>i. map (client_name i) [0..<nat ?k]) [0..<nat ?n])) = nat ?n * nat ?k"
    by (simp add: length_concat comp_def sum_list_triv)
  ultimately show ?thesis using k n 
    by (simp add: run_client_def Let_def start_workers_ok mult.commute flip: nat_mult_distrib)
qed

section \<open>The end of a run\<close>

text \<open>
  \<open>worker_thread\<close> sets one timer, two seconds after the requested duration; the sum is an \<open>int\<close> number
  of seconds, converted to milliseconds. Its callback ends the test for all threads and stops the
  loop of its own thread.
\<close>

definition END_OF_RUN :: timer_callback where
  "END_OF_RUN = 1"

definition schedule_end :: "time \<Rightarrow> int \<Rightarrow> timer_queue \<Rightarrow> (seqno \<times> timer_queue) res" where
  "schedule_end now duration_seconds q =
     (if duration_seconds + 2 > 2147483647 then Inl SignedOverflow
      else Inr (runAfter now ((duration_seconds + 2) * 1000) END_OF_RUN q))"

definition end_of_run :: "tid \<Rightarrow> bench_stats \<times> event_loop \<Rightarrow> bench_stats \<times> event_loop" where
  "end_of_run tid = (\<lambda>(st, s). (st\<lparr>test_finished := True\<rparr>, quit tid s))"

text \<open>
  A worker stops two seconds after the duration it was given, not at it: the round of timers that
  runs its end is the first one at that time or later. From then on its loop is asked to quit, and
  a message that still arrives is counted as received but answered by none, on any thread.
\<close>
theorem worker_ends_after_two_more_seconds:
  assumes "tq_inv q" and "0 < duration_seconds + 2" and "schedule_end now duration_seconds q = Inr (n, q1)"
    and "handleExpiredTimers calls clock True t q1 = (fired, q2)" and "\<not> cancels calls fired n"
    and "end_of_run tid (st, s) = (st1, s1)"
  shows "((n, END_OF_RUN) \<in> set fired \<longleftrightarrow> now + (duration_seconds + 2) * 1000000000 \<le> t) \<and> quit_flag s1 \<and>
    (\<exists>c1. client_onMessage payload tid w (c, st1) = Inr ([], c1, st1\<lparr>bytes_received := bytes_received st1 +
       int (readableBytes (receive_buffer c)), messages_received := messages_received st1 + 1\<rparr>))"
proof -
  have a: "addTimer END_OF_RUN (now + ms_to_ns ((duration_seconds + 2) * 1000)) 0 q = (n, q1)"
    using assms(3) by (auto simp: schedule_end_def runAfter_def split: if_splits)
  have "(n, END_OF_RUN) \<in> set fired \<longleftrightarrow> now + (duration_seconds + 2) * 1000 * 1000000 \<le> t"
    using runAfter_runEvery_fire [OF assms(1) _ _ a assms(4,5)] assms(2) by simp
  moreover have "quit_flag s1" "test_finished st1"
    using assms(6) by (auto simp: end_of_run_def quit_def set_quit_def wake_after_quit_def wakeup_def Let_def)
  ultimately show ?thesis by (simp add: client_onMessage_def Let_def algebra_simps)
qed

theorem worker_ends_after_two_more_seconds_witness:
  "\<exists>n q1 fired q2. schedule_end 0 30 (TimerQueue_new 0) = Inr (n, q1) \<and>
     handleExpiredTimers (\<lambda>_. []) (\<lambda>_. 0) True 30000000000 q1 = (fired, q2) \<and> (n, END_OF_RUN) \<notin> set fired"
proof -
  obtain n q1 where s: "schedule_end 0 30 (TimerQueue_new 0) = Inr (n, q1)"
    by (cases "runAfter 0 32000 END_OF_RUN (TimerQueue_new 0)") (simp add: schedule_end_def)
  obtain fired q2 where h: "handleExpiredTimers (\<lambda>_. []) (\<lambda>_. 0) True 30000000000 q1 = (fired, q2)" by fastforce
  have "\<not> cancels (\<lambda>_. []) fired n" by (simp add: cancels_def)
  from worker_ends_after_two_more_seconds [OF TimerQueue_new_inv _ s h this surjective_pairing] s h
  show ?thesis by auto
qed

section \<open>The command line\<close>

text \<open>
  \<open>atoi\<close> skips white space, takes a sign and reads digits; a value that is no \<open>int\<close> is undefined
  behaviour. \<open>std::stoul\<close> throws when there is no digit or the value has more than 64 bits, and
  negates after a minus sign modulo \<open>2 ^ 64\<close>.
\<close>

definition is_space :: "char \<Rightarrow> bool" where
  "is_space c \<longleftrightarrow> (of_char c :: nat) = 32 \<or> 9 \<le> (of_char c :: nat) \<and> (of_char c :: nat) \<le> 13"

definition is_digit :: "char \<Rightarrow> bool" where
  "is_digit c \<longleftrightarrow> 48 \<le> (of_char c :: nat) \<and> (of_char c :: nat) \<le> 57"

definition sign_and_digits :: "string \<Rightarrow> bool \<times> string" where
  "sign_and_digits s =
     (case dropWhile is_space s of
        [] \<Rightarrow> (False, [])
      | c # cs \<Rightarrow>
          if c = CHR ''-'' then (True, takeWhile is_digit cs)
          else if c = CHR ''+'' then (False, takeWhile is_digit cs)
          else (False, takeWhile is_digit (c # cs)))"

definition atoi :: "string \<Rightarrow> int res" where
  "atoi s =
     (let (neg, ds) = sign_and_digits s; v = (if neg then - int (undec ds) else int (undec ds))
      in if - 2147483648 \<le> v \<and> v \<le> 2147483647 then Inr v else Inl SignedOverflow)"

definition stoul :: "string \<Rightarrow> size_t res" where
  "stoul s =
     (let (neg, ds) = sign_and_digits s
      in if ds = [] then Inl InvalidArgument
         else if undec ds \<ge> 2 ^ 64 then Inl LengthError
         else Inr (if neg then size_sub 0 (undec ds) else undec ds))"

datatype bench_command = Usage | RunServer int int | RunClient string int int size_t int

definition optional :: "nat \<Rightarrow> string list \<Rightarrow> (string \<Rightarrow> 'a res) \<Rightarrow> 'a \<Rightarrow> 'a res" where
  "optional i argv f d = (if i < length argv then f (argv ! i) else Inr d)"

definition bench_main :: "int \<Rightarrow> string list \<Rightarrow> bench_command res" where
  "bench_main nprocs argv =
     (if length argv < 2 then Inr Usage
      else if argv ! 1 = ''server'' then
        (if length argv < 3 then Inr Usage
         else bind_res (atoi (argv ! 2)) (\<lambda>port.
                bind_res (optional 3 argv atoi nprocs) (\<lambda>threads.
                  Inr (RunServer port (if threads < 1 then 1 else threads)))))
      else if argv ! 1 = ''client'' then
        (if length argv < 6 then Inr Usage
         else bind_res (atoi (argv ! 3)) (\<lambda>port. bind_res (atoi (argv ! 4)) (\<lambda>connections.
                bind_res (optional 5 argv stoul 1024) (\<lambda>message_size.
                bind_res (optional 6 argv atoi 30) (\<lambda>duration.
                  Inr (RunClient (argv ! 2) port connections message_size duration))))))
      else Inr Usage)"

text \<open>
  A server always gets at least one thread. The client refuses a command line with exactly the
  arguments its usage text requires, and the default for the message size is never used.
\<close>

lemma bench_main_server:
  assumes "bench_main nprocs argv = Inr (RunServer port threads)"
  shows "1 \<le> threads"
  using assms by (auto simp: bench_main_def bind_res_eq_Inr split: if_splits)

theorem client_usage_refused:
  "bench_main nprocs [prog, ''client'', ip, port, number] = Inr Usage"
  "bench_main nprocs argv = Inr (RunClient ip p n sz d) \<Longrightarrow> stoul (argv ! 5) = Inr sz"
  by (auto simp: bench_main_def optional_def bind_res_eq_Inr split: if_splits)

lemma bench_main_example:
  "bench_main 8 [''b'', ''client'', ''1.2.3.4'', ''8888'', ''800'', ''1024''] = Inr (RunClient ''1.2.3.4'' 8888 800 1024 30)"
  by (simp add: bench_main_def optional_def atoi_def stoul_def sign_and_digits_def is_space_def is_digit_def undec_def)

end
