(* ===== verification/ConnectorChannel.thy ===== *)
theory ConnectorChannel
  imports LoopSetup Connector
begin

text \<open>
  The channel of a \<open>Connector\<close> on the store of channels. \<open>Connector::resetChannel\<close> destroys the
  channel at once, in the middle of a round of the loop: from the channel's own write callback
  (\<open>handleWritable\<close>), which is safe, and from \<open>stop\<close>, which any callback of the round may call.
\<close>

section \<open>The operations on the store\<close>

definition resetChannel_at ::
  "nat \<Rightarrow> tid \<Rightarrow> event_loop \<Rightarrow> bool \<Rightarrow> addr \<Rightarrow> chan_heap \<times> backend \<Rightarrow> (chan_heap \<times> backend) res" where
  "resetChannel_at this tid s ctl_ok c hb =
     bind_res (notifyLoop this tid s ctl_ok c ignoreAll hb) (\<lambda>hb1.
     bind_res (EventLoop_removeChannel this tid s ctl_ok c hb1) (\<lambda>(h, b). Inr (h(c := None), b)))"

text \<open>
  What \<open>stop()\<close> of the connector \<open>k\<close> with the channel \<open>c\<close> does to the store, in the loop's thread:
  \<open>runInLoop\<close> runs \<open>stopInLoop\<close> at once. (What it does to the connector is \<open>Connector_stop\<close>.)
\<close>

definition stop_at ::
  "nat \<Rightarrow> tid \<Rightarrow> event_loop \<Rightarrow> bool \<Rightarrow> addr \<Rightarrow> connector \<Rightarrow> chan_heap \<times> backend \<Rightarrow> (chan_heap \<times> backend) res" where
  "stop_at this tid s ctl_ok c k hb =
     bind_res (assertInLoopThread tid s) (\<lambda>_.
       if cn_state k = C_Connecting then resetChannel_at this tid s ctl_ok c hb else Inr hb)"

text \<open>
  What surrounds the connectors in a round: what \<open>getSocketError\<close> answers for the connector whose
  channel is at an address, the allocator, the identity of the \<open>TcpConnection\<close> that a connector's
  success creates, what the user's connection callback does to the store when
  \<open>connectionEstablished\<close> calls it, and what all other callbacks of the round do.
\<close>

record round_env =
  sock_error :: "addr \<Rightarrow> int"
  new_addr :: "chan_heap \<Rightarrow> addr"
  new_id :: "addr \<Rightarrow> conn_id"
  on_connected :: "addr \<Rightarrow> chan_heap \<times> backend \<Rightarrow> (chan_heap \<times> backend) res"
  other_callbacks :: cb_effect

text \<open>
  What the new-connection callback of a client does to the store: the constructor of
  \<open>TcpConnection\<close> creates a channel on the descriptor that the connector hands over, with a read
  callback only; \<open>connectionEstablished\<close> ties it, registers it for reading and calls the user.
\<close>

definition onConnection_at ::
  "nat \<Rightarrow> tid \<Rightarrow> event_loop \<Rightarrow> round_env \<Rightarrow> addr \<Rightarrow> fd \<Rightarrow> chan_heap \<times> backend \<Rightarrow> (chan_heap \<times> backend) res" where
  "onConnection_at this tid s e c fd = (\<lambda>(h, b).
     bind_res (assertInLoopThread tid s) (\<lambda>_.
     let ch = setReadCallback (Some (ConnectionRead (new_id e c))) (Channel_new this fd);
         a = new_addr e h in
     bind_res (notifyLoop this tid s True a listenTillReadable (h(a \<mapsto> tie (new_id e c) ch), b))
       (on_connected e c)))"

text \<open>
  What \<open>handleWritable\<close> of the connector with the channel \<open>c\<close> does to the store: in either branch it
  resets the channel; on an error the socket is closed and \<open>retry\<close> adds a timer; on success the
  new-connection callback takes the descriptor over. (What it does to the connector is
  \<open>Connector_handleWritable\<close>.)
\<close>

definition handleWritable_at ::
  "nat \<Rightarrow> tid \<Rightarrow> event_loop \<Rightarrow> round_env \<Rightarrow> addr \<Rightarrow> chan_heap \<times> backend \<Rightarrow> (chan_heap \<times> backend) res" where
  "handleWritable_at this tid s e c hb =
     (case fst hb c of
        None \<Rightarrow> Inl UseAfterFree
      | Some ch \<Rightarrow> bind_res (resetChannel_at this tid s True c hb) (\<lambda>(h, b).
          if sock_error e c \<noteq> 0 then Inr (h, close_fd (fd_of ch) b)
          else onConnection_at this tid s e c (fd_of ch) (h, b)))"

definition connector_effect :: "nat \<Rightarrow> tid \<Rightarrow> event_loop \<Rightarrow> round_env \<Rightarrow> cb_effect" where
  "connector_effect this tid s e c i hb =
     (if i = OnWrite ConnectorWrite then handleWritable_at this tid s e c hb else other_callbacks e c i hb)"

section \<open>What a channel's registration depends on\<close>

definition reg_view :: "chan_heap \<Rightarrow> addr \<rightharpoonup> (fd \<times> int \<times> nat)" where
  "reg_view h c = map_option (\<lambda>ch. (fd_of ch, index_of ch, loop_of ch)) (h c)"

lemma reg_viewD:
  assumes "reg_view h' = reg_view h" and "h c = Some ch"
  shows "\<exists>ch'. h' c = Some ch' \<and> fd_of ch' = fd_of ch \<and> index_of ch' = index_of ch \<and> loop_of ch' = loop_of ch"
proof -
  have "reg_view h' c = Some (fd_of ch, index_of ch, loop_of ch)" using assms by (simp add: reg_view_def)
  then show ?thesis by (auto simp: reg_view_def)
qed

lemma poll_inv_view:
  assumes "reg_view h' = reg_view h" and "channels p' = channels p"
    and "map pfd (pollFdList p') = map pfd (pollFdList p)" and "poll_inv (h, p)"
  shows "poll_inv (h', p')"
proof -
  have len: "length (pollFdList p') = length (pollFdList p)" using assms(3) by (metis length_map)
  have real: "real_fd (pollFdList p' ! i) = real_fd (pollFdList p ! i)" if "i < length (pollFdList p)" for i
    using that assms(3) len by (metis nth_map real_fd_def)
  note inv = poll_invD [OF assms(4)] and fwd = reg_viewD [OF assms(1)] and bwd = reg_viewD [OF assms(1) [symmetric]]
  show ?thesis unfolding poll_inv_def split_conv
  proof (intro conjI allI impI)
    fix i assume "i < length (pollFdList p')"
    with inv(1) [of i] len obtain c ch where "channels p (real_fd (pollFdList p ! i)) = Some c" "h c = Some ch"
      "fd_of ch = real_fd (pollFdList p ! i)" "index_of ch = int i" "i < length (pollFdList p)" by auto
    then show "\<exists>c ch. channels p' (real_fd (pollFdList p' ! i)) = Some c \<and> h' c = Some ch \<and>
        fd_of ch = real_fd (pollFdList p' ! i) \<and> index_of ch = int i"
      using fwd [of c ch] real assms(2) by auto
  next
    fix c ch assume a: "h' c = Some ch" "index_of ch \<noteq> NOT_FILL"
    then obtain ch0 where c: "h c = Some ch0" "fd_of ch0 = fd_of ch" "index_of ch0 = index_of ch" using bwd by blast
    from inv(2) [OF c(1)] a(2) c show "0 \<le> index_of ch" "nat (index_of ch) < length (pollFdList p')"
      "real_fd (pollFdList p' ! nat (index_of ch)) = fd_of ch" "channels p' (fd_of ch) = Some c"
      using len real assms(2) by auto
  next
    fix fd c assume "channels p' fd = Some c"
    with inv(3) [of fd c] assms(2) obtain ch where "h c = Some ch" "fd_of ch = fd" "index_of ch \<noteq> NOT_FILL" by auto
    then show "\<exists>ch. h' c = Some ch \<and> fd_of ch = fd \<and> index_of ch \<noteq> NOT_FILL" using fwd by metis
  next
    fix c ch assume "h' c = Some ch"
    then show "0 \<le> fd_of ch" using bwd inv(4) by metis
  qed
qed

lemma epoll_inv_view:
  assumes "reg_view h' = reg_view h" and "channel_map p' = channel_map p" and "interest_list p' = interest_list p"
    and "0 < events_size p'" and "epoll_inv (h, p)"
  shows "epoll_inv (h', p')"
  using assms(2-5) reg_viewD [OF assms(1)] unfolding epoll_inv_def by (simp add: fun_upd_def) metis

lemma reg_view_report [simp]: "h c = Some ch \<Longrightarrow> reg_view (h(c \<mapsto> setReturnEvents r ch)) = reg_view h"
  by (auto simp: reg_view_def setReturnEvents_def)

lemma Poller_fill_view: "Poller_fillActiveChannels m es n h act = Inr (h', act') \<Longrightarrow> reg_view h' = reg_view h"
  by (induction m es n h act rule: Poller_fillActiveChannels.induct) (auto split: if_splits option.splits)

lemma Epoller_fill_view: "Epoller_fillActiveChannels es h act = Inr (h', act') \<Longrightarrow> reg_view h' = reg_view h"
  by (induction es h act rule: Epoller_fillActiveChannels.induct) (auto split: option.splits)

text \<open>The table of a poller; the kernel watches what it holds.\<close>

definition table_of :: "backend \<Rightarrow> fd \<rightharpoonup> addr" where
  "table_of b = (case b of PollBackend p \<Rightarrow> channels p | EpollBackend p \<Rightarrow> channel_map p)"

lemma table_watched:
  assumes "backend_inv (h, b)"
  shows "table_of b fd = map_option fst (backend_watched (h, b) fd)"
proof (cases b)
  case (PollBackend p)
  with assms poll_invD(3) [of h p fd] show ?thesis
    by (auto simp: table_of_def backend_watched_def backend_inv_def poll_watched_def Let_def split: option.split)
next
  case (EpollBackend p)
  with assms epoll_invD(2) [of h p fd] show ?thesis
    by (auto simp: table_of_def backend_watched_def backend_inv_def epoll_watched_def split: option.split)
qed

lemma backend_watched_fd:
  assumes "backend_inv (h, b)" and "backend_watched (h, b) fd = Some (c, m)"
  shows "\<exists>ch. h c = Some ch \<and> fd_of ch = fd"
  using assms poll_invD(3) [of h _ fd] epoll_invD(2) [of h _ fd]
  by (cases b) (fastforce simp: backend_inv_def backend_watched_def poll_watched_def epoll_watched_def Let_def
      split: option.splits)+

lemma poll_keeps_registration:
  assumes "backend_inv (h, b)" and "full_answer pr (h, b)" and "backend_poll pr wr (h, b) = Inr (act, h', b')"
  shows "backend_inv (h', b') \<and> reg_view h' = reg_view h \<and> table_of b' = table_of b"
proof (cases b)
  case (PollBackend p)
  with assms(3) obtain p' where p': "Poller_poll pr (h, p) = Inr (act, h', p')" "b' = PollBackend p'"
    by (auto simp: backend_poll_def bind_res_eq_Inr)
  have "map pfd (pollFdList p') = map pfd (pollFdList p)"
    using p'(1) assms(2) PollBackend
    by (auto simp: Poller_poll_def full_answer_def Let_def bind_res_eq_Inr split: poll_result.splits if_splits
        intro!: nth_equalityI)
  moreover have "reg_view h' = reg_view h" "channels p' = channels p"
    using p'(1) Poller_fill_view
    by (auto simp: Poller_poll_def Let_def bind_res_eq_Inr split: poll_result.splits if_splits)
  ultimately show ?thesis using poll_inv_view [of h' h p' p] assms(1) PollBackend p'(2)
    by (simp add: backend_inv_def table_of_def)
next
  case (EpollBackend p)
  with assms(3) obtain p' where p': "Epoller_poll wr (h, p) = Inr (act, h', p')" "b' = EpollBackend p'"
    by (auto simp: backend_poll_def bind_res_eq_Inr)
  moreover have "0 < events_size p" using assms(1) EpollBackend by (simp add: backend_inv_def epoll_inv_def)
  ultimately have "reg_view h' = reg_view h" "channel_map p' = channel_map p" "interest_list p' = interest_list p"
    "0 < events_size p'" using Epoller_fill_view
    by (auto simp: Epoller_poll_def Let_def bind_res_eq_Inr split: wait_result.splits if_splits)
  then show ?thesis using epoll_inv_view [of h' h p' p] assms(1) EpollBackend p'(2)
    by (simp add: backend_inv_def table_of_def)
qed

section \<open>Resetting a channel\<close>

lemma forget_unregistered:
  assumes "backend_inv (h, b)" and "c \<notin> ran (table_of b)"
  shows "backend_inv (h(c := None), b)"
proof (cases b)
  case (PollBackend p)
  have free: "channels p fd \<noteq> Some c" for fd using assms(2) PollBackend by (auto simp: table_of_def ran_def)
  have "poll_inv (h(c := None), p)"
    using assms(1) PollBackend free unfolding backend_inv_def poll_inv_def by (simp, metis)
  then show ?thesis using PollBackend by (simp add: backend_inv_def)
next
  case (EpollBackend p)
  have "channel_map p fd \<noteq> Some c" for fd using assms(2) EpollBackend by (auto simp: table_of_def ran_def)
  then show ?thesis using assms(1) EpollBackend by (auto simp: backend_inv_def epoll_inv_def)
qed

text \<open>
  A tidy loop: it has finitely many channels, every one belongs to it and is registered with its
  poller. (By the invariant of the poller, what is registered exists.)
\<close>

definition tidy :: "nat \<Rightarrow> chan_heap \<times> backend \<Rightarrow> bool" where
  "tidy this hb \<longleftrightarrow> backend_inv hb \<and> finite (dom (fst hb)) \<and>
     (\<forall>c ch. fst hb c = Some ch \<longrightarrow> loop_of ch = this \<and> table_of (snd hb) (fd_of ch) = Some c)"

text \<open>The other channels, up to their index in the table of \<open>poll\<close>.\<close>

definition others_kept :: "addr \<Rightarrow> chan_heap \<Rightarrow> chan_heap \<Rightarrow> bool" where
  "others_kept c h h' \<longleftrightarrow> (\<forall>c'. c' \<noteq> c \<longrightarrow> map_option (setIndex 0) (h' c') = map_option (setIndex 0) (h c'))"

lemma setIndex_eqD:
  "setIndex i ch = setIndex i ch' \<Longrightarrow> fd_of ch = fd_of ch' \<and> loop_of ch = loop_of ch' \<and> handlers ch = handlers ch'"
  by (cases ch; cases ch') (simp add: setIndex_def handlers_def)

lemma others_keptD:
  assumes "others_kept c h h'" and "c' \<noteq> c"
  shows "h' c' = Some ch' \<Longrightarrow> \<exists>ch. h c' = Some ch \<and> fd_of ch = fd_of ch' \<and> loop_of ch = loop_of ch'"
    and "h c' = Some ch \<Longrightarrow> \<exists>ch'. h' c' = Some ch' \<and> handlers ch' = handlers ch"
proof -
  have eq: "map_option (setIndex 0) (h' c') = map_option (setIndex 0) (h c')" using assms by (simp add: others_kept_def)
  show "\<exists>ch. h c' = Some ch \<and> fd_of ch = fd_of ch' \<and> loop_of ch = loop_of ch'" if "h' c' = Some ch'"
    using eq that by (cases "h c'") (auto dest: setIndex_eqD)
  show "\<exists>ch'. h' c' = Some ch' \<and> handlers ch' = handlers ch" if "h c' = Some ch"
    using eq that by (cases "h' c'") (auto dest: setIndex_eqD)
qed

lemma table_upd:
  assumes "backend_inv (h', b')" and "backend_inv (h, b)"
  shows "backend_watched (h', b') = (backend_watched (h, b))(fd \<mapsto> (c, m)) \<Longrightarrow> table_of b' = (table_of b)(fd \<mapsto> c)"
    and "backend_watched (h', b') = (backend_watched (h, b))(fd := None) \<Longrightarrow> table_of b' = (table_of b)(fd := None)"
  using table_watched [OF assms(1)] table_watched [OF assms(2)] by (auto simp: fun_eq_iff)

lemma resetChannel_at_ok:
  assumes "tidy this (h, b)" and "h c = Some ch" and "isInLoopThread tid s"
  shows "\<exists>h' b'. resetChannel_at this tid s True c (h, b) = Inr (h', b') \<and> tidy this (h', b') \<and> h' c = None \<and>
    table_of b' = (table_of b)(fd_of ch := None) \<and> others_kept c h h'"
proof -
  let ?ch = "ch\<lparr>events := 0\<rparr>" and ?h = "h(c \<mapsto> ch\<lparr>events := 0\<rparr>)"
  have inv: "backend_inv (h, b)" and reg: "loop_of ch = this" "table_of b (fd_of ch) = Some c"
    using assms(1,2) by (auto simp: tidy_def)
  have i: "backend_inv (?h, b)" "backend_watched (?h, b) = backend_watched (h, b)"
    using backend.interest_law [OF inv assms(2)] by simp_all
  have "fd_free (backend_watched (?h, b)) c ?ch"
    using table_watched [OF inv, of "fd_of ch"] reg(2) i(2) by (auto simp: fd_free_def)
  with backend.update_law [OF i(1), of c ?ch] obtain h1 b1 where u: "backend_update True True c (?h, b) = Inr (h1, b1)"
    "backend_inv (h1, b1)" "same_channels ?h h1" "backend_watched (h1, b1) = (backend_watched (?h, b))(fd_of ch \<mapsto> (c, backend_asked b 0))"
    by auto
  obtain k where k: "h1 c = Some (setIndex k ?ch)" using same_channelsD [OF u(3), of c ?ch] by auto
  with backend.remove_law [OF u(2) k] u(4) obtain h2 b2 where r: "backend_remove True True c (h1, b1) = Inr (h2, b2)"
    "backend_inv (h2, b2)" "same_channels h1 h2" "backend_watched (h2, b2) = (backend_watched (h1, b1))(fd_of ch := None)"
    by auto
  have t: "table_of b2 = (table_of b)(fd_of ch := None)"
    using table_upd(1) [OF u(2) i(1) u(4)] table_upd(2) [OF r(2) u(2) r(4)] by simp
  have run: "resetChannel_at this tid s True c (h, b) = Inr (h2(c := None), b2)"
    using assms(2,3) reg(1) u(1) k r(1)
    by (simp add: resetChannel_at_def notifyLoop_def EventLoop_updateChannel_def EventLoop_removeChannel_def
        assertInLoopThread_def ignoreAll_def kNoneEvent_def setIndex_def)
  have kept: "others_kept c h (h2(c := None))"
    using u(3) r(3) by (auto simp: others_kept_def same_channels_def) metis
  have none: "c \<notin> ran (table_of b2)"
  proof
    assume "c \<in> ran (table_of b2)"
    then obtain fd where "fd \<noteq> fd_of ch" "table_of b fd = Some c" unfolding t ran_def by (auto split: if_splits)
    then obtain m where "backend_watched (h, b) fd = Some (c, m)" using table_watched [OF inv, of fd] by auto
    from backend_watched_fd [OF inv this] assms(2) \<open>fd \<noteq> fd_of ch\<close> show False by simp
  qed
  have "tidy this (h2(c := None), b2)"
    unfolding tidy_def fst_conv snd_conv
  proof (intro conjI allI impI)
    show "backend_inv (h2(c := None), b2)" by (rule forget_unregistered [OF r(2) none])
  next
    have "dom (h2(c := None)) \<subseteq> dom h" using others_keptD(1) [OF kept] by (auto simp: dom_def)
    moreover have "finite (dom h)" using assms(1) by (simp add: tidy_def)
    ultimately show "finite (dom (h2(c := None)))" by (rule finite_subset)
  next
    fix c' ch' assume c': "(h2(c := None)) c' = Some ch'"
    then have ne: "c' \<noteq> c" by auto
    obtain ch0 where ch0: "h c' = Some ch0" "fd_of ch0 = fd_of ch'" "loop_of ch0 = loop_of ch'"
      using others_keptD(1) [OF kept ne c'] by blast
    have "loop_of ch0 = this" "table_of b (fd_of ch0) = Some c'"
      using assms(1) ch0(1) unfolding tidy_def fst_conv snd_conv by blast+
    with reg(2) ne ch0 t show "loop_of ch' = this" "table_of b2 (fd_of ch') = Some c'" by auto
  qed
  with run t kept show ?thesis by simp
qed

section \<open>Rounds with connectors\<close>

lemma poll_tidy:
  assumes "tidy this hb" and "full_answer pr hb" and "backend_poll pr wr hb = Inr (act, hb')"
  shows "tidy this hb'"
proof -
  obtain h b h' b' where hb: "hb = (h, b)" "hb' = (h', b')" by fastforce
  have k: "backend_inv (h', b')" "reg_view h' = reg_view h" "table_of b' = table_of b"
    using poll_keeps_registration [of h b pr wr act h' b'] assms by (auto simp: hb tidy_def)
  have "\<exists>ch0. h c = Some ch0 \<and> fd_of ch0 = fd_of ch \<and> loop_of ch0 = loop_of ch" if "h' c = Some ch" for c ch
    using reg_viewD [OF k(2) [symmetric] that] by blast
  moreover have "dom h' \<subseteq> dom h"
  proof
    fix c assume "c \<in> dom h'"
    then show "c \<in> dom h" using fun_cong [OF k(2), of c] by (cases "h c") (auto simp: reg_view_def)
  qed
  then have "finite (dom h')" using assms(1) by (auto simp: hb tidy_def intro: finite_subset)
  ultimately show ?thesis using assms(1) k(1,3) by (fastforce simp: hb tidy_def)
qed

text \<open>What a callback keeps of the channels in \<open>A\<close>: their callbacks, their report and their descriptors.\<close>

definition kept :: "addr set \<Rightarrow> chan_heap \<Rightarrow> chan_heap \<Rightarrow> bool" where
  "kept A h h' \<longleftrightarrow> (\<forall>c \<in> A. \<forall>ch. h c = Some ch \<longrightarrow>
     (\<exists>ch'. h' c = Some ch' \<and> handlers ch' = handlers ch \<and> fd_of ch' = fd_of ch))"

lemma kept_refl [simp]: "kept A h h"
  by (simp add: kept_def)

lemma kept_trans: "kept A h h1 \<Longrightarrow> kept A h1 h2 \<Longrightarrow> kept A h h2"
  unfolding kept_def by metis

lemma kept_mono: "kept A h h' \<Longrightarrow> B \<subseteq> A \<Longrightarrow> kept B h h'"
  unfolding kept_def by blast

lemma keptD:
  "kept A h h' \<Longrightarrow> c \<in> A \<Longrightarrow> h c = Some ch \<Longrightarrow> \<exists>ch'. h' c = Some ch' \<and> handlers ch' = handlers ch \<and> fd_of ch' = fd_of ch"
  unfolding kept_def by blast

lemma kept_handlers: "kept A h h' \<Longrightarrow> same_handlers A h h'"
  unfolding kept_def same_handlers_def by blast

lemma same_channels_kept: "same_channels h h' \<Longrightarrow> kept A h h'"
  using same_channelsD [of h h'] by (fastforce simp: kept_def setIndex_def handlers_def)

lemma same_channels_dom:
  assumes "same_channels h h'"
  shows "dom h' = dom h"
proof -
  have "map_option (setIndex 0) (h' c) = map_option (setIndex 0) (h c)" for c using assms by (simp add: same_channels_def)
  then have "h' c = None \<longleftrightarrow> h c = None" for c by (metis option.map_disc_iff)
  then show ?thesis by (simp add: dom_def)
qed

lemma others_kept_kept: "others_kept c h h' \<Longrightarrow> kept (- {c}) h h'"
proof -
  assume k: "others_kept c h h'"
  have "\<exists>ch'. h' d = Some ch' \<and> handlers ch' = handlers ch \<and> fd_of ch' = fd_of ch" if "d \<noteq> c" "h d = Some ch" for d ch
  proof -
    have "map_option (setIndex 0) (h' d) = Some (setIndex 0 ch)" using k that by (simp add: others_kept_def)
    then show ?thesis by (auto dest: setIndex_eqD)
  qed
  then show ?thesis by (simp add: kept_def)
qed

text \<open>
  What is asked of the surroundings. Callbacks run through and keep the loop tidy; they may create,
  register and silence channels and change their interest, but they destroy none and do not
  exchange the callbacks of one. Memory that is allocated is not in use. The addresses in \<open>R\<close> are
  not given to a new channel during the round.
\<close>

definition carried :: "nat \<Rightarrow> addr set \<Rightarrow> addr set \<Rightarrow> chan_heap \<times> backend \<Rightarrow> chan_heap \<times> backend \<Rightarrow> bool" where
  "carried this R A hb hb' \<longleftrightarrow> tidy this hb' \<and> kept A (fst hb) (fst hb') \<and>
     (\<forall>c \<in> R. fst hb c = None \<longrightarrow> fst hb' c = None)"

definition gentle :: "nat \<Rightarrow> addr set \<Rightarrow> (chan_heap \<times> backend \<Rightarrow> (chan_heap \<times> backend) res) \<Rightarrow> bool" where
  "gentle this R f \<longleftrightarrow> (\<forall>hb. tidy this hb \<longrightarrow> (\<exists>hb'. f hb = Inr hb' \<and> carried this R UNIV hb hb'))"

definition orderly :: "nat \<Rightarrow> addr set \<Rightarrow> round_env \<Rightarrow> bool" where
  "orderly this R e \<longleftrightarrow>
     (\<forall>h. finite (dom h) \<longrightarrow> new_addr e h \<notin> dom h \<union> R) \<and>
     (\<forall>c. gentle this R (on_connected e c)) \<and> (\<forall>c i. gentle this R (other_callbacks e c i))"

lemma carried_refl: "tidy this hb \<Longrightarrow> carried this R A hb hb"
  by (simp add: carried_def)

lemma carried_trans: "carried this R A hb hb1 \<Longrightarrow> carried this R A hb1 hb2 \<Longrightarrow> carried this R A hb hb2"
  unfolding carried_def using kept_trans by metis

lemma carried_mono: "carried this R A hb hb' \<Longrightarrow> B \<subseteq> A \<Longrightarrow> carried this R B hb hb'"
  unfolding carried_def using kept_mono by metis

lemma carriedD:
  assumes "carried this R A hb hb'"
  shows "tidy this hb'" "kept A (fst hb) (fst hb')" "\<And>c. c \<in> R \<Longrightarrow> fst hb c = None \<Longrightarrow> fst hb' c = None"
  using assms by (auto simp: carried_def)

lemma register_tidy:
  assumes "tidy this (h, b)" and "isInLoopThread tid s" and "h a = None" and "table_of b (fd_of ch) = None"
    and "\<And>p. b = PollBackend p \<Longrightarrow> 0 \<le> fd_of ch" and "loop_of ch = this" and "index_of ch = NOT_FILL"
    and "valid_mask (events ch)"
  shows "\<exists>h' b'. notifyLoop this tid s True a listenTillReadable (h(a \<mapsto> ch), b) = Inr (h', b') \<and> tidy this (h', b') \<and>
    table_of b' = (table_of b)(fd_of ch \<mapsto> a) \<and> same_channels (h(a \<mapsto> listenTillReadable ch)) h'"
proof -
  let ?ch = "listenTillReadable ch"
  let ?h = "h(a \<mapsto> ?ch)"
  have inv: "backend_inv (h, b)" using assms(1) by (simp add: tidy_def)
  have f: "fd_of ?ch = fd_of ch" "loop_of ?ch = this" "index_of ?ch = NOT_FILL"
    using assms(6,7) by (simp_all add: listenTillReadable_def)
  have i: "backend_inv (?h, b)" "backend_watched (?h, b) = backend_watched (h, b)"
    using backend_new_channel [OF inv assms(3) f(3)] assms(5) f(1) by simp_all
  have "fd_free (backend_watched (?h, b)) a ?ch"
    using table_watched [OF inv, of "fd_of ch"] assms(4) i(2) f(1) by (simp add: fd_free_def)
  with backend.update_law [OF i(1), of a ?ch] valid_mask_interest(1) [OF assms(8)] f obtain h' b' where
    u: "backend_update True True a (?h, b) = Inr (h', b')" "backend_inv (h', b')" "same_channels ?h h'"
      "backend_watched (h', b') = (backend_watched (?h, b))(fd_of ch \<mapsto> (a, backend_asked b (events ?ch)))" by auto
  have run: "notifyLoop this tid s True a listenTillReadable (h(a \<mapsto> ch), b) = Inr (h', b')"
    using u(1) f assms(2) by (simp add: notifyLoop_def EventLoop_updateChannel_def assertInLoopThread_def)
  have t: "table_of b' = (table_of b)(fd_of ch \<mapsto> a)" by (rule table_upd(1) [OF u(2) i(1) u(4)])
  have dom: "dom h' = insert a (dom h)" using same_channels_dom [OF u(3)] by auto
  have "tidy this (h', b')" unfolding tidy_def fst_conv snd_conv
  proof (intro conjI allI impI)
    show "backend_inv (h', b')" by (rule u(2))
    show "finite (dom h')" using assms(1) dom by (simp add: tidy_def)
  next
    fix c ch' assume c: "h' c = Some ch'"
    then obtain x where x: "?h c = Some x" using dom by (cases "?h c") (auto simp: dom_def split: if_splits)
    then obtain k where "ch' = setIndex k x" using same_channelsD [OF u(3)] c by fastforce
    then have ch': "fd_of ch' = fd_of x" "loop_of ch' = loop_of x" by (simp_all add: setIndex_def)
    show "loop_of ch' = this" "table_of b' (fd_of ch') = Some c"
    proof (atomize (full), cases "c = a")
      case True
      then show "loop_of ch' = this \<and> table_of b' (fd_of ch') = Some c" using x ch' f t by auto
    next
      case False
      then have "loop_of x = this" "table_of b (fd_of x) = Some c" using x assms(1) by (auto simp: tidy_def)
      then show "loop_of ch' = this \<and> table_of b' (fd_of ch') = Some c" using ch' t assms(4) by auto
    qed
  qed
  with run t u(3) show ?thesis by blast
qed

lemma backend_kind:
  "backend_update ctl_ok inside c (h, b) = Inr (h', PollBackend p) \<Longrightarrow> \<exists>p0. b = PollBackend p0"
  "backend_remove ctl_ok inside c (h, b) = Inr (h', PollBackend p) \<Longrightarrow> \<exists>p0. b = PollBackend p0"
  by (cases b; auto simp: backend_update_def backend_remove_def lift_backend_def bind_res_eq_Inr)+

lemma loop_call_kind:
  "EventLoop_updateChannel this tid s ctl_ok c (h, b) = Inr (h', PollBackend p) \<Longrightarrow> \<exists>p0. b = PollBackend p0"
  "EventLoop_removeChannel this tid s ctl_ok c (h, b) = Inr (h', PollBackend p) \<Longrightarrow> \<exists>p0. b = PollBackend p0"
  unfolding EventLoop_updateChannel_def EventLoop_removeChannel_def
  by (auto simp: bind_res_eq_Inr split: option.splits if_splits dest: backend_kind)

lemma resetChannel_kind:
  assumes "resetChannel_at this tid s ctl_ok c (h, b) = Inr (h', PollBackend p)"
  shows "\<exists>p0. b = PollBackend p0"
proof -
  obtain h1 b1 h2 where 1: "notifyLoop this tid s ctl_ok c ignoreAll (h, b) = Inr (h1, b1)"
    and "EventLoop_removeChannel this tid s ctl_ok c (h1, b1) = Inr (h2, PollBackend p)"
    using assms by (auto simp: resetChannel_at_def bind_res_eq_Inr)
  then obtain p1 where "b1 = PollBackend p1" using loop_call_kind(2) by blast
  then show ?thesis using 1 loop_call_kind(1) by (fastforce simp: notifyLoop_def split: option.splits)
qed

lemma close_unwatched: "backend_inv (h, b) \<Longrightarrow> table_of b fd = None \<Longrightarrow> close_fd fd b = b"
  using epoll_invD(1) [of h]
  by (cases b) (auto simp: close_fd_def table_of_def backend_inv_def fun_upd_idem_iff domIff dest!: equalityD1 [THEN subsetD])

text \<open>
  The new connection's channel takes the place of the connector's in the poller's table. (It may
  even be created where the connector's channel was.)
\<close>

lemma onConnection_at_ok:
  assumes "orderly this R e" and "isInLoopThread tid s" and "tidy this (h, b)" and "table_of b fd = None"
    and "\<And>p. b = PollBackend p \<Longrightarrow> 0 \<le> fd"
  shows "\<exists>hb' a ch. onConnection_at this tid s e c fd (h, b) = Inr hb' \<and> tidy this hb' \<and> kept UNIV h (fst hb') \<and>
    (\<forall>d \<in> R. h d = None \<longrightarrow> fst hb' d = None) \<and> h a = None \<and>
    fst hb' a = Some ch \<and> fd_of ch = fd \<and> read_callback ch = Some (ConnectionRead (new_id e c))"
proof -
  let ?a = "new_addr e h"
  let ?ch = "tie (new_id e c) (setReadCallback (Some (ConnectionRead (new_id e c))) (Channel_new this fd))"
  have a: "h ?a = None" "?a \<notin> R" using assms(1,3) by (auto simp: orderly_def tidy_def)
  have ch: "fd_of ?ch = fd" "loop_of ?ch = this" "index_of ?ch = NOT_FILL" "events ?ch = events (Channel_new this fd)"
    by (simp_all add: tie_def setReadCallback_def Channel_new_def)
  obtain h1 b1 where r: "notifyLoop this tid s True ?a listenTillReadable (h(?a \<mapsto> ?ch), b) = Inr (h1, b1)" "tidy this (h1, b1)"
    "same_channels (h(?a \<mapsto> listenTillReadable ?ch)) h1"
    using register_tidy [OF assms(3,2) a(1), of ?ch] assms(4,5) ch valid_mask_interest(6) [of this fd] by auto
  obtain k where k: "h1 ?a = Some (setIndex k (listenTillReadable ?ch))" using same_channelsD [OF r(3), of ?a] by auto
  obtain hb' where o: "on_connected e c (h1, b1) = Inr hb'" "carried this R UNIV (h1, b1) hb'"
    using assms(1) r(2) unfolding orderly_def gentle_def by blast
  have u: "tidy this hb'" "kept UNIV h1 (fst hb')" "\<And>d. d \<in> R \<Longrightarrow> h1 d = None \<Longrightarrow> fst hb' d = None"
    using carriedD [OF o(2)] by simp_all
  obtain ch' where ch': "fst hb' ?a = Some ch'" "fd_of ch' = fd" "read_callback ch' = Some (ConnectionRead (new_id e c))"
    using keptD [OF u(2) UNIV_I k] ch(1)
    by (auto simp: handlers_def setIndex_def listenTillReadable_def tie_def setReadCallback_def)
  have "kept UNIV h (h(?a \<mapsto> listenTillReadable ?ch))" using a(1) by (auto simp: kept_def)
  then have "kept UNIV h (fst hb')" using same_channels_kept [OF r(3)] u(2) kept_trans by metis
  moreover have "fst hb' d = None" if "d \<in> R" "h d = None" for d
  proof -
    have "d \<notin> dom h1" using that a(2) same_channels_dom [OF r(3)] by auto
    then show ?thesis using u(3) [OF that(1)] by (simp add: domIff)
  qed
  moreover have "onConnection_at this tid s e c fd (h, b) = Inr hb'"
    using r(1) o(1) assms(2) by (simp add: onConnection_at_def assertInLoopThread_def Let_def)
  ultimately show ?thesis using u(1) ch' a(1) by blast
qed

lemma handleWritable_at_ok:
  assumes "orderly this R e" and "isInLoopThread tid s" and "tidy this hb" and "fst hb c = Some ch"
  shows "\<exists>hb'. handleWritable_at this tid s e c hb = Inr hb' \<and> tidy this hb' \<and> kept (- {c}) (fst hb) (fst hb') \<and>
    (\<forall>d \<in> R. fst hb d = None \<or> d = c \<longrightarrow> fst hb' d = None) \<and>
    (sock_error e c = 0 \<longrightarrow> (\<exists>a ch'. (fst hb a = None \<or> a = c) \<and> fst hb' a = Some ch' \<and> fd_of ch' = fd_of ch \<and>
       read_callback ch' = Some (ConnectionRead (new_id e c))))"
proof -
  obtain h b where hb: "hb = (h, b)" by fastforce
  obtain h1 b1 where r: "resetChannel_at this tid s True c hb = Inr (h1, b1)" "tidy this (h1, b1)" "h1 c = None"
    "table_of b1 = (table_of b)(fd_of ch := None)" "others_kept c h h1"
    using resetChannel_at_ok [of this h b c ch tid s] assms(2-4) unfolding hb fst_conv by blast
  have none: "h1 d = None \<longleftrightarrow> h d = None \<or> d = c" for d
  proof (cases "d = c")
    case False
    then have "map_option (setIndex 0) (h1 d) = map_option (setIndex 0) (h d)" using r(5) by (simp add: others_kept_def)
    then show ?thesis using False by (metis option.map_disc_iff)
  qed (simp add: r(3))
  have t: "table_of b1 (fd_of ch) = None" using r(4) by simp
  note k = others_kept_kept [OF r(5)]
  show ?thesis
  proof (cases "sock_error e c = 0")
    case False
    then have "handleWritable_at this tid s e c hb = Inr (h1, b1)"
      using r(1,2) assms(4) close_unwatched [OF _ t, of h1] by (simp add: handleWritable_at_def tidy_def)
    then show ?thesis using False r(2) k none hb by auto
  next
    case True
    have fd: "0 \<le> fd_of ch" if b1: "b1 = PollBackend p" for p
    proof -
      obtain p0 where "b = PollBackend p0" using r(1) resetChannel_kind [of this tid s True c h b h1 p] unfolding hb b1 by blast
      then show ?thesis using assms(3,4) hb poll_invD(4) by (fastforce simp: tidy_def backend_inv_def)
    qed
    obtain hb' a ch' where o: "onConnection_at this tid s e c (fd_of ch) (h1, b1) = Inr hb'" "tidy this hb'"
      "kept UNIV h1 (fst hb')" "\<forall>d \<in> R. h1 d = None \<longrightarrow> fst hb' d = None" "h1 a = None" "fst hb' a = Some ch'"
      "fd_of ch' = fd_of ch" "read_callback ch' = Some (ConnectionRead (new_id e c))"
      using onConnection_at_ok [where c = c, OF assms(1,2) r(2) t] fd by blast
    have "handleWritable_at this tid s e c hb = Inr hb'" using True r(1) o(1) assms(4) by (simp add: handleWritable_at_def)
    moreover have "kept (- {c}) h (fst hb')" using kept_trans [OF k kept_mono [OF o(3)]] by simp
    ultimately show ?thesis using o none hb by auto
  qed
qed

text \<open>One callback of a round with connectors.\<close>

lemma connector_effect_returns:
  assumes "orderly this R e" and "isInLoopThread tid s" and "tidy this hb" and "fst hb c = Some ch"
  shows "\<exists>hb'. connector_effect this tid s e c i hb = Inr hb' \<and> carried this R (protected c i) hb hb'"
proof (cases "i = OnWrite ConnectorWrite")
  case True
  then show ?thesis using handleWritable_at_ok [OF assms] by (auto simp: connector_effect_def carried_def)
next
  case False
  obtain hb' where "other_callbacks e c i hb = Inr hb'" "carried this R UNIV hb hb'"
    using assms(1,3) unfolding orderly_def gentle_def by blast
  moreover from this(2) have "carried this R (protected c i) hb hb'" by (rule carried_mono) simp
  ultimately show ?thesis using False by (simp add: connector_effect_def)
qed

lemma connector_effect_carried:
  assumes "orderly this R e" and "isInLoopThread tid s" and "tidy this hb" and "connector_effect this tid s e c i hb = Inr hb'"
  shows "carried this R (if i = OnWrite ConnectorWrite then - {c} else UNIV) hb hb'"
proof (cases "i = OnWrite ConnectorWrite")
  case True
  then obtain ch where "fst hb c = Some ch" using assms(4)
    by (auto simp: connector_effect_def handleWritable_at_def split: option.splits)
  from connector_effect_returns [OF assms(1-3) this, of i] assms(4) True show ?thesis by auto
next
  case False
  obtain hb1 where "other_callbacks e c i hb = Inr hb1" "carried this R UNIV hb hb1"
    using assms(1,3) unfolding orderly_def gentle_def by blast
  then show ?thesis using False assms(4) by (simp add: connector_effect_def)
qed

lemma connector_effect_keeps:
  assumes "orderly this R e" and "isInLoopThread tid s"
  shows "keeps_handlers (tidy this) (connector_effect this tid s e)"
  unfolding keeps_handlers_def
proof (intro conjI allI impI)
  fix pr wr hb act hb'
  assume "tidy this hb" "full_answer pr hb" "backend_poll pr wr hb = Inr (act, hb')"
  then show "tidy this hb'" by (rule poll_tidy)
next
  fix c i and hb :: "chan_heap \<times> backend"
  assume t: "tidy this hb" and "fst hb c \<noteq> None"
  then obtain ch where c: "fst hb c = Some ch" by auto
  from connector_effect_returns [OF assms t c, of i]
  show "\<exists>hb'. connector_effect this tid s e c i hb = Inr hb' \<and> tidy this hb' \<and>
      same_handlers (protected c i) (fst hb) (fst hb')"
    using carriedD kept_handlers by meson
qed

lemma connector_calls_carried:
  assumes "orderly this R e" and "isInLoopThread tid s"
  shows "tidy this hb \<Longrightarrow> call_each (connector_effect this tid s e) c calls hb = Inr hb' \<Longrightarrow>
    carried this R (if OnWrite ConnectorWrite \<in> set calls then - {c} else UNIV) hb hb'"
proof (induction calls arbitrary: hb)
  case (Cons i calls)
  let ?A = "if OnWrite ConnectorWrite \<in> set (i # calls) then - {c} else UNIV"
  obtain hb1 where 1: "connector_effect this tid s e c i hb = Inr hb1"
    "call_each (connector_effect this tid s e) c calls hb1 = Inr hb'" using Cons.prems(2) by (auto simp: bind_res_eq_Inr)
  have a: "carried this R ?A hb hb1" using connector_effect_carried [OF assms Cons.prems(1) 1(1)] by (rule carried_mono) simp
  have "carried this R ?A hb1 hb'" using Cons.IH [OF carriedD(1) [OF a] 1(2)] by (rule carried_mono) simp
  with a show ?case by (rule carried_trans)
qed (simp add: carried_refl)

lemma connector_tests_carried:
  assumes "orderly this R e" and "isInLoopThread tid s"
  shows "tidy this hb \<Longrightarrow> handle_tests (connector_effect this tid s e) c ts hb = Inr (calls, hb') \<Longrightarrow>
    carried this R (- {c}) hb hb'"
proof (induction ts arbitrary: hb calls)
  case (Cons t ts)
  obtain ch hb1 more where 1: "call_each (connector_effect this tid s e) c (t ch) hb = Inr hb1"
    "handle_tests (connector_effect this tid s e) c ts hb1 = Inr (more, hb')"
    using Cons.prems(2) by (auto simp: bind_res_eq_Inr split: option.splits)
  have a: "carried this R (- {c}) hb hb1"
    using connector_calls_carried [OF assms Cons.prems(1) 1(1)] by (rule carried_mono) simp
  then show ?case using Cons.IH [OF carriedD(1) [OF a] 1(2)] carried_trans by blast
qed (simp add: carried_refl)

lemma connector_ready_carried:
  assumes "orderly this R e" and "isInLoopThread tid s"
  shows "tidy this hb \<Longrightarrow> handle_ready (connector_effect this tid s e) cs hb = Inr (calls, hb') \<Longrightarrow>
    carried this R (- set cs) hb hb'"
proof (induction cs arbitrary: hb calls)
  case (Cons c cs)
  obtain hb1 a more where 1: "handle_tests (connector_effect this tid s e) c event_tests hb = Inr (a, hb1)"
    "handle_ready (connector_effect this tid s e) cs hb1 = Inr (more, hb')"
    using Cons.prems(2) by (auto simp: bind_res_eq_Inr)
  note c = connector_tests_carried [OF assms Cons.prems(1) 1(1)]
  show ?case
    by (rule carried_trans [OF carried_mono [OF c] carried_mono [OF Cons.IH [OF carriedD(1) [OF c] 1(2)]]]) auto
qed (simp add: carried_refl)

lemma handle_ready_append:
  "handle_ready run xs hb = Inr (calls, hb1) \<Longrightarrow>
   handle_ready run (xs @ ys) hb = bind_res (handle_ready run ys hb1) (\<lambda>(more, hb2). Inr (calls @ more, hb2))"
proof (induction xs arbitrary: hb calls)
  case Nil
  then show ?case by (cases "handle_ready run ys hb1") auto
next
  case (Cons c xs)
  then obtain a hb2 b where "handle_tests run c event_tests hb = Inr (a, hb2)" "handle_ready run xs hb2 = Inr (b, hb1)"
    "calls = a @ b" by (auto simp: bind_res_eq_Inr)
  with Cons.IH [of hb2 b] show ?case by (cases "handle_ready run ys hb1") auto
qed

lemma handle_tests_cong: "run c = run' c \<Longrightarrow> handle_tests run c ts hb = handle_tests run' c ts hb"
proof (induction ts arbitrary: hb)
  case (Cons t ts)
  have "call_each run c is hb = call_each run' c is hb" for "is" hb
    using Cons.prems by (induction "is" arbitrary: hb) (simp_all add: bind_res_def split: sum.split)
  with Cons show ?case by (simp add: bind_res_def split: option.split sum.split)
qed simp

lemma handle_ready_cong:
  "\<forall>c \<in> set cs. run c = run' c \<Longrightarrow> handle_ready run cs hb = handle_ready run' cs hb"
  by (induction cs arbitrary: hb) (auto simp: handle_tests_cong [of run _ run'] bind_res_def split: sum.split)

lemma connector_round:
  assumes "orderly this R e" and "isInLoopThread tid s" and "tidy this hb" and "distinct cs" and "\<forall>c \<in> set cs. fst hb c \<noteq> None"
  shows "\<exists>hb'. handle_ready (connector_effect this tid s e) cs hb =
      Inr (concat (map (\<lambda>c. handleEvent (the (fst hb c))) cs), hb') \<and> carried this R (- set cs) hb hb'"
  using handle_ready_calls [OF connector_effect_keeps [OF assms(1,2)] assms(4) same_handlers_refl assms(5,3)]
    connector_ready_carried [OF assms(1-3)] by blast

text \<open>A channel on a descriptor with a read callback.\<close>

definition holds_at :: "addr \<Rightarrow> fd \<Rightarrow> callback \<Rightarrow> chan_heap \<Rightarrow> bool" where
  "holds_at a fd cb h \<longleftrightarrow> (\<exists>ch. h a = Some ch \<and> fd_of ch = fd \<and> read_callback ch = Some cb)"

lemma kept_holds: "kept A h h' \<Longrightarrow> a \<in> A \<Longrightarrow> holds_at a fd cb h \<Longrightarrow> holds_at a fd cb h'"
  by (auto simp: holds_at_def handlers_def dest!: keptD)

lemma kept_exists: "kept A h h' \<Longrightarrow> c \<in> A \<Longrightarrow> h' c = None \<Longrightarrow> h c = None"
  by (cases "h c") (auto dest: keptD)

lemma gone_from_table: "tidy this hb \<Longrightarrow> fst hb c = None \<Longrightarrow> c \<notin> ran (table_of (snd hb))"
  using table_watched [of "fst hb" "snd hb"] backend_watched_fd [of "fst hb" "snd hb"]
  by (fastforce simp: tidy_def ran_def)

text \<open>The turn of a connector's channel.\<close>

lemma connector_turn:
  assumes "orderly this R e" and "isInLoopThread tid s" and "tidy this hb" and "fst hb c = Some ch"
    and "OnWrite ConnectorWrite \<in> set (handleEvent ch)"
    and "handle_tests (connector_effect this tid s e) c event_tests hb = Inr (calls, hb')"
  shows "(c \<in> R \<longrightarrow> fst hb' c = None) \<and>
    (sock_error e c = 0 \<longrightarrow>
      (\<exists>a. (fst hb a = None \<or> a = c) \<and> holds_at a (fd_of ch) (ConnectionRead (new_id e c)) (fst hb')))"
proof -
  let ?run = "connector_effect this tid s e"
  obtain x r w where ts: "event_tests = [x, r, w]" and
    t: "\<And>ch. \<exists>b cb. x ch = call_if b OnError cb" "\<And>ch. \<exists>b cb. r ch = call_if b OnRead cb"
      "\<And>ch. \<exists>b cb. w ch = call_if b OnWrite cb"
    by (rule event_tests_parts) (rule that)
  have quiet: "OnWrite ConnectorWrite \<notin> set (x ch)" "OnWrite ConnectorWrite \<notin> set (r ch)" for ch
    using t(1,2) [of ch] by (auto simp: set_call_if)
  have w: "w ch = [OnWrite ConnectorWrite]"
    using t(3) [of ch] assms(5) quiet [of ch]
    by (auto simp: ts handleEvent_tests call_if_def split: option.splits if_splits)
  obtain hb1 ch1 hb2 ch2 where run: "call_each ?run c (x ch) hb = Inr hb1" "fst hb1 c = Some ch1"
    "call_each ?run c (r ch1) hb1 = Inr hb2" "fst hb2 c = Some ch2" "call_each ?run c (w ch2) hb2 = Inr hb'"
    using assms(4,6) by (auto simp: ts bind_res_eq_Inr split: option.splits)
  have c1: "carried this R UNIV hb hb1" using connector_calls_carried [OF assms(1-3) run(1)] quiet by simp
  have "carried this R UNIV hb1 hb2" using connector_calls_carried [OF assms(1,2) carriedD(1) [OF c1] run(3)] quiet by simp
  with c1 have c2: "carried this R UNIV hb hb2" by (rule carried_trans)
  have ch2: "handlers ch2 = handlers ch" "fd_of ch2 = fd_of ch"
    using keptD [OF carriedD(2) [OF c2] UNIV_I assms(4)] run(4) by auto
  have "w ch2 = w ch" using test_handlers [of w ch2 ch] ch2(1) by (simp add: ts)
  then have "handleWritable_at this tid s e c hb2 = Inr hb'" using run(5) w by (auto simp: connector_effect_def bind_res_eq_Inr)
  with handleWritable_at_ok [OF assms(1,2) carriedD(1) [OF c2] run(4)] ch2(2)
  have "\<forall>d \<in> R. fst hb2 d = None \<or> d = c \<longrightarrow> fst hb' d = None"
    "sock_error e c = 0 \<longrightarrow> (\<exists>a. (fst hb2 a = None \<or> a = c) \<and> holds_at a (fd_of ch) (ConnectionRead (new_id e c)) (fst hb'))"
    unfolding holds_at_def by auto
  then show ?thesis using kept_exists [OF carriedD(2) [OF c2] UNIV_I] by blast
qed

text \<open>
  Property C30. Connectors may establish connections in the middle of a round. In a loop whose
  channels are all registered, the round calls exactly what the ready channels ask for, though the
  write callback of a connector destroys the channel it is called for while \<open>handleEvent\<close> still
  runs on it, and though the new connection registers a channel of its own on the same descriptor.
  Afterwards all channels are registered again; the descriptor of each connector that succeeded
  belongs to the channel of its connection; and at an address that the allocator does not use
  again (those of \<open>R\<close>) a connector's channel is gone and the poller holds no pointer to it. The
  other callbacks of the round, the user's connection callback included, may do anything that
  keeps the loop tidy, destroys no channel and exchanges no callbacks.
\<close>
theorem connector_write_in_round:
  assumes "tidy this hb" and "isInLoopThread tid s" and "orderly this R e" and "distinct cs"
    and "\<forall>c \<in> set cs. fst hb c \<noteq> None"
  shows "\<exists>hb'. handle_ready (connector_effect this tid s e) cs hb =
      Inr (concat (map (\<lambda>c. handleEvent (the (fst hb c))) cs), hb') \<and> tidy this hb' \<and>
    (\<forall>c \<in> set cs. OnWrite ConnectorWrite \<in> set (handleEvent (the (fst hb c))) \<longrightarrow>
       (sock_error e c = 0 \<longrightarrow> (\<exists>a. table_of (snd hb') (fd_of (the (fst hb c))) = Some a \<and>
          holds_at a (fd_of (the (fst hb c))) (ConnectionRead (new_id e c)) (fst hb'))) \<and>
       (c \<in> R \<longrightarrow> fst hb' c = None \<and> c \<notin> ran (table_of (snd hb'))))"
proof -
  let ?run = "connector_effect this tid s e"
  obtain hb' where r: "handle_ready ?run cs hb = Inr (concat (map (\<lambda>c. handleEvent (the (fst hb c))) cs), hb')" "tidy this hb'"
    using connector_round [OF assms(3,2,1,4,5)] by (auto simp: carried_def)
  have "(sock_error e c = 0 \<longrightarrow> (\<exists>a. holds_at a (fd_of ch) (ConnectionRead (new_id e c)) (fst hb'))) \<and>
      (c \<in> R \<longrightarrow> fst hb' c = None)"
    if c: "c \<in> set cs" "OnWrite ConnectorWrite \<in> set (handleEvent ch)" "fst hb c = Some ch" for c ch
  proof -
    obtain xs ys where cs: "cs = xs @ c # ys" using c(1) by (meson split_list)
    obtain hb1 where 1: "handle_ready ?run xs hb = Inr (concat (map (\<lambda>c. handleEvent (the (fst hb c))) xs), hb1)"
      "carried this R (- set xs) hb hb1" using connector_round [OF assms(3,2,1), of xs] assms(4,5) cs by auto
    obtain ch1 where ch1: "fst hb1 c = Some ch1" "handlers ch1 = handlers ch" "fd_of ch1 = fd_of ch"
      using keptD [OF carriedD(2) [OF 1(2)] _ c(3)] assms(4) cs by auto
    obtain hb2 a b where 2: "handle_tests ?run c event_tests hb1 = Inr (a, hb2)" "handle_ready ?run ys hb2 = Inr (b, hb')"
      using r(1) handle_ready_append [OF 1(1), of "c # ys"] cs by (auto simp: bind_res_eq_Inr)
    note t1 = carriedD(1) [OF 1(2)]
    note c2 = connector_tests_carried [OF assms(3,2) t1 2(1)]
    note c3 = connector_ready_carried [OF assms(3,2) carriedD(1) [OF c2] 2(2)]
    have "OnWrite ConnectorWrite \<in> set (handleEvent ch1)" using c(2) handleEvent_handlers [OF ch1(2)] by simp
    note turn = connector_turn [OF assms(3,2) t1 ch1(1) this 2(1)]
    have live: "fst hb1 d \<noteq> None \<and> d \<noteq> c" if "d \<in> set ys" for d
      using kept_exists [OF carriedD(2) [OF 1(2)], of d] that assms(4,5) cs by auto
    have "\<exists>a. holds_at a (fd_of ch) (ConnectionRead (new_id e c)) (fst hb')" if z: "sock_error e c = 0"
    proof -
      obtain a where a: "fst hb1 a = None \<or> a = c" "holds_at a (fd_of ch) (ConnectionRead (new_id e c)) (fst hb2)"
        using turn z ch1(3) by auto
      then have "a \<in> - set ys" using live [of a] by auto
      from kept_holds [OF carriedD(2) [OF c3] this a(2)] show ?thesis by blast
    qed
    then show ?thesis using turn carriedD(3) [OF c3] by blast
  qed
  moreover have "table_of (snd hb') fd = Some a" if "holds_at a fd cb (fst hb')" for a fd cb
    using r(2) that by (auto simp: tidy_def holds_at_def)
  ultimately show ?thesis using r assms(5) gone_from_table [OF r(2)]
    by (intro exI [of _ hb']) fastforce
qed

text \<open>A loop with the channel of a connector that has just become writable, at address 4.\<close>

definition writable_channel :: channel where
  "writable_channel = (setWriteCallback (Some ConnectorWrite) (Channel_new 0 7))\<lparr>return_events := POLLOUT\<rparr>"

definition timer_channel :: channel where
  "timer_channel = (setReadCallback (Some TimersRead) (Channel_new 0 8))\<lparr>return_events := POLLIN\<rparr>"

definition busy_loop :: "chan_heap \<times> backend" where
  "busy_loop =
     ([4 \<mapsto> writable_channel, 5 \<mapsto> timer_channel],
      EpollBackend (Epoller_new\<lparr>channel_map := [7 \<mapsto> 4, 8 \<mapsto> 5],
        interest_list := [7 \<mapsto> \<lparr>ep_events = EPOLLOUT, ep_ptr = Some 4\<rparr>, 8 \<mapsto> \<lparr>ep_events = EPOLLIN, ep_ptr = Some 5\<rparr>]\<rparr>))"

lemmas busy_defs = writable_channel_def timer_channel_def setReadCallback_def setWriteCallback_def Channel_new_def

lemma busy_loop_tidy: "tidy 0 busy_loop"
  by (auto simp: busy_loop_def tidy_def backend_inv_def epoll_inv_def Epoller_new_def table_of_def busy_defs
      split: if_splits)

lemma busy_loop_events:
  "handleEvent writable_channel = [OnWrite ConnectorWrite]" "handleEvent timer_channel = [OnRead TimersRead]"
  by (simp_all add: busy_defs handleEvent_def call_if_def has_any_def poll_bits)

lemma in_own_thread: "isInLoopThread 1 (EventLoop_init 1)"
  by (simp add: isInLoopThread_def EventLoop_init_def)

text \<open>
  Surroundings in which every connection succeeds and the timer callback opens another channel, on
  the descriptor 9, unless there is one.
\<close>

definition fresh_addr :: "chan_heap \<Rightarrow> addr" where
  "fresh_addr h = Suc (Max (insert 5 (dom h)))"

definition open_reader :: cb_effect where
  "open_reader c i = (\<lambda>(h, b).
     if i = OnRead TimersRead \<and> table_of b 9 = None
     then notifyLoop 0 1 (EventLoop_init 1) True (fresh_addr h) listenTillReadable
            (h(fresh_addr h \<mapsto> setReadCallback (Some (UserCallback 0)) (Channel_new 0 9)), b)
     else Inr (h, b))"

definition busy_env :: round_env where
  "busy_env = \<lparr>sock_error = \<lambda>_. 0, new_addr = fresh_addr, new_id = \<lambda>_. 1, on_connected = \<lambda>_. Inr,
     other_callbacks = open_reader\<rparr>"

lemma fresh_addr_law: "finite (dom h) \<Longrightarrow> fresh_addr h \<notin> dom h \<union> {..5}"
proof -
  assume "finite (dom h)"
  then have "x \<le> Max (insert 5 (dom h))" if "x \<in> insert 5 (dom h)" for x using that by (intro Max_ge) simp_all
  then have "x < fresh_addr h" if "x \<in> insert 5 (dom h)" for x using that by (simp add: fresh_addr_def less_Suc_eq_le)
  from this [of 5] this [of "fresh_addr h"] show ?thesis by auto
qed

lemma busy_env_orderly: "orderly 0 {..5} busy_env"
proof -
  have "\<exists>hb'. open_reader c i (h, b) = Inr hb' \<and> carried 0 {..5} UNIV (h, b) hb'" if t: "tidy 0 (h, b)" for c i h b
  proof (cases "i = OnRead TimersRead \<and> table_of b 9 = None")
    case True
    let ?a = "fresh_addr h" and ?ch = "setReadCallback (Some (UserCallback 0)) (Channel_new 0 9)"
    have a: "h ?a = None" "?a \<notin> {..5}" using fresh_addr_law [of h] t by (auto simp: tidy_def domIff)
    obtain h' b' where r: "notifyLoop 0 1 (EventLoop_init 1) True ?a listenTillReadable (h(?a \<mapsto> ?ch), b) = Inr (h', b')"
      "tidy 0 (h', b')" "same_channels (h(?a \<mapsto> listenTillReadable ?ch)) h'"
      using register_tidy [OF t in_own_thread a(1), of ?ch] True valid_mask_interest(6) [of 0 9]
      by (auto simp: setReadCallback_def Channel_new_def)
    have "kept UNIV h (h(?a \<mapsto> listenTillReadable ?ch))" using a(1) by (auto simp: kept_def)
    then have "kept UNIV h h'" using same_channels_kept [OF r(3)] kept_trans by blast
    moreover have "h' d = None" if "d \<in> {..5}" "h d = None" for d
    proof -
      have "d \<notin> dom h'" using that a(2) same_channels_dom [OF r(3)] by auto
      then show ?thesis by (simp add: domIff)
    qed
    ultimately show ?thesis using True r by (simp add: open_reader_def carried_def)
  next
    case False
    then show ?thesis using carried_refl [OF t] by (auto simp: open_reader_def)
  qed
  then have "gentle 0 {..5} (open_reader c i)" for c i unfolding gentle_def by (metis surj_pair)
  then show ?thesis using fresh_addr_law by (simp add: orderly_def busy_env_def gentle_def carried_refl)
qed

theorem connector_write_in_round_witness:
  "\<exists>hb' a. handle_ready (connector_effect 0 1 (EventLoop_init 1) busy_env) [4, 5] busy_loop =
      Inr ([OnWrite ConnectorWrite, OnRead TimersRead], hb') \<and> tidy 0 hb' \<and> fst hb' 4 = None \<and>
    table_of (snd hb') 7 = Some a \<and> holds_at a 7 (ConnectionRead 1) (fst hb')"
proof -
  have "fst busy_loop 4 = Some writable_channel" "fst busy_loop 5 = Some timer_channel" "fd_of writable_channel = 7"
    "sock_error busy_env 4 = 0" "new_id busy_env 4 = 1"
    by (simp_all add: busy_loop_def busy_defs busy_env_def)
  then show ?thesis
    using connector_write_in_round [OF busy_loop_tidy in_own_thread busy_env_orderly, of "[4, 5]"]
    by (auto simp: busy_loop_events)
qed

section \<open>Stopping a connector during a round\<close>

text \<open>The effects of a round in which the callback \<open>cb\<close> of the channel \<open>t\<close> stops the connector \<open>k\<close>, whose channel is \<open>c\<close>.\<close>

definition stopping_effect ::
  "nat \<Rightarrow> tid \<Rightarrow> event_loop \<Rightarrow> round_env \<Rightarrow> addr \<Rightarrow> callback \<Rightarrow> addr \<Rightarrow> connector \<Rightarrow> cb_effect" where
  "stopping_effect this tid s e t cb c k a i hb =
     (if a = t \<and> i = OnRead cb then stop_at this tid s True c k hb else connector_effect this tid s e a i hb)"

lemma stopping_same:
  "OnRead cb \<notin> set calls \<Longrightarrow>
   call_each (stopping_effect this tid s e t cb c k) t calls hb = call_each (connector_effect this tid s e) t calls hb"
  by (induction calls arbitrary: hb) (auto simp: stopping_effect_def bind_res_def split: sum.split)

lemma stopping_turn:
  assumes "orderly this R e" and "c \<in> R" and "isInLoopThread tid s" and "tidy this hb" and "fst hb t = Some ch"
    and "fst hb c \<noteq> None" and "t \<noteq> c" and "OnRead cb \<in> set (handleEvent ch)" and "cn_state k = C_Connecting"
  shows "\<exists>calls hb'. handle_tests (stopping_effect this tid s e t cb c k) t event_tests hb = Inr (calls, hb') \<and>
    tidy this hb' \<and> fst hb' c = None \<and> kept (- {t, c}) (fst hb) (fst hb')"
proof -
  let ?run = "stopping_effect this tid s e t cb c k" and ?con = "connector_effect this tid s e"
  obtain x r w where ts: "event_tests = [x, r, w]" and
    t: "\<And>ch. \<exists>b cb. x ch = call_if b OnError cb" "\<And>ch. \<exists>b cb. r ch = call_if b OnRead cb"
      "\<And>ch. \<exists>b cb. w ch = call_if b OnWrite cb"
    by (rule event_tests_parts) (rule that)
  have quiet: "OnRead cb \<notin> set (x ch)" "OnRead cb \<notin> set (w ch)" "OnWrite ConnectorWrite \<notin> set (x ch)" for ch
    using t(1,3) [of ch] by (auto simp: set_call_if)
  have r: "r ch = [OnRead cb]"
    using t(2) [of ch] assms(8) quiet [of ch]
    by (auto simp: ts handleEvent_tests call_if_def split: option.splits if_splits)
  note runs = call_each_keeps [OF connector_effect_keeps [OF assms(1,3)]]
  obtain b0 cb0 where x0: "x ch = call_if b0 OnError cb0" using t(1) by blast
  from runs [OF assms(4,5) x0, of UNIV] obtain hb0 where 0: "call_each ?con t (x ch) hb = Inr hb0" by auto
  have c0: "carried this R UNIV hb hb0" using connector_calls_carried [OF assms(1,3,4) 0] quiet by simp
  obtain ch0 where ch0: "fst hb0 t = Some ch0" "handlers ch0 = handlers ch"
    using keptD [OF carriedD(2) [OF c0] UNIV_I assms(5)] by blast
  have "r ch0 = r ch" using test_handlers [of r ch0 ch] ch0(2) by (simp add: ts)
  obtain h b chc where hb0: "hb0 = (h, b)" "h c = Some chc"
    using kept_exists [OF carriedD(2) [OF c0] UNIV_I, of c] assms(6) by (cases hb0) auto
  then obtain h1 b1 where s1: "resetChannel_at this tid s True c hb0 = Inr (h1, b1)" "tidy this (h1, b1)" "h1 c = None"
    "others_kept c h h1" using resetChannel_at_ok [of this h b c chc] carriedD(1) [OF c0] assms(3) by blast
  have stop: "call_each ?run t (r ch0) hb0 = Inr (h1, b1)"
    using r \<open>r ch0 = r ch\<close> s1(1) assms(3,9) by (simp add: stopping_effect_def stop_at_def assertInLoopThread_def)
  note k1 = others_kept_kept [OF s1(4)]
  obtain ch1 where ch1: "h1 t = Some ch1" using keptD [OF k1, of t ch0] ch0(1) hb0 assms(7) by auto
  obtain b2 cb2 where w2: "w ch1 = call_if b2 OnWrite cb2" using t(3) by blast
  from runs [where A = "- {t}", OF s1(2) _ w2, of t] ch1 obtain hb2 where 2: "call_each ?con t (w ch1) (h1, b1) = Inr hb2" by auto
  have c2: "carried this R (- {t}) (h1, b1) hb2"
    using connector_calls_carried [OF assms(1,3) s1(2) 2] by (rule carried_mono) simp
  have "kept (- {t, c}) (fst hb) h" using kept_mono [OF carriedD(2) [OF c0]] hb0 by simp
  moreover have "kept (- {t, c}) h h1" by (rule kept_mono [OF k1]) auto
  moreover have "kept (- {t, c}) h1 (fst hb2)" using kept_mono [OF carriedD(2) [OF c2]] by auto
  ultimately have "kept (- {t, c}) (fst hb) (fst hb2)" using kept_trans by blast
  moreover have "handle_tests ?run t event_tests hb = Inr (x ch @ r ch0 @ w ch1, hb2)"
    using 0 2 stop ch0(1) ch1 assms(5) stopping_same quiet by (simp add: ts)
  ultimately show ?thesis using carriedD(1) [OF c2] carriedD(3) [OF c2 assms(2)] s1(3) by auto
qed

text \<open>
  Property C38. Stopping a connector from a callback can bring the process down. \<open>stop()\<close> in the
  loop's thread destroys the connector's channel at once. When the kernel has reported that
  channel in the same round, after the channel whose callback calls \<open>stop()\<close> (a timer that gives
  up on a connection attempt, say), the loop goes on to \<open>handleEvent\<close> of the destroyed channel.
  This is so whatever the other callbacks of the round do to a tidy loop, as long as none of them
  creates a channel in the very memory that was freed (\<open>R\<close> holds the addresses not used again).
\<close>
theorem stop_in_round_uses_freed_channel:
  assumes "tidy this hb" and "isInLoopThread tid s" and "orderly this R e" and "c \<in> R"
    and "distinct (t # xs @ c # ys)"
    and "\<forall>d \<in> set (t # xs @ c # ys). fst hb d \<noteq> None" and "OnRead cb \<in> set (handleEvent (the (fst hb t)))"
    and "cn_state k = C_Connecting"
  shows "handle_ready (stopping_effect this tid s e t cb c k) (t # xs @ c # ys) hb = Inl UseAfterFree"
proof -
  let ?run = "stopping_effect this tid s e t cb c k"
  obtain ch where ch: "fst hb t = Some ch" using assms(6) by auto
  obtain calls hb1 where 1: "handle_tests ?run t event_tests hb = Inr (calls, hb1)" "tidy this hb1" "fst hb1 c = None"
    "kept (- {t, c}) (fst hb) (fst hb1)"
    using stopping_turn [OF assms(3,4,2,1) ch, of cb k] assms(5-8) ch by auto
  have xs: "\<forall>d \<in> set xs. fst hb1 d \<noteq> None"
  proof
    fix d assume "d \<in> set xs"
    then have "d \<in> - {t, c}" "fst hb d \<noteq> None" using assms(5,6) by auto
    then show "fst hb1 d \<noteq> None" using kept_exists [OF 1(4), of d] by (cases "fst hb1 d") simp_all
  qed
  have "handle_ready ?run xs hb1 = handle_ready (connector_effect this tid s e) xs hb1"
    by (rule handle_ready_cong) (use assms(5) in \<open>auto simp: fun_eq_iff stopping_effect_def\<close>)
  moreover have "distinct xs" using assms(5) by simp
  ultimately obtain more hb2 where 2: "handle_ready ?run xs hb1 = Inr (more, hb2)" "carried this R (- set xs) hb1 hb2"
    using connector_round [OF assms(3,2) 1(2) _ xs] by auto
  have "fst hb2 c = None" by (rule carriedD(3) [OF 2(2) assms(4) 1(3)])
  then have "handle_ready ?run (c # ys) hb2 = Inl UseAfterFree" by (simp add: event_tests_def)
  with 1(1) handle_ready_append [OF 2(1), of "c # ys"] show ?thesis by simp
qed

theorem stop_in_round_uses_freed_channel_witness:
  "handle_ready (stopping_effect 0 1 (EventLoop_init 1) busy_env 5 TimersRead 4 ((Connector_new 0)\<lparr>cn_state := C_Connecting\<rparr>))
     [5, 4] busy_loop = Inl UseAfterFree"
proof -
  have "fst busy_loop 4 = Some writable_channel" "fst busy_loop 5 = Some timer_channel" by (simp_all add: busy_loop_def)
  then show ?thesis
    using stop_in_round_uses_freed_channel [OF busy_loop_tidy in_own_thread busy_env_orderly, of 4 5 "[]" "[]" TimersRead]
    by (simp add: busy_loop_events)
qed

end
