(* ===== verification/ClientLifetime.thy ===== *)
theory ClientLifetime
  imports TcpClient
begin

text \<open>
  What the destruction of a \<open>TcpClient\<close> leaves behind (\<open>net/TcpClient.cpp\<close>, \<open>net/Connector.cpp\<close>). The
  connector is a shared object: it is held by the client, by the lambda of every retry timer that
  has not fired, and by the write callback of its own channel. Its new-connection callback holds
  the client by a plain pointer.
\<close>

section \<open>Owners of a connector\<close>

text \<open>The owners other than the client; without any, the destructor of the connector runs.\<close>

definition connector_refs :: "connector \<Rightarrow> nat" where
  "connector_refs c = timers_pending c + (if cn_channel c = None then 0 else 1)"

definition release_connector :: "connector \<Rightarrow> (cn_effect list \<times> connector \<times> bool) res" where
  "release_connector c =
     (if connector_refs c = 0 then bind_res (Connector_delete c) (\<lambda>(eff, c1). Inr (eff, c1, False))
      else Inr ([], c, True))"

text \<open>The destructor of the client with its members: the flag tells whether the connector lives on.\<close>

definition TcpClient_destruct :: "tcp_client \<Rightarrow> (effect list \<times> connector \<times> bool) res" where
  "TcpClient_destruct k =
     bind_res (TcpClient_delete k) (\<lambda>(eff, c). bind_res (release_connector c) (\<lambda>(_, r). Inr (eff, r)))"

text \<open>A retry timer of a connector without a client; its lambda goes after the call.\<close>

definition orphan_timer :: "fd \<Rightarrow> errno \<Rightarrow> connector \<Rightarrow> (cn_effect list \<times> connector \<times> bool) res" where
  "orphan_timer s err c =
     bind_res (retry_timer_fires s err c) (\<lambda>(eff, c1).
     bind_res (release_connector c1) (\<lambda>(eff1, r). Inr (eff @ eff1, r)))"

text \<open>
  \<open>handleWritable\<close> of a connector without a client. \<open>resetChannel\<close> destroys the channel and with it
  the lambda that is running; when that was the last owner, the connector is gone while its
  member function goes on. Otherwise a successful attempt calls the client that no longer exists.
\<close>

definition orphan_writable :: "errno \<Rightarrow> connector \<Rightarrow> cn_result" where
  "orphan_writable err c =
     (case cn_socket c of
        None \<Rightarrow> Inl NullDereference
      | Some s \<Rightarrow>
          cn_then (resetChannel (if err \<noteq> 0 then c else c\<lparr>cn_state := C_Connected\<rparr>)) (\<lambda>c1.
            if connector_refs c1 = 0 then Inl UseAfterFree
            else if err \<noteq> 0 then retry (reset_socket c1)
            else if cn_callback c1 then Inl UseAfterFree
            else Inr ([], reset_socket c1)))"

section \<open>The destruction of a client\<close>

lemma stop_fields:
  assumes "Connector_stop c = Inr (eff, c')"
  shows "timers_pending c' = timers_pending c" "cn_callback c' = cn_callback c" "cn_state c' = C_Disconnected"
    "\<not> cn_connect c'"
  using assms resetChannel_ok [of "c\<lparr>cn_connect := False\<rparr>"]
  by (auto simp: Connector_stop_def stopInLoop_def cn_then_def split: if_splits)

lemma stop_total: "\<exists>eff c'. Connector_stop c = Inr (eff, c')"
  using resetChannel_ok [of "c\<lparr>cn_connect := False\<rparr>"] by (auto simp: Connector_stop_def stopInLoop_def cn_then_def)

lemma idle_connector: "cn_inv c \<Longrightarrow> cn_state c \<noteq> C_Connecting \<Longrightarrow> cn_channel c = None \<and> cn_socket c = None"
  by (auto simp: cn_inv_def consistent_def)

lemma release_idle:
  assumes "cn_inv c" and "cn_state c \<noteq> C_Connecting" and "timers_pending c = 0"
  shows "release_connector c = Inr ([], c, False)"
  using idle_connector [OF assms(1,2)] assms(3)
  by (simp add: release_connector_def connector_refs_def Connector_delete_def resetChannel_def cn_then_def reset_socket_def)

text \<open>
  Property C37. The destructor of a client that has no connection, in the loop's thread. When the
  connector waits for no retry, everything ends with the client: the connector is destroyed, no
  channel of it is registered, and every socket it opened is closed or was handed over. When a
  retry is pending, the connector survives. Its timer starts another attempt, and when the socket
  of that attempt becomes writable the code runs into freed memory: always when the attempt has
  succeeded, and when it has failed too unless yet another retry timer holds the connector.
\<close>
theorem client_destroyed_before_connection:
  assumes "cn_inv (client_connector k)" and "connection k = None" and "s \<noteq> -1"
    and "cn_callback (client_connector k)"
  shows "\<exists>c alive. TcpClient_destruct k = Inr ([], c, alive) \<and>
    (timers_pending (client_connector k) = 0 \<longrightarrow> \<not> alive \<and> cn_channel c = None \<and>
       mset (opened c) = mset (closed c) + mset (handed c)) \<and>
    (0 < timers_pending (client_connector k) \<longrightarrow> alive \<and>
       (\<exists>eff c1. orphan_timer s 115 c = Inr (eff, c1, True) \<and> cn_state c1 = C_Connecting \<and> cn_socket c1 = Some s \<and>
          (err = 0 \<or> timers_pending (client_connector k) = 1 \<longrightarrow> orphan_writable err c1 = Inl UseAfterFree)))"
proof -
  obtain eff c where c: "Connector_stop (client_connector k) = Inr (eff, c)" using stop_total by blast
  note f = stop_fields [OF c] and inv = stop_inv [OF assms(1) c]
  then have idle: "cn_channel c = None" "cn_socket c = None" using idle_connector by auto
  then have bal: "mset (opened c) = mset (closed c) + mset (handed c)"
    using inv by (simp add: cn_inv_def balanced_def live_sockets_def)
  have del: "TcpClient_delete k = Inr ([], c)" using assms(2) c by (simp add: TcpClient_delete_def)
  show ?thesis
  proof (cases "timers_pending (client_connector k) = 0")
    case True
    then have "TcpClient_destruct k = Inr ([], c, False)"
      using del release_idle [OF inv] f by (simp add: TcpClient_destruct_def)
    with True idle bal show ?thesis by auto
  next
    case False
    then have d: "TcpClient_destruct k = Inr ([], c, True)"
      using del f(1) idle by (simp add: TcpClient_destruct_def release_connector_def connector_refs_def)
    have "\<exists>eff c1. orphan_timer s 115 c = Inr (eff, c1, True) \<and> cn_state c1 = C_Connecting \<and> cn_socket c1 = Some s \<and>
        (err = 0 \<or> timers_pending c = 1 \<longrightarrow> orphan_writable err c1 = Inl UseAfterFree)"
      using False f(1-3) idle assms(3,4)
      by (simp add: orphan_timer_def retry_timer_fires_def startInLoop_def cn_connect_socket_def in_progress_def connecting_def
          release_connector_def connector_refs_def orphan_writable_def resetChannel_def cn_then_def Let_def)
    with d False f(1) show ?thesis by auto
  qed
qed

text \<open>A client whose first attempt was refused; its retry is pending.\<close>

definition waiting_client :: tcp_client where
  "waiting_client = (TcpClient_new 1 0 ''cl'')\<lparr>connect_flag := True, client_connector := refused\<rparr>"

lemma waiting_client_reached: "client_connect 5 111 (TcpClient_new 1 0 ''cl'') = Inr ([RunAfter 1000], waiting_client)"
  using refused_start by (simp add: client_connect_def with_connector_def TcpClient_new_def waiting_client_def Let_def)

theorem client_destroyed_before_connection_witness:
  "\<exists>k c eff c1. client_connect 5 111 (TcpClient_new 1 0 ''cl'') = Inr ([RunAfter 1000], k) \<and>
     TcpClient_destruct k = Inr ([], c, True) \<and> orphan_timer 6 115 c = Inr (eff, c1, True) \<and>
     orphan_writable 0 c1 = Inl UseAfterFree"
proof -
  have k: "client_connector waiting_client = refused" "connection waiting_client = None"
    by (simp_all add: waiting_client_def TcpClient_new_def)
  moreover have "timers_pending refused = 1" "cn_callback refused" by (simp_all add: refused_def setNewConnectionCallback_def)
  ultimately show ?thesis
    using client_destroyed_before_connection [of waiting_client 6 0] cn_reach_inv [OF refused_reachable]
      waiting_client_reached by auto
qed

section \<open>Courses of a client\<close>

text \<open>
  What can happen to a client in the thread of its loop: the user configures it, connects, stops
  its connector, disconnects, and uses the connection; the connector's socket becomes writable, a
  retry timer fires, the connection becomes readable, a queued destruction runs. The user calls
  \<open>connect\<close> and \<open>stop\<close> only while no connection stands; \<open>disconnect\<close> is for connections.
\<close>

datatype client_op =
    SetRetry bool
  | SetCallbacks "nat option" "nat option" "nat option" "nat option" size_t
  | Connect fd errno
  | StopConnecting
  | Disconnect
  | UseConnection conn_op
  | Consume buffer
  | ConnectorWritable errno
  | RetryFires fd errno
  | ConnectionReadable fd errno read_result
  | DestroyNext

definition use_connection :: "(tcp_connection \<Rightarrow> tcp_connection res) \<Rightarrow> tcp_client \<Rightarrow> tcp_client res" where
  "use_connection f k =
     (case connection k of
        None \<Rightarrow> Inl NullDereference
      | Some (cid, c) \<Rightarrow> bind_res (f c) (\<lambda>c1. Inr (k\<lparr>connection := Some (cid, c1)\<rparr>)))"

definition drop_effects :: "('e \<times> 'a) res \<Rightarrow> 'a res" where
  "drop_effects m = bind_res m (\<lambda>(_, x). Inr x)"

fun client_step :: "client_op \<Rightarrow> tcp_client \<Rightarrow> tcp_client res" where
  "client_step (SetRetry on) k = Inr (setRetry on k)"
| "client_step (SetCallbacks conn msg wc hw n) k =
     Inr (client_setConnectionCallback conn (client_setMessageCallback msg
       (client_setWriteCompleteCallback wc (client_setHighWaterMarkCallback hw n k))))"
| "client_step (Connect s err) k = drop_effects (client_connect s err k)"
| "client_step StopConnecting k = drop_effects (client_stop k)"
| "client_step Disconnect k = drop_effects (client_disconnect k)"
| "client_step (UseConnection op) k = use_connection (\<lambda>c. drop_effects (conn_step op c)) k"
| "client_step (Consume b) k = use_connection (\<lambda>c. Inr (c\<lparr>receive_buffer := b\<rparr>)) k"
| "client_step (ConnectorWritable err) k = drop_effects (connector_writable err k)"
| "client_step (RetryFires s err) k = drop_effects (with_connector (retry_timer_fires s err (client_connector k)) k)"
| "client_step (ConnectionReadable s err r) k = drop_effects (client_readable s err r k)"
| "client_step DestroyNext k = drop_effects (destroy_next k)"

fun client_enabled :: "client_op \<Rightarrow> tcp_client \<Rightarrow> bool" where
  "client_enabled (Connect s err) k \<longleftrightarrow> connection k = None"
| "client_enabled StopConnecting k \<longleftrightarrow> connection k = None"
| "client_enabled (UseConnection op) k \<longleftrightarrow> user_op op"
| "client_enabled (Consume b) k \<longleftrightarrow> buf_inv b"
| "client_enabled (ConnectorWritable err) k \<longleftrightarrow> cn_channel (client_connector k) \<noteq> None"
| "client_enabled (RetryFires s err) k \<longleftrightarrow> 0 < timers_pending (client_connector k)"
| "client_enabled (ConnectionReadable s err r) k \<longleftrightarrow>
     s \<noteq> -1 \<and> (case connection k of None \<Rightarrow> False | Some (_, c) \<Rightarrow> read_ok r (receive_buffer c))"
| "client_enabled _ k \<longleftrightarrow> True"

inductive client_reach :: "tcp_client \<Rightarrow> bool" where
  init: "client_reach (TcpClient_new tid loop nm)"
| step: "client_reach k \<Longrightarrow> client_enabled op k \<Longrightarrow> client_step op k = Inr k' \<Longrightarrow> client_reach k'"

definition client_inv :: "tcp_client \<Rightarrow> bool" where
  "client_inv k \<longleftrightarrow> cn_inv (client_connector k) \<and> cn_callback (client_connector k) \<and>
     (connection k \<noteq> None \<longrightarrow> client_up k) \<and>
     (\<forall>c \<in> set (dying k). loop_thread c = client_thread k \<and> state_of c = Disconnected)"

lemma drop_effects_Inr: "drop_effects m = Inr x \<longleftrightarrow> (\<exists>e. m = Inr (e, x))"
  by (auto simp: drop_effects_def bind_res_eq_Inr)

lemma with_connector_Inr:
  "with_connector r k = Inr (e, k') \<longleftrightarrow> (\<exists>c. r = Inr (e, c) \<and> k' = k\<lparr>client_connector := c\<rparr>)"
  by (auto simp: with_connector_def bind_res_eq_Inr)

text \<open>What a step of the connector keeps, and what the client's invariant needs of its new state.\<close>

lemma cn_call_callback: "cn_do_call x c = Inr (eff, c') \<Longrightarrow> cn_callback c' = cn_callback c"
  by (cases x) (auto simp: Connector_start_def Connector_restart_def Connector_stop_def stopInLoop_def startInLoop_def
      cn_connect_socket_def connecting_def retry_def cn_then_def resetChannel_def Let_def bind_res_eq_Inr
      split: if_splits option.splits)

lemma cn_calls_callback: "cn_calls calls c = Inr (eff, c') \<Longrightarrow> cn_callback c' = cn_callback c"
proof (induction calls arbitrary: c eff)
  case (Cons x xs)
  then show ?case using cn_call_callback by (fastforce simp: cn_then_def bind_res_eq_Inr)
qed simp

lemma cn_step_callback: "cn_step op c = Inr (eff, c') \<Longrightarrow> cn_callback c' = cn_callback c"
  by (cases op) (auto simp: Connector_start_def Connector_restart_def Connector_stop_def stopInLoop_def startInLoop_def
      cn_connect_socket_def connecting_def retry_def retry_timer_fires_def Connector_handleWritable_def cn_then_def
      resetChannel_def Let_def bind_res_eq_Inr split: if_splits option.splits dest!: cn_calls_callback)

lemma client_inv_connector:
  assumes "client_inv k" and "cn_enabled op (client_connector k) \<and> cn_calm op (client_connector k)"
    and "cn_step op (client_connector k) = Inr (eff, c)"
    and "connection k' = None" and "dying k' = dying k" and "client_thread k' = client_thread k"
    and "client_connector k' = c"
  shows "client_inv k'"
  using assms cn_step_inv [of "client_connector k" op eff c] cn_step_callback [OF assms(3)] by (simp add: client_inv_def)

lemma client_inv_standing:
  assumes "client_inv k" and "connection k = Some (cid, c)"
  shows "cn_inv (client_connector k)" "cn_state (client_connector k) = C_Connected" "cn_channel (client_connector k) = None"
    "loop_thread c = client_thread k" "close_callback c = Some CLIENT_CLOSE" "buf_inv (receive_buffer c)"
    "state_of c = Connected \<or> state_of c = Disconnecting"
proof -
  show c: "cn_inv (client_connector k)" "cn_state (client_connector k) = C_Connected"
    "loop_thread c = client_thread k" "close_callback c = Some CLIENT_CLOSE" "buf_inv (receive_buffer c)"
    "state_of c = Connected \<or> state_of c = Disconnecting"
    using assms by (auto simp: client_inv_def client_up_def)
  show "cn_channel (client_connector k) = None" using idle_connector [OF c(1)] c(2) by simp
qed

lemma client_no_connection: "client_inv k \<Longrightarrow> cn_state (client_connector k) \<noteq> C_Connected \<Longrightarrow> connection k = None"
  using client_inv_standing(2) [of k] by (cases "connection k") auto

text \<open>A change of the standing connection that keeps what the client relies on.\<close>

lemma client_inv_connection:
  assumes "client_inv k" and "connection k = Some (cid, c)" and "loop_thread c' = loop_thread c"
    and "close_callback c' = close_callback c" and "buf_inv (receive_buffer c')"
    and "state_of c' = state_of c \<or> state_of c = Connected \<and> state_of c' = Disconnecting"
  shows "client_inv (k\<lparr>connection := Some (cid, c')\<rparr>)"
  using client_inv_standing [OF assms(1,2)] assms by (auto simp: client_inv_def client_up_def)

lemma client_inv_user:
  assumes "client_inv k" and "connection k = Some (cid, c)" and "user_op op" and "conn_step op c = Inr (eff, c')"
  shows "client_inv (k\<lparr>connection := Some (cid, c')\<rparr>)"
  using user_op_frame [OF assms(3,4)] client_inv_standing(6) [OF assms(1,2)]
  by (intro client_inv_connection [OF assms(1,2)]) (auto simp: owner_frame_def)

lemma onConnection_ok:
  assumes "cn_inv (client_connector k)" and "cn_state (client_connector k) = C_Connected"
  shows "\<exists>eff k'. onConnection s k = Inr (eff, k') \<and> client_up k' \<and> dying k' = dying k \<and>
    client_thread k' = client_thread k \<and> client_connector k' = client_connector k \<and> RemoveChannel \<notin> set eff \<and>
    (\<exists>c. connection k' = Some (unat (client_next_id k), c) \<and> state_of c = Connected)"
proof -
  obtain c where "TcpConnection_new (client_thread k) (client_loop k) (unat (client_next_id k))
      (client_name k @ ''#'' @ dec_int (sint (client_next_id k))) s = Inr c" "loop_thread c = client_thread k"
    "state_of c = Connecting" "buf_inv (receive_buffer c)"
    using client_conn_new by blast
  then show ?thesis using assms
    by (simp add: onConnection_def connectionEstablished_def in_loop_def client_up_def set_opt_effect Let_def)
qed

lemma client_writable:
  assumes "client_inv k" and "cn_channel (client_connector k) \<noteq> None"
  shows "\<exists>eff k'. connector_writable err k = Inr (eff, k') \<and> client_inv k'"
proof -
  let ?c = "client_connector k"
  have inv: "cn_inv ?c" and cb: "cn_callback ?c" using assms(1) by (simp_all add: client_inv_def)
  have st: "cn_state ?c = C_Connecting" using inv assms(2) by (auto simp: cn_inv_def consistent_def)
  then have none: "connection k = None" using client_no_connection [OF assms(1)] by simp
  obtain s where s: "cn_socket ?c = Some s" using inv st by (auto simp: cn_inv_def consistent_def)
  have news: "\<exists>eff c. Connector_handleWritable [] err ?c = Inr (eff, c) \<and>
      (filter (\<lambda>e. case e of NewConnection _ \<Rightarrow> True | _ \<Rightarrow> False) eff = (if err = 0 then [NewConnection s] else [])) \<and>
      (err = 0 \<longrightarrow> cn_state c = C_Connected)"
    using s cb by (auto simp: Connector_handleWritable_def cn_then_def resetChannel_def retry_def Let_def split: option.splits)
  then obtain eff c where w: "Connector_handleWritable [] err ?c = Inr (eff, c)"
    "filter (\<lambda>e. case e of NewConnection _ \<Rightarrow> True | _ \<Rightarrow> False) eff = (if err = 0 then [NewConnection s] else [])"
    "err = 0 \<longrightarrow> cn_state c = C_Connected" by blast
  let ?k = "k\<lparr>client_connector := c\<rparr>"
  have ik: "client_inv ?k"
    by (rule client_inv_connector [OF assms(1), of "SocketWritable [] err" eff c]) (use w(1) none assms(2) in simp_all)
  show ?thesis
  proof (cases "err = 0")
    case True
    then have "connector_writable err k = onConnection s ?k" using w by (simp add: connector_writable_def with_connector_def)
    moreover obtain eff' k' where "onConnection s ?k = Inr (eff', k')" "client_up k'" "dying k' = dying ?k"
      "client_thread k' = client_thread ?k" "client_connector k' = client_connector ?k"
      using onConnection_ok [of ?k s] ik w(3) True by (auto simp: client_inv_def)
    ultimately show ?thesis using ik by (auto simp: client_inv_def)
  next
    case False
    then have "connector_writable err k = Inr ([], ?k)" using w by (simp add: connector_writable_def with_connector_def)
    then show ?thesis using ik by blast
  qed
qed

lemma startInLoop_total:
  assumes "cn_state c = C_Disconnected" and "s \<noteq> -1"
  shows "\<exists>eff c'. startInLoop s err c = Inr (eff, c')"
proof -
  have "\<exists>eff c'. retry c0 = Inr (eff, c')" for c0 by (cases "cn_connect c0") (simp_all add: retry_def Let_def)
  moreover have "\<exists>eff c'. connecting (c0\<lparr>cn_socket := Some s, opened := os\<rparr>) = Inr (eff, c')" for c0 :: connector and os
    by (simp add: connecting_def Let_def)
  ultimately show ?thesis using assms by (simp add: startInLoop_def cn_connect_socket_def Let_def)
qed

lemma client_eof_inv:
  assumes "client_inv k" and "connection k = Some (cid, c)" and "s \<noteq> -1"
    and "loop_thread c' = loop_thread c" and "state_of c' = Disconnected"
  shows "\<exists>eff k'. client_on_close s err c' k = Inr (eff, k') \<and> client_inv k'"
proof -
  let ?k = "k\<lparr>connection := None, dying := dying k @ [c']\<rparr>"
  note up = client_inv_standing [OF assms(1,2)]
  have ik: "client_inv ?k" using assms(1,4,5) up(4) by (simp add: client_inv_def)
  show ?thesis
  proof (cases "retry_flag k \<and> connect_flag k")
    case True
    obtain eff c1 where r: "Connector_restart s err (client_connector k) = Inr (eff, c1)"
      using startInLoop_total assms(3) unfolding Connector_restart_def by fastforce
    have "client_inv (?k\<lparr>client_connector := c1\<rparr>)"
      by (rule client_inv_connector [OF ik, of "Restart s err" eff c1]) (use r up(3) in simp_all)
    then show ?thesis using True r by (auto simp: client_on_close_def with_connector_def Let_def)
  next
    case False
    then show ?thesis using ik by (auto simp: client_on_close_def Let_def)
  qed
qed

lemma client_readable_inv:
  assumes "client_inv k" and "connection k = Some (cid, c)" and "read_ok r (receive_buffer c)" and "s \<noteq> -1"
  shows "\<exists>eff k'. client_readable s err r k = Inr (eff, k') \<and> client_inv k'"
proof (cases r)
  case (ReadError e)
  note up = client_inv_standing [OF assms(1,2)]
  have "handleReadable (client_thread k) r c = Inr ([], c)"
    using ReadError up(4) by (simp add: handleReadable_def readFd_def handleError_def in_loop_def)
  then show ?thesis using assms(1,2) client_inv_connection [OF assms(1,2), of c] up(6)
    by (auto simp: client_readable_def)
next
  case (ReadBytes bs)
  note up = client_inv_standing [OF assms(1,2)]
  obtain b where b: "readFd (ReadBytes bs) (receive_buffer c) = Inr (int (length bs), None, b)" "buf_inv b"
    using readFd_ok [OF up(6), of bs] assms(3) ReadBytes by (auto simp: read_ok_def)
  show ?thesis
  proof (cases "bs = []")
    case True
    let ?c = "c\<lparr>receive_buffer := b, state_of := Disconnected, chan := ignoreAll (chan c)\<rparr>"
    have "client_readable s err r k = client_on_close s err ?c k"
      using b ReadBytes True up assms(2) by (auto simp: client_readable_def handleReadable_def handleClose_def in_loop_def Let_def)
    then show ?thesis using client_eof_inv [OF assms(1,2,4), of ?c] by simp
  next
    case False
    then have "client_readable s err r k = Inr ([], k\<lparr>connection := Some (cid, c\<lparr>receive_buffer := b\<rparr>)\<rparr>)"
      using b ReadBytes up assms(2) by (simp add: client_readable_def handleReadable_def in_loop_def set_opt_effect Let_def)
    then show ?thesis using client_inv_connection [OF assms(1,2), of "c\<lparr>receive_buffer := b\<rparr>"] b(2) by simp
  qed
qed

lemma destroy_next_inv: "client_inv k \<Longrightarrow> \<exists>eff k'. destroy_next k = Inr (eff, k') \<and> client_inv k'"
  by (cases "dying k") (auto simp: destroy_next_def client_inv_def client_up_def connectionDestroyed_def in_loop_def Let_def)

lemma client_disconnect_inv:
  assumes "client_inv k"
  shows "\<exists>eff k'. client_disconnect k = Inr (eff, k') \<and> client_inv k'"
proof -
  have flag: "client_inv (k\<lparr>connect_flag := False\<rparr>)"
    using assms by (auto simp: client_inv_def client_up_def split: option.splits)
  show ?thesis
  proof (cases "connection k")
    case None
    then show ?thesis using flag by (simp add: client_disconnect_def)
  next
    case (Some x)
    then obtain cid c where c: "connection (k\<lparr>connect_flag := False\<rparr>) = Some (cid, c)" by (cases x) simp
    obtain eff c' where "conn_step Shutdown c = Inr (eff, c')"
      by (cases "state_of c") (simp_all add: shutdown_def shutdownInLoop_def in_loop_def Let_def)
    with client_inv_user [OF flag c _ this] client_inv_standing(4) [OF flag c] c show ?thesis
      by (auto simp: client_disconnect_def)
  qed
qed

lemma client_stop_inv:
  assumes "client_inv k" and "connection k = None"
  shows "\<exists>eff k'. client_stop k = Inr (eff, k') \<and> client_inv k'"
proof -
  obtain eff c where s: "Connector_stop (client_connector k) = Inr (eff, c)" using stop_total by blast
  have "client_inv (k\<lparr>connect_flag := False, client_connector := c\<rparr>)"
    by (rule client_inv_connector [OF assms(1), of Stop eff c]) (use s assms(2) in simp_all)
  then show ?thesis using s by (auto simp: client_stop_def with_connector_def)
qed

lemma client_step_inv:
  assumes inv: "client_inv k" and en: "client_enabled op k" and run: "client_step op k = Inr k'"
  shows "client_inv k'"
proof (cases op)
  case (Connect s err)
  then obtain eff c where "Connector_start s err (client_connector k) = Inr (eff, c)"
    "k' = k\<lparr>connect_flag := True, client_connector := c\<rparr>"
    using run by (auto simp: drop_effects_Inr client_connect_def with_connector_Inr)
  then show ?thesis using en Connect by (intro client_inv_connector [OF inv, of "Start s err" eff c]) simp_all
next
  case (RetryFires s err)
  then obtain eff c where r: "retry_timer_fires s err (client_connector k) = Inr (eff, c)" "k' = k\<lparr>client_connector := c\<rparr>"
    using run by (auto simp: drop_effects_Inr with_connector_Inr)
  then have "cn_state (client_connector k) = C_Disconnected" by (auto simp: retry_timer_fires_def startInLoop_def split: if_splits)
  then have "connection k = None" using client_no_connection [OF inv] by simp
  then show ?thesis using r en RetryFires by (intro client_inv_connector [OF inv, of "RetryTimer s err" eff c]) simp_all
next
  case (ConnectionReadable s err r)
  then obtain cid c where c: "connection k = Some (cid, c)" "read_ok r (receive_buffer c)" "s \<noteq> -1"
    using en by (auto split: option.splits)
  from client_readable_inv [OF inv this, of err] run ConnectionReadable show ?thesis by (auto simp: drop_effects_Inr)
next
  case (UseConnection op)
  then show ?thesis using run en client_inv_user [OF inv] by (auto simp: use_connection_def drop_effects_Inr bind_res_eq_Inr split: option.splits)
next
  case (Consume b)
  then show ?thesis using run en client_inv_connection [OF inv]
    by (auto simp: use_connection_def split: option.splits)
next
  case (SetCallbacks conn msg wc hw n)
  then show ?thesis using run inv by (auto simp: client_inv_def client_up_def client_setConnectionCallback_def client_setMessageCallback_def
        client_setWriteCompleteCallback_def client_setHighWaterMarkCallback_def split: option.splits)
next
  case (SetRetry on)
  then show ?thesis using run inv by (auto simp: setRetry_def client_inv_def client_up_def split: option.splits)
next
  case StopConnecting
  then show ?thesis using client_stop_inv [OF inv] en run by (auto simp: drop_effects_Inr)
next
  case Disconnect
  then show ?thesis using client_disconnect_inv [OF inv] run by (auto simp: drop_effects_Inr)
next
  case (ConnectorWritable err)
  then show ?thesis using client_writable [OF inv, of err] en run by (auto simp: drop_effects_Inr)
next
  case DestroyNext
  then show ?thesis using destroy_next_inv [OF inv] run by (auto simp: drop_effects_Inr)
qed

lemma client_reach_inv: "client_reach k \<Longrightarrow> client_inv k"
proof (induction rule: client_reach.induct)
  case (init tid loop nm)
  have "cn_inv (setNewConnectionCallback (Connector_new loop))" by (rule cn_inv_new)
  then show ?case by (simp add: client_inv_def TcpClient_new_def setNewConnectionCallback_def)
next
  case (step k op k')
  then show ?case using client_step_inv by blast
qed

text \<open>
  Property C29. A client that is used as intended (\<open>connect\<close> and \<open>stop\<close> only while no connection
  stands) handles every event, in any order of events. While its connection stands, its connector
  is idle, so no second connection can replace it. A writable event of the connector and a
  readable event of the connection, the end of the stream included, are handled without abort or
  fault (given that the kernel grants a socket for a retry), and so are the queued destructions, of
  disconnected connections only.
\<close>
theorem client_handles_every_event:
  assumes "client_reach k"
  shows "(connection k \<noteq> None \<longrightarrow> cn_state (client_connector k) = C_Connected \<and> cn_channel (client_connector k) = None) \<and>
    (cn_channel (client_connector k) \<noteq> None \<longrightarrow> is_ok (connector_writable err k)) \<and>
    (connection k = Some (cid, c) \<longrightarrow> read_ok r (receive_buffer c) \<longrightarrow> s \<noteq> -1 \<longrightarrow> is_ok (client_readable s err r k)) \<and>
    (\<forall>d \<in> set (dying k). state_of d = Disconnected) \<and> is_ok (destroy_next k) \<and> is_ok (client_disconnect k)"
proof -
  have inv: "client_inv k" by (rule client_reach_inv [OF assms])
  have "cn_state (client_connector k) = C_Connected \<and> cn_channel (client_connector k) = None" if "connection k \<noteq> None"
    using that client_inv_standing(2,3) [OF inv] by (cases "connection k") auto
  moreover have "\<forall>d \<in> set (dying k). state_of d = Disconnected" using inv by (simp add: client_inv_def)
  moreover have "is_ok (connector_writable err k)" if "cn_channel (client_connector k) \<noteq> None"
    using client_writable [OF inv that, of err] by (auto simp: is_ok_iff)
  moreover have "is_ok (client_readable s err r k)" if "connection k = Some (cid, c)" "read_ok r (receive_buffer c)" "s \<noteq> -1"
    using client_readable_inv [OF inv that, of err] by (auto simp: is_ok_iff)
  ultimately show ?thesis
    using destroy_next_inv [OF inv] client_disconnect_inv [OF inv] by (auto simp: is_ok_iff)
qed

text \<open>A client whose connection has just been established.\<close>

lemma connected_client: "\<exists>k cid c. client_reach k \<and> connection k = Some (cid, c) \<and> state_of c = Connected"
proof -
  have "client_reach connecting_client"
    by (rule client_reach.step [OF client_reach.init [of 1 0 "''cl''"], of "Connect 5 115"])
      (simp_all add: connecting_client_ok(1) drop_effects_def, simp add: TcpClient_new_def)
  moreover have "cn_channel (client_connector connecting_client) \<noteq> None"
    using connecting_client_ok(2,3) by (auto simp: cn_inv_def consistent_def)
  moreover obtain eff k cid c where "connector_writable 0 connecting_client = Inr (eff, k)" "connection k = Some (cid, c)"
    "state_of c = Connected" using client_establishes_connection [OF connecting_client_ok(2-4)] by blast
  ultimately have "client_reach k"
    by (intro client_reach.step [of connecting_client "ConnectorWritable 0" k]) (simp_all add: drop_effects_def)
  with \<open>connection k = Some (cid, c)\<close> \<open>state_of c = Connected\<close> show ?thesis by blast
qed

theorem client_handles_every_event_witness:
  "\<exists>k cid c. client_reach k \<and> connection k = Some (cid, c) \<and> is_ok (client_readable 6 115 (ReadError 104) k)"
proof -
  obtain k cid c where k: "client_reach k" "connection k = Some (cid, c)" using connected_client by blast
  with client_handles_every_event [OF k(1), of 115 cid c "ReadError 104" 6] show ?thesis by (auto simp: read_ok_def)
qed

text \<open>What \<open>stop()\<close> and then \<open>connect()\<close> leave of a client with a standing connection.\<close>

lemma stop_then_connect:
  assumes "client_inv k" and "connection k = Some (cid, c)" and "s \<noteq> -1"
  obtains k1 c2 ch where "client_stop k = Inr ([], k1)" "connection k1 = Some (cid, c)"
    "client_connect s 115 k1 = Inr ([CnUpdateChannel (events ch)], k\<lparr>connect_flag := True, client_connector := c2\<rparr>)"
    "cn_inv c2" "cn_callback c2" "cn_channel c2 = Some ch" "cn_socket c2 = Some s"
proof -
  let ?c = "client_connector k"
  note up = client_inv_standing [OF assms(1,2)]
  have idle: "cn_channel ?c = None" "cn_socket ?c = None" "cn_callback ?c"
    using idle_connector [OF up(1)] up(2) assms(1) by (simp_all add: client_inv_def)
  define c1 where "c1 = ?c\<lparr>cn_connect := False, cn_state := C_Disconnected\<rparr>"
  define k1 where "k1 = k\<lparr>connect_flag := False, client_connector := c1\<rparr>"
  have stop: "client_stop k = Inr ([], k1)"
    using up(2) by (simp add: client_stop_def with_connector_def Connector_stop_def stopInLoop_def k1_def c1_def)
  define ch where "ch = listenTillWritable (setWriteCallback (Some ConnectorWrite) (Channel_new (cn_loop ?c) s))"
  define c2 where "c2 = ?c\<lparr>cn_connect := True, cn_state := C_Connecting, cn_socket := Some s, opened := opened ?c @ [s],
      cn_channel := Some ch\<rparr>"
  have start: "Connector_start s 115 c1 = Inr ([CnUpdateChannel (events ch)], c2)"
    using assms(3) idle by (simp add: Connector_start_def startInLoop_def cn_connect_socket_def in_progress_def connecting_def
        reset_socket_None c1_def c2_def ch_def Let_def)
  have "cn_inv c1" using stop_inv [OF up(1), of "[]" c1] up(2) by (simp add: Connector_stop_def stopInLoop_def c1_def)
  then have "cn_inv c2" using cn_step_inv [of c1 "Start s 115" _ c2] start by simp
  with start stop assms(2) idle show thesis
    by (intro that [of k1 ch c2]) (simp_all add: client_connect_def with_connector_def k1_def c2_def)
qed

text \<open>
  Without that discipline a standing connection is lost. \<open>stop()\<close> on a connected client takes the
  connector back to its initial state, so a following \<open>connect()\<close> establishes a second connection,
  and \<open>onConnection\<close> overwrites the only pointer to the first one. The first connection is then
  destroyed while connected and registered with the poller: nothing was queued for it, and none of
  the calls removed its channel from the loop.
\<close>
theorem stop_then_connect_drops_connection:
  assumes "client_inv k" and "connection k = Some (cid, c)" and "s \<noteq> -1"
  shows "\<exists>e1 k1 e2 k2 e3 k3 c'. client_stop k = Inr (e1, k1) \<and> connection k1 = Some (cid, c) \<and>
    client_connect s 115 k1 = Inr (e2, k2) \<and> connector_writable 0 k2 = Inr (e3, k3) \<and>
    connection k3 = Some (unat (client_next_id k), c') \<and> state_of c' = Connected \<and>
    dying k3 = dying k \<and> RemoveChannel \<notin> set e3 \<and> CnRemoveChannel \<notin> set e1 \<union> set e2"
proof -
  obtain k1 c2 ch where sc: "client_stop k = Inr ([], k1)" "connection k1 = Some (cid, c)"
    "client_connect s 115 k1 = Inr ([CnUpdateChannel (events ch)], k\<lparr>connect_flag := True, client_connector := c2\<rparr>)"
    and c2: "cn_inv c2" "cn_callback c2" "cn_channel c2 = Some ch" "cn_socket c2 = Some s"
    by (rule stop_then_connect [OF assms]) (rule that)
  let ?k2 = "k\<lparr>connect_flag := True, client_connector := c2\<rparr>"
  obtain c3 where wr: "Connector_handleWritable [] 0 c2 =
      Inr ([CnUpdateChannel (events (ignoreAll ch)), CnRemoveChannel, NewConnection s], c3)" "cn_state c3 = C_Connected" "cn_callback c3"
    using c2(2-4) by (simp add: Connector_handleWritable_def resetChannel_def cn_then_def reset_socket_def)
  then have new: "connector_writable 0 ?k2 = onConnection s (?k2\<lparr>client_connector := c3\<rparr>)"
    by (simp add: connector_writable_def with_connector_def)
  have "cn_inv c3" by (rule handleWritable_inv [OF c2(1) _ wr(1)]) simp
  with onConnection_ok [of "?k2\<lparr>client_connector := c3\<rparr>" s] wr(2,3) obtain e3 k3 c' where
    "connector_writable 0 ?k2 = Inr (e3, k3)" "dying k3 = dying k" "RemoveChannel \<notin> set e3"
    "connection k3 = Some (unat (client_next_id k), c')" "state_of c' = Connected"
    unfolding new by auto
  with sc show ?thesis by auto
qed

theorem stop_then_connect_drops_connection_witness:
  "\<exists>k cid c e1 k1 e2 k2 e3 k3 c'. client_reach k \<and> connection k = Some (cid, c) \<and> state_of c = Connected \<and>
     client_stop k = Inr (e1, k1) \<and> client_connect 9 115 k1 = Inr (e2, k2) \<and>
     connector_writable 0 k2 = Inr (e3, k3) \<and> connection k3 = Some (unat (client_next_id k), c') \<and> dying k3 = dying k"
proof -
  obtain k cid c where k: "client_reach k" "connection k = Some (cid, c)" "state_of c = Connected" using connected_client by blast
  from stop_then_connect_drops_connection [OF client_reach_inv [OF k(1)] k(2), of 9] k show ?thesis by auto
qed

text \<open>
  The same calls lead into a restart on a connector that is connecting. When the peer closes the
  standing connection while the new attempt is under way and the client is to retry, its close
  callback restarts the connector. When the restarted attempt is refused at once, the connector is
  left disconnected with the channel of the attempt before and no socket; the next writable event
  of that channel, which is still registered, dereferences a null pointer.
\<close>
theorem client_restarts_while_connecting:
  assumes "client_inv k" and "connection k = Some (cid, c)" and "retry_flag k" and "s \<noteq> -1" and "s2 \<noteq> -1"
  shows "\<exists>e1 k1 e2 k2 e3 k3. client_stop k = Inr (e1, k1) \<and> client_connect s 115 k1 = Inr (e2, k2) \<and>
    client_readable s2 111 (ReadBytes []) k2 = Inr (e3, k3) \<and> CnRemoveChannel \<notin> set e3 \<and>
    cn_state (client_connector k3) = C_Disconnected \<and> cn_channel (client_connector k3) = cn_channel (client_connector k2) \<and>
    cn_channel (client_connector k2) \<noteq> None \<and> cn_socket (client_connector k3) = None \<and>
    connector_writable err k3 = Inl NullDereference"
proof -
  obtain k1 c2 ch where sc: "client_stop k = Inr ([], k1)" "connection k1 = Some (cid, c)"
    "client_connect s 115 k1 = Inr ([CnUpdateChannel (events ch)], k\<lparr>connect_flag := True, client_connector := c2\<rparr>)"
    and c2: "cn_inv c2" "cn_callback c2" "cn_channel c2 = Some ch" "cn_socket c2 = Some s"
    by (rule stop_then_connect [OF assms(1,2,4)]) (rule that)
  have "client_up k" using assms(1,2) by (simp add: client_inv_def)
  from client_eof [OF this assms(2)] obtain eff c' where
    "handleReadable (client_thread k) (ReadBytes []) c = Inr (eff, c')" "CallClose CLIENT_CLOSE \<in> set eff" by blast
  with assms(2,3,5) c2 sc show ?thesis
    by (auto simp: client_readable_def client_on_close_def with_connector_def Connector_restart_def startInLoop_def
        cn_connect_socket_def in_progress_def transient_def retry_def reset_socket_def connector_writable_def
        Connector_handleWritable_def Let_def)
qed

theorem client_restarts_while_connecting_witness:
  "\<exists>k cid c e1 k1 e2 k2 e3 k3. client_reach k \<and> connection k = Some (cid, c) \<and>
     client_stop k = Inr (e1, k1) \<and> client_connect 9 115 k1 = Inr (e2, k2) \<and>
     client_readable 10 111 (ReadBytes []) k2 = Inr (e3, k3) \<and> connector_writable 0 k3 = Inl NullDereference"
proof -
  obtain k cid c where k: "client_reach k" "connection k = Some (cid, c)" "state_of c = Connected" using connected_client by blast
  let ?k = "setRetry True k"
  have "client_reach ?k"
    by (rule client_reach.step [OF k(1), of "SetRetry True"]) simp_all
  moreover from this have "client_inv ?k" by (rule client_reach_inv)
  moreover have "connection ?k = Some (cid, c)" "retry_flag ?k" using k(2) by (simp_all add: setRetry_def)
  ultimately show ?thesis using client_restarts_while_connecting [of ?k cid c 9 10 0] by auto
qed

end
