(* ===== verification/CrossThreadTimers.thy ===== *)
theory CrossThreadTimers
  imports EventLoop
begin

text \<open>
  The timers of a loop under calls from other threads (\<open>TimerQueue::addTimer\<close> and \<open>cancelTimer\<close> in
  \<open>net/TimerQueue.cpp\<close> with \<open>EventLoop::runInLoop\<close>). In the loop's own thread their lambdas run at once.
  From another thread they wait in the queue of tasks; the timer itself, with its number, is made
  by the caller before. The task with number \<open>n\<close> is the \<open>n\<close>-th element of \<open>tm_jobs\<close>.
\<close>

section \<open>The system\<close>

datatype timer_job = AddJob timer | CancelJob seqno | OtherJob

record timer_world =
  tm_loop :: event_loop
  tm_queue :: timer_queue
  tm_jobs :: "timer_job list"
  creating :: "tid \<rightharpoonup> timer"
  tm_fired :: "(seqno \<times> timer_callback) list"

definition submit :: "tid \<Rightarrow> timer_job \<Rightarrow> timer_world \<Rightarrow> timer_world" where
  "submit tid j w = w\<lparr>tm_loop := push_task tid (length (tm_jobs w)) (tm_loop w), tm_jobs := tm_jobs w @ [j]\<rparr>"

text \<open>What the lambdas do when the loop runs them.\<close>

fun run_job :: "timer_job \<Rightarrow> timer_queue \<Rightarrow> timer_queue" where
  "run_job (AddJob t) q = addTimer_in_loop t q"
| "run_job (CancelJob n) q = cancelTimer n q"
| "run_job OtherJob q = q"

text \<open>The numbers that some \<open>addTimer\<close> has handed to the queue: only these can be in a \<open>TimerId\<close> of a user.\<close>

definition known :: "seqno \<Rightarrow> timer_world \<Rightarrow> bool" where
  "known n w \<longleftrightarrow> n < counter (tm_queue w) \<and> n \<notin> sequence ` ran (creating w)"

text \<open>
  The steps. Another thread makes a timer, which takes its number, and then submits the lambda that
  adds it; or it submits a cancellation of a timer it knows. The loop's thread adds and cancels in
  its own user code, runs the next task, or serves the timer descriptor, whose callbacks call what
  \<open>calls\<close> says. All other steps of the loop leave the timers alone.
\<close>

inductive timer_step :: "(timer_callback \<Rightarrow> timer_call list) \<Rightarrow> timer_world \<Rightarrow> timer_world \<Rightarrow> bool" for calls where
  create: "\<not> isInLoopThread tid (tm_loop w) \<Longrightarrow> creating w tid = None \<Longrightarrow> Timer_new cb tp ms (tm_queue w) = (t, q) \<Longrightarrow>
    timer_step calls w (w\<lparr>tm_queue := q, creating := (creating w)(tid \<mapsto> t)\<rparr>)"
| add: "may_call tid (tm_loop w) \<Longrightarrow> creating w tid = Some t \<Longrightarrow>
    timer_step calls w ((submit tid (AddJob t) w)\<lparr>creating := (creating w)(tid := None)\<rparr>)"
| cancel: "may_call tid (tm_loop w) \<Longrightarrow> \<not> isInLoopThread tid (tm_loop w) \<Longrightarrow> creating w tid = None \<Longrightarrow> known n w \<Longrightarrow>
    timer_step calls w (submit tid (CancelJob n) w)"
| other: "may_call tid (tm_loop w) \<Longrightarrow> creating w tid = None \<Longrightarrow> timer_step calls w (submit tid OtherJob w)"
| own: "user_code (tm_loop w) \<Longrightarrow> loop_free (tm_loop w) \<Longrightarrow>
    timer_step calls w (w\<lparr>tm_queue := do_call c (tm_queue w)\<rparr>)"
| run: "pc (tm_loop w) = Running \<Longrightarrow> loop_free (tm_loop w) \<Longrightarrow> tasks (tm_loop w) \<noteq> [] \<Longrightarrow>
    timer_step calls w (w\<lparr>tm_loop := take_task (tm_loop w),
      tm_queue := run_job (tm_jobs w ! hd (tasks (tm_loop w))) (tm_queue w)\<rparr>)"
| expire: "pc (tm_loop w) = Handling (TimersRead # ready) \<Longrightarrow> loop_free (tm_loop w) \<Longrightarrow>
    handleExpiredTimers calls clock ok now (tm_queue w) = (fired, q) \<Longrightarrow>
    timer_step calls w (w\<lparr>tm_queue := q, tm_fired := tm_fired w @ fired,
      tm_loop := (tm_loop w)\<lparr>pc := Handling ready\<rparr>\<rparr>)"
| loop: "loop_step (tm_loop w) s' \<Longrightarrow> executed s' = executed (tm_loop w) \<Longrightarrow> submitted s' = submitted (tm_loop w) \<Longrightarrow>
    timer_step calls w (w\<lparr>tm_loop := s'\<rparr>)"

definition timer_start :: "tid \<Rightarrow> seqno \<Rightarrow> timer_world" where
  "timer_start tid n =
     \<lparr>tm_loop = EventLoop_init tid, tm_queue = TimerQueue_new n, tm_jobs = [], creating = Map.empty, tm_fired = []\<rparr>"

section \<open>The invariant\<close>

text \<open>
  Tasks are numbered in the order of their submission. Timers that are being made have numbers of
  their own. What was cancelled was known, so no later task adds it; and once the cancellation has
  run, the timer is gone.
\<close>

definition tasks_numbered :: "timer_world \<Rightarrow> bool" where
  "tasks_numbered w \<longleftrightarrow> loop_inv (tm_loop w) \<and> submitted (tm_loop w) = [0..<length (tm_jobs w)]"

definition creating_ok :: "timer_world \<Rightarrow> bool" where
  "creating_ok w \<longleftrightarrow> (\<forall>tid t. creating w tid = Some t \<longrightarrow> sequence t < counter (tm_queue w) \<and>
     (\<forall>tid' t'. creating w tid' = Some t' \<longrightarrow> sequence t' = sequence t \<longrightarrow> tid' = tid))"

definition cancels_after_adds :: "timer_world \<Rightarrow> bool" where
  "cancels_after_adds w \<longleftrightarrow> (\<forall>i n. i < length (tm_jobs w) \<longrightarrow> tm_jobs w ! i = CancelJob n \<longrightarrow> known n w \<and>
     (\<forall>j t. i < j \<longrightarrow> j < length (tm_jobs w) \<longrightarrow> tm_jobs w ! j = AddJob t \<longrightarrow> sequence t \<noteq> n))"

definition cancelled_gone :: "timer_world \<Rightarrow> bool" where
  "cancelled_gone w \<longleftrightarrow> (\<forall>i n. i \<in> set (executed (tm_loop w)) \<longrightarrow> tm_jobs w ! i = CancelJob n \<longrightarrow> gone n (tm_queue w))"

definition timers_inv :: "timer_world \<Rightarrow> bool" where
  "timers_inv w \<longleftrightarrow> tasks_numbered w \<and> creating_ok w \<and> cancels_after_adds w \<and> cancelled_gone w"

lemma run_expired_counter: "counter q \<le> counter (snd (run_expired calls clock es q))"
proof (induction calls clock es q rule: run_expired.induct)
  case (2 calls clock tp n es q)
  show ?case
  proof (cases "timers q n")
    case None
    with 2(1) show ?thesis by simp
  next
    case (Some t)
    from 2(2) [OF Some refl] do_calls_counter [of q "calls (cb_of t)"] Some show ?thesis
      by (simp add: case_prod_beta Let_def)
  qed
qed simp

lemma round_counter: "handleExpiredTimers calls clock ok now q = (fired, q') \<Longrightarrow> counter q \<le> counter q'"
  using run_expired_counter [of "q\<lparr>heap_of := snd (getExpiredTimers now (heap_of q))\<rparr>" calls clock]
  by (auto simp: handleExpiredTimers_def case_prod_beta split: if_splits)

lemma call_counter: "counter q \<le> counter (do_call c q)"
  using do_calls_counter [of q "[c]"] by (simp add: do_calls_def)

lemma run_job_fields [simp]:
  "counter (run_job j q) = counter q"
  "timers (run_job j q) n = (case j of AddJob t \<Rightarrow> if n = sequence t then Some t else timers q n
     | CancelJob m \<Rightarrow> if n = m then None else timers q n | OtherJob \<Rightarrow> timers q n)"
  by (cases j; simp add: addTimer_in_loop_def Let_def split: list.split prod.split)+

lemma submit_fields [simp]:
  "tm_queue (submit tid j w) = tm_queue w" "creating (submit tid j w) = creating w" "tm_fired (submit tid j w) = tm_fired w"
  "tm_jobs (submit tid j w) = tm_jobs w @ [j]" "executed (tm_loop (submit tid j w)) = executed (tm_loop w)"
  by (simp_all add: submit_def push_task_def)

lemma Timer_new_fields:
  assumes "Timer_new cb tp ms q = (t, q')"
  shows "sequence t = counter q" "counter q' = counter q + 1" "timers q' = timers q"
  using assms by (auto simp: Timer_new_def)

lemma ran_update: "x \<in> ran (m(k := None)) \<Longrightarrow> x \<in> ran m"
  by (auto simp: ran_def split: if_splits)

text \<open>A number that is known stays known.\<close>

lemma known_step: "timer_step calls w w' \<Longrightarrow> known n w \<Longrightarrow> known n w'"
proof (induction rule: timer_step.induct)
  case (create tid w cb tp ms t q)
  from Timer_new_fields [OF create(3)] create(2,4) show ?case by (simp add: known_def)
next
  case (add tid w t)
  then show ?case using ran_update [of _ "creating w" tid] by (auto simp: known_def)
next
  case (own w c)
  then show ?case using call_counter [of "tm_queue w" c] by (simp add: known_def)
next
  case (expire w ready clock ok now fired q)
  then show ?case using round_counter [OF expire(3)] by (simp add: known_def)
qed (simp_all add: known_def)

lemma tasks_numbered_step: "timer_step calls w w' \<Longrightarrow> tasks_numbered w \<Longrightarrow> tasks_numbered w'"
proof (induction rule: timer_step.induct)
  case (expire w ready clock ok now fired q)
  have "loop_step (tm_loop w) ((tm_loop w)\<lparr>pc := Handling ready\<rparr>)" by (rule loop_step.handle_other [OF expire(1,2)]) simp
  from loop_step_inv [OF this] expire(4) show ?case by (simp add: tasks_numbered_def)
next
  case (run w)
  from loop_step_inv [OF loop_step.task [OF run(1-3)]] run(4) show ?case by (simp add: tasks_numbered_def take_task_def)
next
  case (loop w s')
  from loop_step_inv [OF loop(1)] loop(2-4) show ?case by (simp add: tasks_numbered_def)
qed (auto simp: tasks_numbered_def submit_def intro: loop_step_inv [OF loop_step.push], simp_all add: push_task_def)

lemma creating_ok_mono:
  assumes "creating_ok w" and "creating w' = creating w" and "counter (tm_queue w) \<le> counter (tm_queue w')"
  shows "creating_ok w'"
  unfolding creating_ok_def
proof (intro allI impI)
  fix tid t assume "creating w' tid = Some t"
  then have "creating w tid = Some t" using assms(2) by simp
  with assms(1) have "sequence t < counter (tm_queue w) \<and>
      (\<forall>tid' t'. creating w tid' = Some t' \<longrightarrow> sequence t' = sequence t \<longrightarrow> tid' = tid)"
    unfolding creating_ok_def by blast
  then show "sequence t < counter (tm_queue w') \<and>
      (\<forall>tid' t'. creating w' tid' = Some t' \<longrightarrow> sequence t' = sequence t \<longrightarrow> tid' = tid)"
    using assms(2,3) by simp
qed

lemma creating_ok_step: "timer_step calls w w' \<Longrightarrow> creating_ok w \<Longrightarrow> creating_ok w'"
proof (induction rule: timer_step.induct)
  case (create tid w cb tp ms t q)
  note f = Timer_new_fields [OF create(3)]
  show ?case unfolding creating_ok_def
  proof (intro allI impI conjI)
    fix a x assume x: "creating (w\<lparr>tm_queue := q, creating := (creating w)(tid \<mapsto> t)\<rparr>) a = Some x"
    have less: "sequence y < counter (tm_queue w)" if "creating w b = Some y" for b y
      using create(4) that by (simp add: creating_ok_def)
    show "sequence x < counter (tm_queue (w\<lparr>tm_queue := q, creating := (creating w)(tid \<mapsto> t)\<rparr>))"
      using x f less [of a x] by (auto split: if_splits)
    fix b y assume y: "creating (w\<lparr>tm_queue := q, creating := (creating w)(tid \<mapsto> t)\<rparr>) b = Some y" "sequence y = sequence x"
    show "b = a" using x y f(1) less create(4) by (fastforce simp: creating_ok_def split: if_splits)
  qed
next
  case (own w c)
  then show ?case using creating_ok_mono [OF own(3)] call_counter by simp
next
  case (expire w ready clock ok now fired q)
  then show ?case using creating_ok_mono [OF expire(4)] round_counter [OF expire(3)] by simp
next
  case (add tid w t)
  then show ?case by (auto simp: creating_ok_def split: if_splits)
qed (auto intro: creating_ok_mono)

lemma cancels_after_adds_submit:
  assumes "cancels_after_adds w" and "tm_jobs w' = tm_jobs w @ [j]" and "\<And>n. known n w \<Longrightarrow> known n w'"
    and "\<And>n. j = CancelJob n \<Longrightarrow> known n w'" and "\<And>t n. j = AddJob t \<Longrightarrow> known n w \<Longrightarrow> sequence t \<noteq> n"
  shows "cancels_after_adds w'"
  unfolding cancels_after_adds_def
proof (intro allI impI conjI)
  fix i n assume i: "i < length (tm_jobs w')" "tm_jobs w' ! i = CancelJob n"
  have old: "known n w" "\<forall>j t. i < j \<longrightarrow> j < length (tm_jobs w) \<longrightarrow> tm_jobs w ! j = AddJob t \<longrightarrow> sequence t \<noteq> n"
    if "i < length (tm_jobs w)"
    using assms(1) that i(2) by (auto simp: cancels_after_adds_def assms(2) nth_append)
  show "known n w'" using i old(1) assms(3,4) by (cases "i < length (tm_jobs w)") (auto simp: assms(2) nth_append)
  fix k t assume k: "i < k" "k < length (tm_jobs w')" "tm_jobs w' ! k = AddJob t"
  then have "i < length (tm_jobs w)" by (simp add: assms(2))
  note o = old [OF this]
  show "sequence t \<noteq> n"
  proof (cases "k < length (tm_jobs w)")
    case True
    then show ?thesis using o(2) k by (simp add: assms(2) nth_append)
  next
    case False
    then have "j = AddJob t" using k by (simp add: assms(2) nth_append split: if_splits)
    then show ?thesis using assms(5) o(1) by blast
  qed
qed

lemma cancels_after_adds_same:
  "cancels_after_adds w \<Longrightarrow> tm_jobs w' = tm_jobs w \<Longrightarrow> (\<And>n. known n w \<Longrightarrow> known n w') \<Longrightarrow> cancels_after_adds w'"
  unfolding cancels_after_adds_def by metis

lemma cancels_after_adds_step:
  assumes "timer_step calls w w'" and "cancels_after_adds w"
  shows "cancels_after_adds w'"
proof -
  note k = known_step [OF assms(1)] and same = cancels_after_adds_same [OF assms(2) _ known_step [OF assms(1)]]
  from assms(1) show ?thesis
  proof cases
    case (add tid t)
    have "t \<in> ran (creating w)" using add(3) by (auto simp: ran_def)
    then show ?thesis by (intro cancels_after_adds_submit [OF assms(2), of _ "AddJob t"]) (use add(1) k in \<open>auto simp: known_def\<close>)
  next
    case (cancel tid n)
    show ?thesis by (rule cancels_after_adds_submit [OF assms(2), of _ "CancelJob n"]) (use cancel k in auto)
  next
    case (other tid)
    show ?thesis by (rule cancels_after_adds_submit [OF assms(2), of _ OtherJob]) (use other k in auto)
  qed (use same in simp_all)
qed

lemma executed_numbers:
  assumes "tasks_numbered w"
  shows "i \<in> set (executed (tm_loop w)) \<Longrightarrow> i < length (tm_jobs w)"
    and "i \<in> set (executed (tm_loop w)) \<Longrightarrow> tasks (tm_loop w) \<noteq> [] \<Longrightarrow> i < hd (tasks (tm_loop w))"
    and "tasks (tm_loop w) \<noteq> [] \<Longrightarrow> hd (tasks (tm_loop w)) < length (tm_jobs w)"
proof -
  have o: "[0..<length (tm_jobs w)] = executed (tm_loop w) @ tasks (tm_loop w) @ task_queue (tm_loop w)"
    using assms unfolding tasks_numbered_def loop_inv_def in_order_def by metis
  then have "set [0..<length (tm_jobs w)] = set (executed (tm_loop w) @ tasks (tm_loop w) @ task_queue (tm_loop w))" by simp
  then show "i < length (tm_jobs w)" if "i \<in> set (executed (tm_loop w))" using that by auto
  show "hd (tasks (tm_loop w)) < length (tm_jobs w)" if "tasks (tm_loop w) \<noteq> []"
    using \<open>set [0..<length (tm_jobs w)] = _\<close> hd_in_set [OF that] by auto
  have "sorted_wrt (<) (executed (tm_loop w) @ tasks (tm_loop w) @ task_queue (tm_loop w))"
    unfolding o [symmetric] by simp
  then show "i < hd (tasks (tm_loop w))" if "i \<in> set (executed (tm_loop w))" "tasks (tm_loop w) \<noteq> []"
    using that by (simp add: sorted_wrt_append)
qed

lemma gone_run_job:
  "gone n q \<Longrightarrow> (\<And>t. j = AddJob t \<Longrightarrow> sequence t \<noteq> n) \<Longrightarrow> gone n (run_job j q)"
  by (auto simp: gone_def split: timer_job.split simp del: run_job.simps)

lemma gone_round: "handleExpiredTimers calls clock ok now q = (fired, q') \<Longrightarrow> gone n q \<Longrightarrow> gone n q' \<and> n \<notin> fst ` set fired"
  using gone_step [of n q calls "Expire ok now clock"] by simp

lemma gone_call: "gone n q \<Longrightarrow> gone n (do_call c q)"
  using gone_do_calls [of n q "[c]"] by (simp add: do_calls_def)

lemma cancelled_gone_step:
  assumes "timer_step calls w w'" and "timers_inv w"
  shows "cancelled_gone w'"
proof -
  have num: "tasks_numbered w" and after: "cancels_after_adds w" and dead: "cancelled_gone w"
    using assms(2) by (simp_all add: timers_inv_def)
  have sub: "cancelled_gone (submit tid j w)" for tid j
    using dead executed_numbers(1) [OF num] by (auto simp: cancelled_gone_def nth_append)
  from assms(1) show ?thesis
  proof cases
    case (create tid cb tp ms t q)
    have "gone n q" if "gone n (tm_queue w)" for n using that Timer_new_fields [OF create(4)] by (simp add: gone_def)
    then show ?thesis using dead create(1) by (simp add: cancelled_gone_def)
  next
    case (add tid t)
    then show ?thesis using sub [of tid "AddJob t"] by (simp add: cancelled_gone_def)
  next
    case (own c)
    then show ?thesis using dead gone_call by (simp add: cancelled_gone_def)
  next
    case run
    let ?k = "hd (tasks (tm_loop w))"
    have "gone n (run_job (tm_jobs w ! ?k) (tm_queue w))"
      if "i \<in> set (executed (tm_loop w))" "tm_jobs w ! i = CancelJob n" for i n
    proof (rule gone_run_job)
      show "gone n (tm_queue w)" using dead that by (auto simp: cancelled_gone_def)
      show "sequence t \<noteq> n" if "tm_jobs w ! ?k = AddJob t" for t
        using after executed_numbers [OF num] \<open>i \<in> _\<close> \<open>tm_jobs w ! i = _\<close> that run(4)
        unfolding cancels_after_adds_def by blast
    qed
    moreover have "gone n (run_job (tm_jobs w ! ?k) (tm_queue w))" if "tm_jobs w ! ?k = CancelJob n" for n
      using after executed_numbers(3) [OF num run(4)] that by (auto simp: cancels_after_adds_def known_def gone_def)
    ultimately show ?thesis using run(1) by (auto simp: cancelled_gone_def take_task_def)
  next
    case (expire ready clock ok now fired q)
    then show ?thesis using dead gone_round [OF expire(4)] by (simp add: cancelled_gone_def)
  next
    case (loop s')
    then show ?thesis using dead by (simp add: cancelled_gone_def)
  qed (simp_all add: sub)
qed

lemma timers_inv_step: "timer_step calls w w' \<Longrightarrow> timers_inv w \<Longrightarrow> timers_inv w'"
  using tasks_numbered_step creating_ok_step cancels_after_adds_step cancelled_gone_step
  unfolding timers_inv_def by metis

section \<open>Cancelling from other threads\<close>

lemma timers_inv_start: "timers_inv (timer_start tid n)"
proof -
  have "loop_inv (EventLoop_init tid)" by (rule reachable_inv [OF reachable.init])
  then show ?thesis
    by (simp add: timers_inv_def tasks_numbered_def creating_ok_def cancels_after_adds_def cancelled_gone_def timer_start_def
        EventLoop_init_def)
qed

lemma timers_inv_run: "(timer_step calls)\<^sup>*\<^sup>* w w' \<Longrightarrow> timers_inv w \<Longrightarrow> timers_inv w'"
  by (induction rule: rtranclp_induct) (auto intro: timers_inv_step)

text \<open>A step runs no timer whose cancellation has been executed, and keeps what was executed.\<close>

lemma executed_cancel_step:
  assumes "timer_step calls w w'" and "timers_inv w" and "i \<in> set (executed (tm_loop w))" and "tm_jobs w ! i = CancelJob n"
  shows "i \<in> set (executed (tm_loop w')) \<and> tm_jobs w' ! i = CancelJob n \<and>
    (\<exists>fs. tm_fired w' = tm_fired w @ fs \<and> n \<notin> fst ` set fs)"
proof -
  have i: "i < length (tm_jobs w)" using assms(2,3) executed_numbers(1) by (auto simp: timers_inv_def)
  have g: "gone n (tm_queue w)" using assms(2-4) by (auto simp: timers_inv_def cancelled_gone_def)
  from assms(1) show ?thesis
  proof cases
    case (expire ready clock ok now fired q)
    then show ?thesis using gone_round [OF expire(4) g] assms(3,4) by simp
  next
    case run
    then show ?thesis using assms(3,4) by (simp add: take_task_def)
  qed (use assms(3,4) i in \<open>simp_all add: nth_append\<close>)
qed

lemma executed_cancel_run:
  assumes "(timer_step calls)\<^sup>*\<^sup>* w w'" and "timers_inv w" and "i \<in> set (executed (tm_loop w))" and "tm_jobs w ! i = CancelJob n"
  shows "i \<in> set (executed (tm_loop w')) \<and> tm_jobs w' ! i = CancelJob n \<and>
    (\<exists>fs. tm_fired w' = tm_fired w @ fs \<and> n \<notin> fst ` set fs)"
  using assms(1)
proof (induction rule: rtranclp_induct)
  case base
  then show ?case using assms(3,4) by simp
next
  case (step w1 w2)
  then obtain fs where 1: "i \<in> set (executed (tm_loop w1))" "tm_jobs w1 ! i = CancelJob n" "tm_fired w1 = tm_fired w @ fs"
    "n \<notin> fst ` set fs" by blast
  have "timers_inv w1" by (rule timers_inv_run [OF step(1) assms(2)])
  from executed_cancel_step [OF step(2) this 1(1,2)] 1(3,4) show ?case by (auto simp: image_Un)
qed

text \<open>
  Property C19. Cancelling a timer from another thread works, whatever the interleaving. A thread can
  only name timers whose \<open>addTimer\<close> has submitted its task, and tasks run in order; so once the task
  of a cancellation has run, the timer does not exist and never runs again, although the same timer
  may have been added by a task of its own shortly before, and whatever threads and callbacks add
  and cancel meanwhile.
\<close>
theorem cross_thread_cancel_holds:
  assumes "(timer_step calls)\<^sup>*\<^sup>* (timer_start tid k) w" and "i \<in> set (executed (tm_loop w))"
    and "tm_jobs w ! i = CancelJob n" and "(timer_step calls)\<^sup>*\<^sup>* w w'"
  shows "timers (tm_queue w') n = None \<and> (\<exists>fs. tm_fired w' = tm_fired w @ fs \<and> n \<notin> fst ` set fs)"
proof -
  have inv: "timers_inv w" "timers_inv w'"
    using timers_inv_run [OF _ timers_inv_start] assms(1,4) by (meson rtranclp_trans)+
  note e = executed_cancel_run [OF assms(4) inv(1) assms(2,3)]
  then have "gone n (tm_queue w')" using inv(2) by (auto simp: timers_inv_def cancelled_gone_def)
  with e show ?thesis by (simp add: gone_def)
qed

lemma quiet_steps_timers:
  "quiet_step\<^sup>*\<^sup>* s s' \<Longrightarrow> (timer_step calls)\<^sup>*\<^sup>* (w\<lparr>tm_loop := s\<rparr>) (w\<lparr>tm_loop := s'\<rparr>)"
proof (induction rule: rtranclp_induct)
  case (step s' s'')
  then have "timer_step calls (w\<lparr>tm_loop := s'\<rparr>) (w\<lparr>tm_loop := s'\<rparr>\<lparr>tm_loop := s''\<rparr>)"
    by (intro timer_step.loop) (simp_all add: quiet_step_def)
  with step.IH show ?case by simp
qed simp

lemma serving_loop_fields:
  "pc serving_loop = Running" "loop_free serving_loop" "tasks serving_loop = [0]" "user_code serving_loop"
  "executed serving_loop = []"
  by (simp_all add: serving_loop_def loop_free_def queued_loop_fields user_code_def)

text \<open>The loop of thread 1 after thread 2 has submitted its first task.\<close>

lemma submitted_served:
  assumes "tm_loop w = EventLoop_init 1" and "tm_jobs w = []"
  shows "(timer_step calls)\<^sup>*\<^sup>* (submit 2 j w) ((submit 2 j w)\<lparr>tm_loop := serving_loop\<rparr>)"
  using quiet_steps_timers [OF serving_loop_steps, of calls "submit 2 j w"] assms by (cases w) (simp add: submit_def)

lemma start_may_call: "may_call 2 (EventLoop_init 1)" "\<not> isInLoopThread 2 (EventLoop_init 1)"
  "user_code (EventLoop_init 1)" "loop_free (EventLoop_init 1)"
  by (simp_all add: may_call_def isInLoopThread_def EventLoop_init_def user_code_def loop_free_def)

theorem cross_thread_cancel_holds_witness:
  "\<exists>w. (timer_step (\<lambda>_. []))\<^sup>*\<^sup>* (timer_start 1 0) w \<and> tm_jobs w = [CancelJob 0] \<and> executed (tm_loop w) = [0] \<and>
     timers (tm_queue w) 0 = None"
proof -
  let ?calls = "\<lambda>_. []" and ?w0 = "timer_start 1 0"
  let ?w1 = "?w0\<lparr>tm_queue := do_call (AddTimer 5 100 0) (TimerQueue_new 0)\<rparr>"
  let ?w2 = "submit 2 (CancelJob 0) ?w1" let ?w3 = "?w2\<lparr>tm_loop := serving_loop\<rparr>"
  let ?w4 = "?w3\<lparr>tm_loop := take_task serving_loop, tm_queue := cancelTimer 0 (tm_queue ?w3)\<rparr>"
  have f: "tm_loop ?w1 = EventLoop_init 1" "tm_jobs ?w1 = []" "tm_jobs ?w0 = []" by (simp_all add: timer_start_def)
  have s1: "timer_step ?calls ?w0 ?w1"
    using timer_step.own [of ?w0 ?calls "AddTimer 5 100 0"] start_may_call by (simp add: timer_start_def)
  have s2: "timer_step ?calls ?w1 ?w2"
    using timer_step.cancel [of 2 ?w1 0 ?calls] start_may_call by (simp add: known_def timer_start_def TimerQueue_new_def)
  have s4: "timer_step ?calls ?w3 ?w4"
    using timer_step.run [of ?w3 ?calls] serving_loop_fields by (simp add: f)
  have r: "(timer_step ?calls)\<^sup>*\<^sup>* ?w0 ?w4"
    using s1 s2 submitted_served [OF f(1,2), of ?calls "CancelJob 0"] s4
    by (meson converse_rtranclp_into_rtranclp rtranclp.rtrancl_into_rtrancl)
  have e: "executed (tm_loop ?w4) = [0]" "tm_jobs ?w4 = [CancelJob 0]"
    using serving_loop_fields by (simp_all add: take_task_def f)
  from cross_thread_cancel_holds [OF r, of 0 0 ?w4] e r show ?thesis by auto
qed

text \<open>
  A cancellation by the loop's own thread does not wait its turn. When another thread has added the
  timer and its task is still waiting, the lambda of \<open>cancelTimer\<close> runs at once, finds nothing, and
  the task then adds the timer: the cancellation is lost.
\<close>
theorem own_cancel_can_be_lost:
  assumes "pc (tm_loop w) = Running" and "loop_free (tm_loop w)" and "tasks (tm_loop w) \<noteq> []"
    and "tm_jobs w ! hd (tasks (tm_loop w)) = AddJob t"
  shows "\<exists>w1 w2. timer_step calls w w1 \<and> tm_queue w1 = cancelTimer (sequence t) (tm_queue w) \<and>
    timer_step calls w1 w2 \<and> timers (tm_queue w2) (sequence t) = Some t"
proof -
  let ?w1 = "w\<lparr>tm_queue := do_call (CancelTimer (sequence t)) (tm_queue w)\<rparr>"
  have "timer_step calls w ?w1" by (rule timer_step.own) (use assms in \<open>simp_all add: user_code_def\<close>)
  moreover have "timer_step calls ?w1 (?w1\<lparr>tm_loop := take_task (tm_loop w),
      tm_queue := run_job (AddJob t) (tm_queue ?w1)\<rparr>)"
    using timer_step.run [of ?w1 calls] assms by simp
  moreover have "timers (run_job (AddJob t) (tm_queue ?w1)) (sequence t) = Some t"
    by (simp del: run_job.simps)
  ultimately show ?thesis by fastforce
qed

theorem own_cancel_can_be_lost_witness:
  "\<exists>w w1 w2. (timer_step (\<lambda>_. []))\<^sup>*\<^sup>* (timer_start 1 0) w \<and> known 0 w \<and> timer_step (\<lambda>_. []) w w1 \<and>
     tm_queue w1 = cancelTimer 0 (tm_queue w) \<and> timer_step (\<lambda>_. []) w1 w2 \<and> timers (tm_queue w2) 0 \<noteq> None"
proof -
  let ?calls = "\<lambda>_. []" and ?w0 = "timer_start 1 0"
  obtain t q where tq: "Timer_new 5 100 0 (TimerQueue_new 0) = (t, q)" by fastforce
  have t: "sequence t = 0" "counter q = 1" using Timer_new_fields [OF tq] by (simp_all add: TimerQueue_new_def)
  let ?w1 = "?w0\<lparr>tm_queue := q, creating := [2 \<mapsto> t]\<rparr>"
  let ?w2 = "(submit 2 (AddJob t) ?w1)\<lparr>creating := Map.empty\<rparr>" let ?w3 = "?w2\<lparr>tm_loop := serving_loop\<rparr>"
  have s1: "timer_step ?calls ?w0 ?w1"
    using timer_step.create [of 2 ?w0 5 100 0 t q ?calls] tq start_may_call by (simp add: timer_start_def)
  have s2: "timer_step ?calls ?w1 ?w2"
    using timer_step.add [of 2 ?w1 t ?calls] start_may_call by (simp add: timer_start_def)
  have s3: "(timer_step ?calls)\<^sup>*\<^sup>* ?w2 ?w3"
    using quiet_steps_timers [OF serving_loop_steps, of ?calls ?w2] by (simp add: submit_def timer_start_def)
  have r: "(timer_step ?calls)\<^sup>*\<^sup>* ?w0 ?w3" using s1 s2 s3 by (meson converse_rtranclp_into_rtranclp)
  moreover have "known 0 ?w3" using t by (simp add: known_def)
  moreover have "tm_jobs ?w3 ! 0 = AddJob t" by (simp add: timer_start_def)
  ultimately show ?thesis using own_cancel_can_be_lost [of ?w3 t ?calls] serving_loop_fields t by fastforce
qed

end
