(* ===== verification/Spec2Isabelle.thy ===== *)
theory Spec2Isabelle
  imports Buffer Codec ProtobufHandler Channel Poller Epoller TimerQueue EventLoop TcpConnection
    Connector Socket LoopThreads TcpServer TcpClient LoopProgram LoopSetup CrossThreadSend
    ServerLifetime ConnectionContext EchoBench ConnectorChannel ClientLifetime
    CrossThreadTimers
begin

text \<open>
  \<^bold>\<open>HyperMuduo: a verification development\<close>

  HyperMuduo is a C++ network library in the reactor style: one event loop per thread, channels
  that tie descriptors to callbacks, connections with buffers on both sides, a server and a
  client on top, and a protobuf codec. This development models the library under \<open>src/net\<close> and
  \<open>src/Base\<close>, and the program \<open>src/benchmark\<close> that uses it, and proves what makes it correct; where
  the code does not do what it means to, the theorem states what it does.

  \<^bold>\<open>The parts and their theories.\<close>

  \<^item> \<open>Prelude\<close>: faults (\<open>std::abort\<close>, uncaught exceptions, undefined behaviour) as the left side of a
    result type, \<open>bind_res\<close>, memory as lists of bytes with checked slices, \<open>size_t\<close> arithmetic that
    wraps, decimal text, shared lemmas.
  \<^item> \<open>Buffer\<close> (\<open>net/Buffer.cpp\<close>): a vector with a read and a write index, every operation with its
    pointer arithmetic and \<open>memmove\<close>. The locale \<open>byte_buffer\<close> states what a client relies on;
    its interpretation \<open>buf\<close> is the code's model, and the FIFO theorem rests on it.
  \<^item> \<open>Codec\<close>, \<open>ProtobufHandler\<close> (\<open>net/protobuf\<close>): framing, length checks and checksum; the decoding
    loop and the dispatch table. The protobuf runtime and zlib's \<open>adler32\<close> are parameters
    (the record \<open>protobuf\<close>), with what is relied on as hypotheses (\<open>encodable\<close>, \<open>parses_back\<close>).
    \<open>OnMessage_loop\<close> has as fuel one more than the readable bytes; every round that goes on consumes
    at least the header, so this is enough, which \<open>OnMessage_returns\<close> proves.
  \<^item> \<open>Channel\<close> (\<open>net/Channel.cpp\<close>): interest masks as words and the dispatch of returned events.
    Callbacks are named by a datatype; what they do belongs to the owner's theory. \<open>event_tests\<close> are the
    three tests of \<open>handleEvent\<close>, for rounds in which a callback changes the channel between them.
  \<^item> \<open>Poller\<close>, \<open>Epoller\<close> (\<open>net/Poller.cpp\<close>, \<open>net/Epoller.cpp\<close>): the two multiplexers on a store of
    channels, because removal from the array of \<open>poll\<close> writes the index of another channel. The
    locale \<open>poller_base\<close> is \<open>net/PollerBase.hpp\<close>: what is watched after an update and a removal. It is
    interpreted on both (\<open>poll\<close>, \<open>epoll\<close>) and on the loop's choice between them (\<open>backend\<close>). A
    channel that is gone from the store is freed memory, and touching it is a fault.
  \<^item> \<open>TimerQueue\<close> (\<open>net/TimerQueue.cpp\<close>, \<open>net/Timer.cpp\<close>): the heap with lazy cancellation, the table of
    timers and the timer descriptor, in nanoseconds. The locale \<open>min_queue\<close> states the heap's laws and
    is interpreted on the sorted list that stands for \<open>std::priority_queue\<close> (\<open>tq\<close>).
  \<^item> \<open>EventLoop\<close> (\<open>net/EventLoop.cpp\<close>): \<open>loop\<close>, \<open>queueInLoop\<close> and \<open>quit\<close> as atomic steps of several threads
    (\<open>loop_step\<close>), with ghost lists of the tasks submitted and executed; the sequential
    \<open>executePendingTasks\<close>, proved to be a run of these steps; one iteration of the loop
    (\<open>loop_round\<close>), in which every test of \<open>handleEvent\<close> finds the channel alive or faults, and callbacks
    act on the store of channels (\<open>cb_effect\<close>); the channel and timer entry points; one loop per thread. The locale \<open>fifo_tasks\<close> states
    what those who queue tasks rely on and is interpreted on the loop (\<open>lq\<close>) and on the queues of a
    server's world (\<open>sq\<close>).
  \<^item> \<open>LoopProgram\<close>: \<open>loop()\<close> as a program, with one entry of a list per poll for the kernel's answer and the
    calls of other threads meanwhile; it refines \<open>loop_step\<close>. The list bounds the iterations: a
    program that has used it up is still running, and \<open>loop_ends_after_quit\<close> shows when it returns.
  \<^item> \<open>LoopSetup\<close>: construction and destruction of a loop and its members over the poller, and the
    disposition of \<open>SIGPIPE\<close>.
  \<^item> \<open>TcpConnection\<close> (\<open>net/TcpConnection.cpp\<close>): state, buffers, channel and every handler. What leaves
    the object (calls of callbacks, queued tasks, updates of the poller) is the list of effects an
    operation returns; \<open>wire\<close> records the bytes the kernel accepted. \<open>ConnectionContext\<close> adds the
    context and the options of the socket.
  \<^item> \<open>CrossThreadSend\<close>: a connection composed with its loop, under every interleaving of sending threads.
    \<open>CrossThreadTimers\<close>: the timers of a loop in the same way, under every interleaving of threads that add and
    cancel them.
  \<^item> \<open>Connector\<close> (\<open>net/Connector.cpp\<close>): attempts, back-off and ownership of the socket.
    \<open>ConnectorChannel\<close> puts its channel on the store: \<open>resetChannel\<close> destroys it in the middle of a round.
  \<^item> \<open>Socket\<close> (\<open>net/Socket.cpp\<close>, \<open>net/InetAddress.cpp\<close>): objects that own descriptors and are moved;
    options; addresses.
  \<^item> \<open>LoopThreads\<close> (\<open>net/EventLoopThread.cpp\<close>, \<open>net/EventLoopThreadPool.cpp\<close>): the handshake between the
    owner of a thread and the thread, interleaved with the loop; the round robin.
  \<^item> \<open>TcpServer\<close> (\<open>net/Acceptor.cpp\<close>, \<open>net/TcpServer.cpp\<close>): a world of one server, its connections and
    the task queues of all loops. A queue is a list with the contract of \<open>fifo_tasks\<close>. \<open>ServerLifetime\<close> tells who
    owns a connection and what is left after the destruction of the server.
  \<^item> \<open>TcpClient\<close> (\<open>net/TcpClient.cpp\<close>): the client with its connector and its connection. \<open>ClientLifetime\<close> has
    the courses of a client (\<open>client_reach\<close>), the owners of its connector and what the destruction of the
    client leaves behind.
  \<^item> \<open>EchoBench\<close> (\<open>benchmark/echo_bench.cpp\<close>): the echo server, the client's callbacks and counters, the division
    of connections among threads, the timer that ends a run, the command line.
  \<^item> This theory: what spans components, from the kernel's report to the callbacks, and from a
    sender's messages to the receiver's callbacks.

  \<^bold>\<open>What is proved.\<close> Data path: buffers are byte queues, the stream of a connection is intact under
  short and refused writes, \<open>Decode\<close> refines a parser and inverts \<open>Encode\<close>, fragmentation does not
  matter, and all of it composed end to end; messages sent from several threads arrive whole and in
  each sender's order; the echo server returns what it was sent. Control path: tasks run once and in order, no wakeup
  is lost, the program of the loop refines its interleaved steps and ends when told to, each iteration dispatches exactly what the kernel reported, timers run exactly when
  due and never after cancellation, also when other threads add and cancel them. Life cycles: a connection's states only advance, the server
  keeps its table and its queues in step with them, never aborts, and its queues run empty; a
  client handles every event while its connection stands or is being made; connectors may destroy their
  channels in their own write callbacks; a
  loop that is told to quit while it runs ends; connectors and sockets neither leak nor close twice.
  Errors: the theorems of kind \<open>error\<close> are faults of the code, each shown on the faithful model, among them
  that no write callback is ever installed, so the writability events of the data path never come from the loop,
  that connections of a server are never freed, and that destroying a loop (with \<open>poll\<close>), a server, or a
  client that waits for a retry, and stopping a connector from a callback, lead to uses of freed memory.

  \<^bold>\<open>How the outside is modelled.\<close> The kernel's answers (results of \<open>readv\<close>, \<open>write\<close>, \<open>poll\<close>,
  \<open>epoll_wait\<close>, \<open>connect\<close>, \<open>accept4\<close>, success of \<open>epoll_ctl\<close>) are arguments; hypotheses on them say only
  what the manual pages do (at most as many bytes as offered, no report for a negative
  descriptor). Users' callbacks are numbers, and where their calls matter, functions from the
  callback to the calls it makes. Time is an argument.

  \<^bold>\<open>Not modelled.\<close> Logging; a nested \<open>loop()\<close> entered from a callback; overflow of 64-bit time points and of
  the counters of the benchmark; the sharing of the sequence counter of timers between queues of
  different threads (each queue starts anywhere); the destruction of a \<open>std::function\<close> by the
  callback it is running, beyond the release of what it captured; copies of a connection's shared pointer that users keep; the printed
  report of the benchmark. Calls to \<open>Connector\<close> and \<open>TcpClient\<close> from other threads queue the same
  bodies in the loop and are not modelled separately. The tests are programs that use the library;
  the protobuf classes are generated.
\<close>

section \<open>From the kernel's report to the callbacks\<close>

lemma poll_round:
  assumes "keeps_handlers I run" and "poll_inv (h, p)" and "poll_answer (pollFdList p) rs" and "I (h, PollBackend p)"
  shows "\<exists>hb'. loop_round run (Polled (int (length (ready_indices rs))) rs) wr (h, PollBackend p) =
    Inr (concat (map (\<lambda>i. handleEvent (setReturnEvents (scast (rs ! i)) (the (h (owner_at p i))))) (ready_indices rs)), hb') \<and> I hb'"
proof -
  let ?R = "ready_indices rs"
  let ?es = "map (\<lambda>i. (pollFdList p ! i)\<lparr>prevents := rs ! i\<rparr>) ?R"
  let ?h = "foldl report_to h (zip ?es (map (owner_at p) ?R))"
  have R: "\<forall>i \<in> set ?R. i < length (pollFdList p)"
    using assms(3) by (auto simp: ready_indices_def poll_answer_def)
  have ev: "?h (owner_at p i) = Some (setReturnEvents (scast (rs ! i)) (the (h (owner_at p i))))" if "i \<in> set ?R" for i
    using poll_reported_channel [OF assms(2,3) that] owner_at_Some [OF assms(2)] R that by force
  obtain p' where poll: "backend_poll (Polled (int (length ?R)) rs) wr (h, PollBackend p) =
      Inr (map (owner_at p) ?R, ?h, PollBackend p')"
    using poll_reports [OF assms(2,3)] by (simp add: backend_poll_def)
  have "distinct (map (owner_at p) ?R)"
    using owner_at_inj [OF assms(2)] R by (auto simp: distinct_map ready_indices_def intro: inj_onI)
  moreover have "I (?h, PollBackend p')" 
    by (rule keeps_handlersD(1) [OF assms(1,4) _ poll]) (use assms(3) in \<open>simp add: full_answer_def poll_answer_def\<close>)
  ultimately obtain hb' where "handle_ready run (map (owner_at p) ?R) (?h, PollBackend p') =
      Inr (concat (map (\<lambda>c. handleEvent (the (?h c))) (map (owner_at p) ?R)), hb')" "I hb'"
    using handle_ready_calls [OF assms(1), of "map (owner_at p) ?R" ?h "(?h, PollBackend p')"] ev by auto
  moreover have "concat (map (\<lambda>c. handleEvent (the (?h c))) (map (owner_at p) ?R)) =
      concat (map (\<lambda>i. handleEvent (setReturnEvents (scast (rs ! i)) (the (h (owner_at p i))))) ?R)"
    using ev by (simp add: comp_def cong: map_cong)
  ultimately show ?thesis using poll by (simp add: loop_round_def)
qed

lemma epoll_round:
  assumes "keeps_handlers I run" and "length evs \<le> events_size p" and "distinct (map ep_ptr evs)"
    and "\<forall>ev \<in> set evs. \<exists>c. ep_ptr ev = Some c \<and> h c \<noteq> None" and "I (h, EpollBackend p)"
  shows "\<exists>hb'. loop_round run pr (Waited evs) (h, EpollBackend p) =
    Inr (concat (map (\<lambda>ev. handleEvent (setReturnEvents (setPollEvents (ep_events ev)) (the (h (the (ep_ptr ev)))))) evs), hb') \<and> I hb'"
proof -
  let ?act = "map (\<lambda>ev. the (ep_ptr ev)) evs"
  obtain h1 where h1: "Epoller_fillActiveChannels evs h [] = Inr (h1, ?act)"
    "\<forall>ev \<in> set evs. h1 (the (ep_ptr ev)) =
        Some (setReturnEvents (setPollEvents (ep_events ev)) (the (h (the (ep_ptr ev)))))"
    using epoll_fill_active [OF assms(4,3), of "[]"] by auto
  obtain p' where poll: "backend_poll pr (Waited evs) (h, EpollBackend p) = Inr (?act, h1, EpollBackend p')"
    using assms(2) h1(1) by (simp add: backend_poll_def Epoller_poll_def Let_def)
  have "distinct ?act" using assms(3,4) by (auto simp: distinct_map inj_on_def) (metis option.sel)
  moreover have "I (h1, EpollBackend p')" 
    by (rule keeps_handlersD(1) [OF assms(1,5) _ poll]) (simp add: full_answer_def)
  ultimately obtain hb' where "handle_ready run ?act (h1, EpollBackend p') =
      Inr (concat (map (\<lambda>c. handleEvent (the (h1 c))) ?act), hb')" "I hb'"
    using handle_ready_calls [OF assms(1), of ?act h1 "(h1, EpollBackend p')"] h1(2) by auto
  moreover have "concat (map (\<lambda>c. handleEvent (the (h1 c))) ?act) =
      concat (map (\<lambda>ev. handleEvent (setReturnEvents (setPollEvents (ep_events ev)) (the (h (the (ep_ptr ev)))))) evs)"
    using h1(2) by (simp add: comp_def cong: map_cong)
  ultimately show ?thesis using poll by (simp add: loop_round_def)
qed

text \<open>
  Property C16. One iteration of the loop, from the kernel's answer to the callbacks, with either
  poller: exactly the channels the kernel reports are handled, in the order of the report and
  each once, and each calls what \<open>handleEvent\<close> calls for the events of its own descriptor. This
  holds whatever the callbacks do meanwhile to the interest and the registration of channels, and
  whatever channels they create, as long as no callback destroys a channel other than a write
  callback its own; an invariant \<open>I\<close> of the program that polls and callbacks keep holds after the
  round. For \<open>epoll\<close>, the kernel reports a descriptor once, with the pointer of a channel that
  exists, and at most as many as the array of events holds.
\<close>
theorem loop_round_dispatches:
  assumes "keeps_handlers I run"
  shows "(poll_inv (h, p) \<longrightarrow> poll_answer (pollFdList p) rs \<longrightarrow> I (h, PollBackend p) \<longrightarrow>
      (\<exists>hb'. loop_round run (Polled (int (length (ready_indices rs))) rs) wr (h, PollBackend p) =
        Inr (concat (map (\<lambda>i. handleEvent (setReturnEvents (scast (rs ! i)) (the (h (owner_at p i)))))
               (ready_indices rs)), hb') \<and> I hb')) \<and>
    (length evs \<le> events_size q \<longrightarrow> distinct (map ep_ptr evs) \<longrightarrow>
     (\<forall>ev \<in> set evs. \<exists>c. ep_ptr ev = Some c \<and> h c \<noteq> None) \<longrightarrow> I (h, EpollBackend q) \<longrightarrow>
      (\<exists>hb'. loop_round run pr (Waited evs) (h, EpollBackend q) =
        Inr (concat (map (\<lambda>ev. handleEvent (setReturnEvents (setPollEvents (ep_events ev)) (the (h (the (ep_ptr ev))))))
               evs), hb') \<and> I hb'))"
  using poll_round [OF assms] epoll_round [OF assms] by blast

theorem loop_round_dispatches_witness:
  "\<exists>hb'. loop_round (connector_effect 0 1 (EventLoop_init 1) busy_env) PollFailed
      (Waited [\<lparr>ep_events = EPOLLOUT, ep_ptr = Some 4\<rparr>, \<lparr>ep_events = EPOLLIN, ep_ptr = Some 5\<rparr>]) busy_loop =
      Inr ([OnWrite ConnectorWrite, OnRead TimersRead], hb') \<and> tidy 0 hb'"
proof -
  let ?evs = "[\<lparr>ep_events = EPOLLOUT, ep_ptr = Some 4\<rparr>, \<lparr>ep_events = EPOLLIN, ep_ptr = Some 5\<rparr>]"
  obtain q where q: "busy_loop = (fst busy_loop, EpollBackend q)" "events_size q = 16"
    by (simp add: busy_loop_def Epoller_new_def)
  have c: "fst busy_loop 4 = Some writable_channel" "fst busy_loop 5 = Some timer_channel" by (simp_all add: busy_loop_def)
  have "handleEvent (setReturnEvents (setPollEvents EPOLLOUT) writable_channel) = [OnWrite ConnectorWrite]"
    "handleEvent (setReturnEvents (setPollEvents EPOLLIN) timer_channel) = [OnRead TimersRead]"
    by (simp_all add: handleEvent_def call_if_def setReturnEvents_def busy_defs mask_eval)
  moreover have "tidy 0 (fst busy_loop, EpollBackend q)" using busy_loop_tidy q(1) by simp
  ultimately show ?thesis
    using loop_round_dispatches [OF connector_effect_keeps [OF busy_env_orderly in_own_thread],
        of "fst busy_loop" _ _ _ ?evs q PollFailed] c q by auto
qed

section \<open>From a sender to the callbacks of the receiver\<close>

text \<open>
  Property C1. Messages end to end. A connection that sends the frames of a list of messages, in
  any mixture of sends and writability events and with any partial or refused writes, and has
  emptied its send buffer, has put bytes on the wire which the receiving handler, however they
  are cut into reads, turns back into exactly these messages: each is dispatched once, in order,
  to the callback registered for its type.
\<close>
theorem messages_end_to_end:
  assumes "conn_ok c" and "wire c = []" and "contents (send_buffer c) = []"
    and "list_all transport_op ops" and "kernel_ok ops c"
    and "write_index (send_buffer c) + sum_list (map op_size ops) \<le> VECTOR_MAX"
    and "concat (map op_bytes ops) = stream_of pb adler32 ms" and "\<forall>m \<in> set ms. well_formed pb m"
    and "buf_inv b" and "contents b = []" and "default_cb disp \<noteq> None"
    and "write_index b + length (stream_of pb adler32 ms) \<le> VECTOR_MAX"
  shows "\<exists>eff c'. conn_run ops c = Inr (eff, c') \<and> conn_ok c' \<and>
    (contents (send_buffer c') = [] \<longrightarrow> concat chunks = wire c' \<longrightarrow> (\<forall>d \<in> set chunks. length d \<le> EXTRA_SIZE) \<longrightarrow>
     (\<exists>b'. receive_chunks pb adler32 disp chunks b = Some (Inr (map (\<lambda>m. (callee pb disp m, m)) ms, b')) \<and>
        contents b' = []))"
proof -
  obtain eff c' where r: "conn_run ops c = Inr (eff, c')" "conn_ok c'"
    "wire c' @ contents (send_buffer c') = stream_of pb adler32 ms"
    using transport_run [OF assms(1,4,5)] assms(2,3,6,7) by (auto simp: has_room_def)
  have "\<exists>b'. receive_chunks pb adler32 disp chunks b = Some (Inr (map (\<lambda>m. (callee pb disp m, m)) ms, b')) \<and>
      contents b' = []"
    if "contents (send_buffer c') = []" "concat chunks = wire c'" "\<forall>d \<in> set chunks. length d \<le> EXTRA_SIZE"
    using receive_chunks_stream [OF assms(11,9) _ assms(8) that(3), of adler32] that(1,2) r(3) assms(10,12)
    by (auto simp: parse_frame_def has_room_def)
  with r(1,2) show ?thesis by blast
qed

theorem messages_end_to_end_witness:
  "\<exists>eff c' b'. conn_run [SendInLoop (WriteCount 15) [0, 0, 0, 11, 0, 0, 0, 1, 109, 1, 2, 0, 0, 0, 7]] small_conn = Inr (eff, c') \<and>
     wire c' = [0, 0, 0, 11, 0, 0, 0, 1, 109, 1, 2, 0, 0, 0, 7] \<and>
     receive_chunks raw_pb (\<lambda>_. 7) (RegisterMessageCallback () 5 (Dispatcher_new (Some 1)))
       [[0, 0], [0, 11, 0, 0, 0, 1, 109, 1], [2, 0, 0, 0, 7]] small_buffer = Some (Inr ([(5, [1, 2])], b'))"
proof -
  let ?F = "[0, 0, 0, 11, 0, 0, 0, 1, 109, 1, 2, 0, 0, 0, 7] :: byte list"
  let ?ops = "[SendInLoop (WriteCount 15) ?F]" and ?d = "RegisterMessageCallback () 5 (Dispatcher_new (Some 1))"
  let ?chunks = "[[0, 0], [0, 11, 0, 0, 0, 1, 109, 1], [2, 0, 0, 0, 7]] :: byte list list"
  have F: "stream_of raw_pb (\<lambda>_. 7) [[1, 2]] = ?F"
    by (simp add: stream_of_def frame_of_def raw_pb_def frame_alt covered_bytes_def total_len_of_def be32_encode_def len_defs)
  then have len: "length (stream_of raw_pb (\<lambda>_. 7) [[1, 2]]) = 15" by simp
  have small: "wire small_conn = []" "send_buffer small_conn = small_buffer" "contents small_buffer = []"
    "buf_inv small_buffer" "write_index small_buffer = 8"
    by (simp_all add: small_conn_def small_buffer_def buf_eval)
  have idle: "idle small_conn" using small_conn_ok small by (simp add: idle_def conn_ok_def readable_0_iff)
  have run: "\<exists>eff. conn_run ?ops small_conn = Inr (eff, small_conn\<lparr>wire := ?F\<rparr>)"
    by (simp add: sendInLoop_def direct_write_def idle in_loop_def small(1) Let_def)
  have wf: "\<forall>m \<in> set [[1, 2]]. well_formed raw_pb m"
    by (simp add: well_formed_def raw_pb_def encodable_def serialisable_def parses_back_def createMessage_def
        total_len_of_def len_defs)
  have cb: "callee raw_pb ?d [1, 2] = 5" "default_cb ?d \<noteq> None"
    by (simp_all add: callee_def Dispatcher_new_def RegisterMessageCallback_def raw_pb_def)
  have ops: "list_all transport_op ?ops" "kernel_ok ?ops small_conn"
    by (simp_all add: accepts_def split: sum.split prod.split)
  have "concat (map op_bytes ?ops) = stream_of raw_pb (\<lambda>_. 7) [[1, 2]]" unfolding F by simp
  from messages_end_to_end [OF small_conn_ok small(1) _ ops _ this wf small(4,3) cb(2), of ?chunks] run
  show ?thesis
    by (auto simp: small cb(1) [simplified] len [simplified] VECTOR_MAX_def EXTRA_SIZE_def)
qed

end
